(* ===== verification/Spegla_Prelude.thy ===== *)
theory Spegla_Prelude
  imports Main "HOL-Library.Multiset" "HOL-Library.Code_Target_Nat"
begin

text \<open>
  Shared vocabulary of the development: the outcome of a C function, allocated
  arrays of pointers with bounds-checked access, 32-bit unsigned arithmetic and
  the comparison functions that the containers take as callbacks.
\<close>

section \<open>Outcomes of C functions\<close>

text \<open>
  A C function of the program returns a value, fails with \<open>-1\<close> or \<open>NULL\<close> and
  \<open>errno\<close> set, ends the process (\<open>err\<close>, \<open>errx\<close>, \<open>exit\<close>), or does something the C
  language leaves undefined: an access outside an object, a read of memory that was
  never written, a signed overflow. \<open>Undef\<close> is never hidden: reads and writes of
  arrays are checked.
\<close>

datatype errno = ENOENT | EEXIST | ENOMEM | EOTHER

datatype 'a outcome = Ret 'a | Err errno | Exit int | Undef

fun bindO :: "'a outcome \<Rightarrow> ('a \<Rightarrow> 'b outcome) \<Rightarrow> 'b outcome" where
  "bindO (Ret x) f = f x"
| "bindO (Err e) f = Err e"
| "bindO (Exit n) f = Exit n"
| "bindO Undef f = Undef"

text \<open>
  A failed \<open>malloc\<close> in the containers either ends the process or returns an error,
  by the global flag \<open>container_err_exit\<close>.
\<close>

definition alloc_fail :: "bool \<Rightarrow> 'a outcome" where
  "alloc_fail container_err_exit = (if container_err_exit then Exit 1 else Err ENOMEM)"

text \<open>
  Sequences of calls on one container: push the elements of a list one after the other,
  and the loop \<open>while (pop (q, &x) == 0)\<close> with the popped elements collected. The fuel of
  the loop counts its tests; running out of it is \<open>Undef\<close>, so a result \<open>Ret\<close> shows that the
  loop ends.
\<close>

fun foldO :: "('q \<Rightarrow> 'a \<Rightarrow> 'q outcome) \<Rightarrow> 'q \<Rightarrow> 'a list \<Rightarrow> 'q outcome" where
  "foldO push q [] = Ret q"
| "foldO push q (x # xs) = bindO (push q x) (\<lambda>q. foldO push q xs)"

fun drainO :: "nat \<Rightarrow> ('q \<Rightarrow> ('a \<times> 'q) outcome) \<Rightarrow> 'q \<Rightarrow> 'a list outcome" where
  "drainO 0 pop q = Undef"
| "drainO (Suc n) pop q =
     (case pop q of
        Ret (x, q') \<Rightarrow> bindO (drainO n pop q') (\<lambda>xs. Ret (x # xs))
      | Err e \<Rightarrow> Ret []
      | Exit k \<Rightarrow> Exit k
      | Undef \<Rightarrow> Undef)"

section \<open>Arrays of pointers\<close>

text \<open>
  An allocated array of \<open>n\<close> pointers is a list of \<open>n\<close> cells; a cell is \<open>None\<close> until
  it is written, as memory from \<open>malloc\<close> and \<open>realloc\<close> is.
\<close>

type_synonym 'a arr = "'a option list"

definition arr_alloc :: "nat \<Rightarrow> 'a arr" where
  "arr_alloc n = replicate n None"

definition arr_realloc :: "'a arr \<Rightarrow> nat \<Rightarrow> 'a arr" where
  "arr_realloc a n = take n a @ replicate (n - length a) None"

definition arr_get :: "'a arr \<Rightarrow> nat \<Rightarrow> 'a outcome" where
  "arr_get a i = (if i < length a then (case a ! i of Some v \<Rightarrow> Ret v | None \<Rightarrow> Undef) else Undef)"

definition arr_set :: "'a arr \<Rightarrow> nat \<Rightarrow> 'a \<Rightarrow> 'a arr outcome" where
  "arr_set a i v = (if i < length a then Ret (a[i := Some v]) else Undef)"

text \<open>\<open>memcpy (dst + d, src + s, n)\<close> on pointer arrays; \<open>memmove\<close> is the same on one array.\<close>

definition arr_copy :: "'a arr \<Rightarrow> nat \<Rightarrow> 'a arr \<Rightarrow> nat \<Rightarrow> nat \<Rightarrow> 'a arr outcome" where
  "arr_copy dst d src s n =
     (if d + n \<le> length dst \<and> s + n \<le> length src
      then Ret (take d dst @ take n (drop s src) @ drop (d + n) dst) else Undef)"

section \<open>Byte buffers\<close>

definition NUL :: char where "NUL = CHR 0x00"

text \<open>The string in a buffer; bytes that were never written must not be read.\<close>

definition arr_cstr :: "char arr \<Rightarrow> string outcome" where
  "arr_cstr buf =
     (let xs = takeWhile (\<lambda>b. b \<noteq> Some NUL) buf in
      if None \<in> set xs \<or> length xs = length buf then Undef else Ret (map the xs))"

section \<open>Unsigned 32-bit arithmetic\<close>

definition u32 :: "nat \<Rightarrow> nat" where
  "u32 n = n mod 2 ^ 32"

definition u32_sub :: "nat \<Rightarrow> nat \<Rightarrow> nat" where
  "u32_sub a b = (if b \<le> a then a - b else (2 ^ 32 + a) - b)"

section \<open>Reading lines\<close>

text \<open>\<open>fgets\<close> with a buffer of \<open>n\<close> bytes on the rest of a file.\<close>

definition fgets :: "nat \<Rightarrow> string \<Rightarrow> (string \<times> string) option" where
  "fgets n f =
     (if f = [] then None
      else let line = takeWhile (\<lambda>b. b \<noteq> CHR 0x0A) f;
               k = min (n - 1) (if length line < length f then length line + 1 else length line) in
        Some (take k f, drop k f))"

named_theorems arr_simps and width_simps

section \<open>Lemmas on outcomes\<close>

lemma bindO_cong [fundef_cong]:
  "m = m' \<Longrightarrow> (\<And>x. m' = Ret x \<Longrightarrow> f x = g x) \<Longrightarrow> bindO m f = bindO m' g"
  by (cases m') auto

lemma bindO_eq_Ret [simp]: "(bindO m f = Ret y) = (\<exists>x. m = Ret x \<and> f x = Ret y)"
  by (cases m) auto

lemma bindO_assoc: "bindO (bindO m f) g = bindO m (\<lambda>x. bindO (f x) g)"
  by (cases m) auto

lemma alloc_fail_neq_Ret [simp]: "alloc_fail b \<noteq> Ret x"
  by (simp add: alloc_fail_def)

lemma fgets_line:
  assumes "CHR 0x0A \<notin> set t" "length t + 1 < n"
  shows "fgets n (t @ CHR 0x0A # f) = Some (t @ [CHR 0x0A], f)"
proof -
  have "takeWhile (\<lambda>b. b \<noteq> CHR 0x0A) (t @ CHR 0x0A # f) = t"
    using assms(1) by (auto simp: takeWhile_append)
  moreover have "min (n - 1) (length t + 1) = length t + 1" using assms(2) by linarith
  ultimately show ?thesis by (simp add: fgets_def Let_def)
qed

lemma fgets_shorter: "fgets n f = Some (line, rest) \<Longrightarrow> 1 < n \<Longrightarrow> length rest < length f"
  using length_takeWhile_le [of "\<lambda>b. b \<noteq> CHR 0x0A" f]
  by (cases f) (auto simp: fgets_def Let_def min_def split: if_splits)

lemma fgets_append: "fgets n f = Some (line, rest) \<Longrightarrow> f = line @ rest"
  by (auto simp: fgets_def Let_def split: if_splits)

lemma fgets_end [simp]: "fgets n [] = None"
  by (simp add: fgets_def)

text \<open>\<open>P\<close> holds of the result, if there is one; one rule per construct of the model.\<close>

fun outcome_inv :: "('a \<Rightarrow> bool) \<Rightarrow> 'a outcome \<Rightarrow> bool" where
  "outcome_inv P (Ret x) = P x"
| "outcome_inv P (Err e) = True"
| "outcome_inv P (Exit n) = True"
| "outcome_inv P Undef = True"

named_theorems outcome_rules

lemma outcome_inv_iff: "outcome_inv P m \<longleftrightarrow> (\<forall>x. m = Ret x \<longrightarrow> P x)"
  by (cases m) auto

lemma outcome_bindO [outcome_rules]:
  "(\<And>x. m = Ret x \<Longrightarrow> outcome_inv P (f x)) \<Longrightarrow> outcome_inv P (bindO m f)"
  by (cases m) auto

lemma outcome_if [outcome_rules]:
  "(b \<Longrightarrow> outcome_inv P x) \<Longrightarrow> (\<not> b \<Longrightarrow> outcome_inv P y) \<Longrightarrow> outcome_inv P (if b then x else y)"
  by simp

lemma outcome_option [outcome_rules]:
  "(y = None \<Longrightarrow> outcome_inv P x) \<Longrightarrow> (\<And>a. y = Some a \<Longrightarrow> outcome_inv P (f a)) \<Longrightarrow>
   outcome_inv P (case y of None \<Rightarrow> x | Some a \<Rightarrow> f a)"
  by (cases y) simp_all

lemma outcome_list [outcome_rules]:
  "(y = [] \<Longrightarrow> outcome_inv P x) \<Longrightarrow> (\<And>a as. y = a # as \<Longrightarrow> outcome_inv P (f a as)) \<Longrightarrow>
   outcome_inv P (case y of [] \<Rightarrow> x | a # as \<Rightarrow> f a as)"
  by (cases y) simp_all

lemma outcome_prod [outcome_rules]:
  "(\<And>a b. y = (a, b) \<Longrightarrow> outcome_inv P (f a b)) \<Longrightarrow> outcome_inv P (case y of (a, b) \<Rightarrow> f a b)"
  by (cases y) simp

lemma outcome_Let [outcome_rules]: "(\<And>x. x = y \<Longrightarrow> outcome_inv P (f x)) \<Longrightarrow> outcome_inv P (Let y f)"
  by simp

section \<open>Lemmas on arrays\<close>

lemma length_arr_alloc [simp]: "length (arr_alloc n) = n"
  by (simp add: arr_alloc_def)

lemma length_arr_realloc [simp]: "length (arr_realloc a n) = n"
  by (simp add: arr_realloc_def)

lemma arr_set_Ret [simp]: "(arr_set a i v = Ret b) = (i < length a \<and> b = a[i := Some v])"
  by (auto simp: arr_set_def)

lemma arr_get_Ret: "(arr_get a i = Ret v) = (i < length a \<and> a ! i = Some v)"
  by (auto simp: arr_get_def split: option.splits)

text \<open>An array whose first cells hold the list \<open>xs\<close>.\<close>

lemma arr_get_front [arr_simps]: "i < length xs \<Longrightarrow> arr_get (map Some xs @ rest) i = Ret (xs ! i)"
  by (simp add: arr_get_def nth_append)

lemma arr_set_front [arr_simps]:
  "i < length xs \<Longrightarrow> arr_set (map Some xs @ rest) i v = Ret (map Some (xs[i := v]) @ rest)"
  by (simp add: arr_set_def list_update_append map_update)

lemma arr_realloc_front [arr_simps]:
  assumes "length xs \<le> n"
  shows "\<exists>rest'. arr_realloc (map Some xs @ rest) n = map Some xs @ rest'"
  using assms by (auto simp: arr_realloc_def)

lemma arr_copy_length: "arr_copy dst d src s n = Ret a \<Longrightarrow> length a = length dst"
  by (auto simp: arr_copy_def split: if_splits)

lemma arr_cstr_front: "NUL \<notin> set xs \<Longrightarrow> arr_cstr (map Some xs @ Some NUL # rest) = Ret xs"
proof -
  assume "NUL \<notin> set xs"
  then have "takeWhile (\<lambda>b. b \<noteq> Some NUL) (map Some xs @ Some NUL # rest) = map Some xs"
    by (induction xs) auto
  then show ?thesis by (simp add: arr_cstr_def comp_def)
qed


section \<open>Lemmas on widths\<close>

lemma u32_id [width_simps]: "n < 2 ^ 32 \<Longrightarrow> u32 n = n"
  by (simp add: u32_def)

lemma u32_less [simp]: "u32 n < 2 ^ 32"
  by (simp add: u32_def)

lemma u32_sub_le [width_simps]: "b \<le> a \<Longrightarrow> u32_sub a b = a - b"
  by (simp add: u32_sub_def)

section \<open>Comparison functions\<close>

text \<open>
  The containers take a comparison callback that returns a value "as strcmp". What they
  rely on is a total preorder read off the sign of the result.
\<close>

locale comparator =
  fixes cmp :: "'a \<Rightarrow> 'a \<Rightarrow> int"
  assumes cmp_flip: "0 < cmp a b \<longleftrightarrow> cmp b a < 0"
    and cmp_trans: "0 \<le> cmp a b \<Longrightarrow> 0 \<le> cmp b c \<Longrightarrow> 0 \<le> cmp a c"
begin

lemma cmp_refl: "cmp a a = 0"
  using cmp_flip [of a a] by linarith

lemma cmp_total: "0 \<le> cmp a b \<or> 0 \<le> cmp b a"
  using cmp_flip [of a b] cmp_flip [of b a] by linarith

lemma cmp_not_less: "\<not> cmp a b < 0 \<longleftrightarrow> cmp b a \<le> 0"
  using cmp_flip [of b a] by linarith

lemma cmp_gt_imp_ge: "0 < cmp a b \<Longrightarrow> 0 \<le> cmp a b"
  by simp

lemma cmp_less_flip: "cmp a b < 0 \<Longrightarrow> 0 < cmp b a"
  using cmp_flip [of b a] by simp

lemma cmp_le_flip: "cmp a b \<le> 0 \<longleftrightarrow> 0 \<le> cmp b a"
  using cmp_flip [of a b] by linarith

end

section \<open>Containers that are filled and then drained\<close>

text \<open>
  The contract of a container whose pushes all come before the first pop. There is one
  predicate per phase; \<open>ins\<close> says where a push puts the element, a pop takes the first one.
\<close>

locale phase_container =
  fixes filling draining :: "'q \<Rightarrow> bool"
    and elems :: "'q \<Rightarrow> 'a list"
    and ins :: "'a list \<Rightarrow> 'a \<Rightarrow> 'a list"
    and cap :: nat
    and push :: "'q \<Rightarrow> 'a \<Rightarrow> 'q outcome"
    and pop :: "'q \<Rightarrow> ('a \<times> 'q) outcome"
  assumes length_ins: "length (ins xs x) = Suc (length xs)"
    and fill_push: "filling q \<Longrightarrow> length (elems q) < cap \<Longrightarrow>
      \<exists>q'. push q x = Ret q' \<and> filling q' \<and> elems q' = ins (elems q) x"
    and fill_drain: "filling q \<Longrightarrow> draining q"
    and drain_empty: "draining q \<Longrightarrow> elems q = [] \<Longrightarrow> pop q = Err ENOENT"
    and drain_pop: "draining q \<Longrightarrow> elems q \<noteq> [] \<Longrightarrow>
      \<exists>q'. pop q = Ret (hd (elems q), q') \<and> draining q' \<and> elems q' = tl (elems q)"
begin

lemma push_all:
  "filling q \<Longrightarrow> length (elems q) + length xs \<le> cap \<Longrightarrow>
   \<exists>q'. foldO push q xs = Ret q' \<and> filling q' \<and> elems q' = foldl ins (elems q) xs"
proof (induction xs arbitrary: q)
  case (Cons x xs)
  then obtain q1 where "push q x = Ret q1" "filling q1" "elems q1 = ins (elems q) x"
    using fill_push [of q x] by auto
  then show ?case using Cons.IH [of q1] Cons.prems by (auto simp: length_ins)
qed simp

lemma length_foldl_ins: "length (foldl ins ys xs) = length ys + length xs"
  by (induction xs arbitrary: ys) (auto simp: length_ins)

lemma drain_all: "draining q \<Longrightarrow> length (elems q) < n \<Longrightarrow> drainO n pop q = Ret (elems q)"
proof (induction n arbitrary: q)
  case (Suc n)
  show ?case
  proof (cases "elems q")
    case Nil
    then show ?thesis using drain_empty [OF Suc.prems(1)] by simp
  next
    case (Cons x xs)
    then obtain q' where "pop q = Ret (x, q')" "draining q'" "elems q' = xs"
      using drain_pop [OF Suc.prems(1)] by auto
    then show ?thesis using Suc.IH [of q'] Suc.prems Cons by simp
  qed
qed simp

lemma fill_then_drain:
  assumes "filling q" "elems q = []" "length xs \<le> cap"
  shows "\<exists>q'. foldO push q xs = Ret q' \<and> drainO (Suc (length xs)) pop q' = Ret (foldl ins [] xs)"
proof -
  obtain q' where q': "foldO push q xs = Ret q'" "filling q'" "elems q' = foldl ins [] xs"
    using push_all [of q xs] assms by auto
  show ?thesis
    using q'(1) drain_all [OF fill_drain [OF q'(2)], of "Suc (length xs)"] q'(3) length_foldl_ins [of "[]" xs]
    by simp
qed

end

end
