(* ===== verification/Fifo.thy ===== *)
theory Fifo
  imports Spegla_Prelude
begin

text \<open>
  The circular buffer of container.c (\<open>struct fifo_list\<close>, lines 380-655), which holds
  the directories still to be visited. The functions are as written: the element
  count of a buffer that has wrapped is computed as \<open>size - (start + end)\<close>, and the
  shrinking copy of a wrapped buffer uses the halved size.
\<close>

section \<open>Model\<close>

record 'a fifo_list =
  fifo_start :: nat
  fifo_end :: nat
  fifo_size :: nat
  fifo_data :: "'a arr"

definition FIFO_CHUNK :: nat where
  "FIFO_CHUNK = 20"

definition FIFO_COUNT :: "'a fifo_list \<Rightarrow> nat" where
  "FIFO_COUNT f =
     (if fifo_start f \<le> fifo_end f then fifo_end f - fifo_start f
      else u32_sub (fifo_size f) (u32 (fifo_start f + fifo_end f)))"

definition fifo_incr :: "bool \<Rightarrow> 'a fifo_list \<Rightarrow> 'a fifo_list outcome" where
  "fifo_incr ok f =
     (let size = u32 (fifo_size f * 2) in
      if \<not> ok then Err ENOMEM
      else let p = arr_realloc (fifo_data f) size in
        if fifo_end f < fifo_start f
        then bindO (arr_copy p (fifo_size f) p 0 (fifo_end f)) (\<lambda>p'.
          Ret (f\<lparr>fifo_data := p', fifo_end := u32 (fifo_end f + fifo_size f), fifo_size := size\<rparr>))
        else Ret (f\<lparr>fifo_data := p, fifo_size := size\<rparr>))"

definition fifo_decr :: "bool \<Rightarrow> 'a fifo_list \<Rightarrow> 'a fifo_list outcome" where
  "fifo_decr ok f =
     (if fifo_size f = FIFO_CHUNK then Ret f
      else let start = fifo_start f; en = fifo_end f; size = fifo_size f div 2; p = arr_alloc size in
        if \<not> ok then Ret f
        else bindO
          (if start < en then arr_copy p 0 (fifo_data f) start (en - start)
           else if en < start
           then bindO (arr_copy p 0 (fifo_data f) start (u32_sub size start)) (\<lambda>p'.
             arr_copy p' (u32_sub size start) (fifo_data f) 0 en)
           else Ret p)
          (\<lambda>p'. Ret (f\<lparr>fifo_data := p', fifo_start := 0, fifo_end := FIFO_COUNT f,
                        fifo_size := size\<rparr>)))"

definition fifo_init :: "bool \<Rightarrow> bool \<Rightarrow> bool \<Rightarrow> 'a fifo_list outcome" where
  "fifo_init container_err_exit ok1 ok2 =
     (if \<not> ok1 then alloc_fail container_err_exit
      else if \<not> ok2 then alloc_fail container_err_exit
      else Ret \<lparr>fifo_start = 0, fifo_end = 0, fifo_size = FIFO_CHUNK,
                fifo_data = arr_alloc FIFO_CHUNK\<rparr>)"

definition fifo_clone :: "bool \<Rightarrow> bool \<Rightarrow> bool \<Rightarrow> 'a fifo_list \<Rightarrow> 'a fifo_list outcome" where
  "fifo_clone container_err_exit ok1 ok2 f =
     (if \<not> ok1 then alloc_fail container_err_exit
      else if \<not> ok2 then alloc_fail container_err_exit
      else bindO (arr_copy (arr_alloc (fifo_size f)) 0 (fifo_data f) 0 (fifo_size f))
             (\<lambda>d. Ret (f\<lparr>fifo_data := d\<rparr>)))"

text \<open>
  The index moves inside the \<open>if\<close> that calls \<open>free_fun\<close>. With no \<open>free_fun\<close> the loop
  over a non-empty range never ends, which is the value \<open>Undef\<close> here.
\<close>

fun fifo_free_loop :: "bool \<Rightarrow> 'a arr \<Rightarrow> nat \<Rightarrow> nat \<Rightarrow> 'a list outcome" where
  "fifo_free_loop free_fun_given p i 0 = Ret []"
| "fifo_free_loop free_fun_given p i (Suc n) =
     (if free_fun_given
      then bindO (arr_get p i) (\<lambda>x. bindO (fifo_free_loop free_fun_given p (Suc i) n) (\<lambda>xs. Ret (x # xs)))
      else Undef)"

definition fifo_free :: "'a fifo_list \<Rightarrow> bool \<Rightarrow> 'a list outcome" where
  "fifo_free f free_fun_given =
     (if fifo_start f \<noteq> fifo_end f
      then if fifo_start f < fifo_end f
        then fifo_free_loop free_fun_given (fifo_data f) (fifo_start f) (fifo_end f - fifo_start f)
        else bindO (fifo_free_loop free_fun_given (fifo_data f) (fifo_start f) (fifo_size f - fifo_start f))
          (\<lambda>xs. bindO (fifo_free_loop free_fun_given (fifo_data f) 0 (fifo_end f)) (\<lambda>ys. Ret (xs @ ys)))
      else Ret [])"

definition fifo_push :: "bool \<Rightarrow> 'a fifo_list \<Rightarrow> 'a \<Rightarrow> 'a fifo_list outcome" where
  "fifo_push ok f data =
     bindO (if FIFO_COUNT f = u32_sub (fifo_size f) 1 then fifo_incr ok f else Ret f) (\<lambda>f.
       bindO (arr_set (fifo_data f) (fifo_end f) data) (\<lambda>d.
         if fifo_size f = 0 then Undef
         else Ret (f\<lparr>fifo_data := d, fifo_end := u32 (fifo_end f + 1) mod fifo_size f\<rparr>)))"

definition fifo_pop :: "bool \<Rightarrow> 'a fifo_list option \<Rightarrow> ('a \<times> 'a fifo_list) outcome" where
  "fifo_pop ok f =
     (case f of None \<Rightarrow> Err ENOENT
      | Some f \<Rightarrow>
        if fifo_start f = fifo_end f then Err ENOENT
        else bindO (arr_get (fifo_data f) (fifo_start f)) (\<lambda>x.
          if fifo_size f = 0 then Undef
          else let f = f\<lparr>fifo_start := u32 (fifo_start f + 1) mod fifo_size f\<rparr> in
            bindO (if FIFO_COUNT f < u32_sub (fifo_size f) 1 div 2 then fifo_decr ok f else Ret f)
              (\<lambda>f. Ret (x, f))))"

definition fifo_peek :: "'a fifo_list option \<Rightarrow> 'a outcome" where
  "fifo_peek f =
     (case f of None \<Rightarrow> Err ENOENT
      | Some f \<Rightarrow> if fifo_start f = fifo_end f then Err ENOENT
                  else arr_get (fifo_data f) (fifo_start f))"

definition fifo_count :: "'a fifo_list \<Rightarrow> nat" where
  "fifo_count f = FIFO_COUNT f"

text \<open>\<open>ssize_t\<close> is taken wider than \<open>unsigned\<close>: the comparison and the sum are signed.\<close>

definition fifo_walk :: "'a fifo_list \<Rightarrow> int \<Rightarrow> ('a \<times> int) outcome" where
  "fifo_walk f pos =
     (if int (fifo_size f) < pos then Err ENOENT
      else if fifo_size f = 0 \<or> int (fifo_start f) + pos < 0 then Undef
      else bindO (arr_get (fifo_data f) (nat (int (fifo_start f) + pos) mod fifo_size f))
             (\<lambda>x. Ret (x, pos + 1)))"

definition fifo_walk_back :: "'a fifo_list \<Rightarrow> int \<Rightarrow> ('a \<times> int) outcome" where
  "fifo_walk_back f pos =
     (if pos < 0 then Err ENOENT
      else if fifo_size f = 0 then Undef
      else bindO (arr_get (fifo_data f) (nat (int (fifo_start f) + pos) mod fifo_size f))
             (\<lambda>x. Ret (x, pos - 1)))"

text \<open>\<open>fifo_find_peek\<close> counts from index 0 of the buffer, not from \<open>fifo_start\<close>.\<close>

fun fifo_find_loop :: "('a \<Rightarrow> bool) \<Rightarrow> 'a arr \<Rightarrow> nat \<Rightarrow> nat \<Rightarrow> nat \<Rightarrow> nat \<Rightarrow> ('a \<times> nat) outcome" where
  "fifo_find_loop is_data p sz i j 0 = Err ENOENT"
| "fifo_find_loop is_data p sz i j (Suc n) =
     bindO (arr_get p i) (\<lambda>x.
       if is_data x then Ret (x, j)
       else if sz = 0 then Undef
       else fifo_find_loop is_data p sz ((i + 1) mod sz) (Suc j) n)"

definition fifo_find_peek :: "'a fifo_list \<Rightarrow> ('a \<Rightarrow> bool) \<Rightarrow> ('a \<times> nat) outcome" where
  "fifo_find_peek f is_data = fifo_find_loop is_data (fifo_data f) (fifo_size f) 0 0 (FIFO_COUNT f)"

definition fifo_num_peek :: "'a fifo_list \<Rightarrow> nat \<Rightarrow> 'a outcome" where
  "fifo_num_peek f num =
     (if FIFO_COUNT f < num then Err ENOENT
      else if fifo_size f = 0 then Undef
      else arr_get (fifo_data f) (u32 (num + fifo_start f) mod fifo_size f))"

text \<open>
  \<open>fifo_num_rem\<close> stores the removed element in \<open>*data\<close> only when it takes the first one;
  the result \<open>None\<close> says that \<open>*data\<close> was left alone.
\<close>

definition fifo_num_rem :: "bool \<Rightarrow> 'a fifo_list \<Rightarrow> nat \<Rightarrow> ('a option \<times> 'a fifo_list) outcome" where
  "fifo_num_rem ok f num =
     (if num = 0 then bindO (fifo_pop ok (Some f)) (\<lambda>(x, f). Ret (Some x, f))
      else if FIFO_COUNT f < num then Err ENOENT
      else if fifo_size f = 0 then Undef
      else let pos = u32 (num + fifo_start f) mod fifo_size f; start = fifo_start f; en = fifo_end f in
        bindO
          (if start < pos
           then bindO (arr_copy (fifo_data f) (start + 1) (fifo_data f) start (pos - start)) (\<lambda>d.
             Ret (f\<lparr>fifo_data := d, fifo_start := u32 (start + 1)\<rparr>))
           else bindO (arr_copy (fifo_data f) pos (fifo_data f) (pos + 1) (u32_sub en pos)) (\<lambda>d.
             Ret (f\<lparr>fifo_data := d, fifo_end := u32_sub en 1\<rparr>)))
          (\<lambda>f. bindO (if FIFO_COUNT f < fifo_size f div 2 then fifo_decr ok f else Ret f)
            (\<lambda>f. Ret (None, f))))"

text \<open>
  \<open>fifo_find_rem\<close> passes \<open>data\<close> to both calls, so what the search found stays there.
\<close>

definition fifo_find_rem :: "bool \<Rightarrow> 'a fifo_list \<Rightarrow> ('a \<Rightarrow> bool) \<Rightarrow> ('a \<times> nat \<times> 'a fifo_list) outcome" where
  "fifo_find_rem ok f is_data =
     bindO (fifo_find_peek f is_data) (\<lambda>(x, n).
       bindO (fifo_num_rem ok f n) (\<lambda>(y, f'). Ret (case y of None \<Rightarrow> x | Some y \<Rightarrow> y, n, f')))"

section \<open>Buffers that do not wrap\<close>

definition fifo_elems :: "'a fifo_list \<Rightarrow> 'a list" where
  "fifo_elems f = map the (take (fifo_end f - fifo_start f) (drop (fifo_start f) (fifo_data f)))"

definition fifo_linear :: "'a fifo_list \<Rightarrow> bool" where
  "fifo_linear f \<longleftrightarrow> fifo_start f \<le> fifo_end f \<and> fifo_end f < fifo_size f \<and>
     fifo_size f = length (fifo_data f) \<and> fifo_size f < 2 ^ 32 \<and>
     (\<forall>i. fifo_start f \<le> i \<and> i < fifo_end f \<longrightarrow> fifo_data f ! i \<noteq> None)"

lemma fifo_length_elems: "fifo_linear f \<Longrightarrow> length (fifo_elems f) = fifo_end f - fifo_start f"
  by (auto simp: fifo_linear_def fifo_elems_def)

lemma fifo_count_linear: "fifo_linear f \<Longrightarrow> FIFO_COUNT f = length (fifo_elems f)"
  by (simp add: fifo_linear_def fifo_length_elems FIFO_COUNT_def)

lemma fifo_nth_elems:
  "fifo_linear f \<Longrightarrow> i < fifo_end f - fifo_start f \<Longrightarrow>
   fifo_data f ! (fifo_start f + i) = Some (fifo_elems f ! i)"
  by (auto simp: fifo_linear_def fifo_elems_def)

lemma fifo_linear_eqI:
  assumes "fifo_start g \<le> fifo_end g" "fifo_end g < fifo_size g" "fifo_size g = length (fifo_data g)"
    "fifo_size g < 2 ^ 32" "fifo_end g - fifo_start g = length xs"
    "\<And>i. i < length xs \<Longrightarrow> fifo_data g ! (fifo_start g + i) = Some (xs ! i)"
  shows "fifo_linear g \<and> fifo_elems g = xs"
proof -
  have "fifo_data g ! i \<noteq> None" if "fifo_start g \<le> i" "i < fifo_end g" for i
    using assms(6) [of "i - fifo_start g"] that assms(5) by simp
  moreover have "fifo_elems g = xs"
    using assms by (intro nth_equalityI) (auto simp: fifo_elems_def)
  ultimately show ?thesis using assms by (simp add: fifo_linear_def)
qed

lemma fifo_push_ok:
  assumes lin: "fifo_linear f" and st: "fifo_start f = 0" and room: "fifo_end f < 2 ^ 31 - 1"
  shows "\<exists>f'. fifo_push True f x = Ret f' \<and> fifo_linear f' \<and> fifo_start f' = 0 \<and>
    fifo_elems f' = fifo_elems f @ [x]"
proof -
  define g where "g = (if fifo_end f = fifo_size f - 1
    then f\<lparr>fifo_data := arr_realloc (fifo_data f) (fifo_size f * 2), fifo_size := fifo_size f * 2\<rparr> else f)"
  have len: "length (fifo_elems f) = fifo_end f" using fifo_length_elems [OF lin] st by simp
  have lt: "fifo_end f < fifo_size f" "fifo_size f = length (fifo_data f)" "fifo_size f < 2 ^ 32"
    using lin by (auto simp: fifo_linear_def)
  have g: "fifo_end g = fifo_end f" "fifo_start g = 0" "Suc (fifo_end f) < fifo_size g"
    "fifo_size g = length (fifo_data g)" "fifo_size g < 2 ^ 32"
    using lt st room by (auto simp: g_def)
  have nth: "fifo_data g ! i = Some (fifo_elems f ! i)" if "i < fifo_end f" for i
    using fifo_nth_elems [OF lin, of i] that st lt by (auto simp: g_def arr_realloc_def nth_append)
  let ?f = "g\<lparr>fifo_data := (fifo_data g)[fifo_end f := Some x], fifo_end := Suc (fifo_end f)\<rparr>"
  have "fifo_push True f x = bindO (Ret g) (\<lambda>f.
       bindO (arr_set (fifo_data f) (fifo_end f) x) (\<lambda>d.
         if fifo_size f = 0 then Undef
         else Ret (f\<lparr>fifo_data := d, fifo_end := u32 (fifo_end f + 1) mod fifo_size f\<rparr>)))"
    using st lt room unfolding fifo_push_def
    by (intro arg_cong [where f = "\<lambda>m. bindO m _"])
      (auto simp: FIFO_COUNT_def fifo_incr_def Let_def g_def u32_sub_def u32_id)
  then have "fifo_push True f x = Ret ?f"
    using g by (cases "fifo_data g") (simp_all add: arr_set_def u32_id)
  moreover have "fifo_linear ?f \<and> fifo_elems ?f = fifo_elems f @ [x]"
    using g nth len by (intro fifo_linear_eqI) (auto simp: nth_append less_Suc_eq)
  ultimately show ?thesis using g by auto
qed

lemma fifo_decr_ok:
  assumes lin: "fifo_linear f" and "fifo_end f - fifo_start f < (fifo_size f - 1) div 2"
  shows "\<exists>f'. fifo_decr ok f = Ret f' \<and> fifo_linear f' \<and> fifo_elems f' = fifo_elems f"
proof (cases "fifo_size f = FIFO_CHUNK \<or> \<not> ok")
  case True
  then show ?thesis using lin by (auto simp: fifo_decr_def Let_def)
next
  case False
  let ?s = "fifo_start f" and ?e = "fifo_end f" and ?n = "fifo_size f div 2"
  have lt: "?s \<le> ?e" "?e < fifo_size f" "fifo_size f = length (fifo_data f)" "fifo_size f < 2 ^ 32"
    using lin by (auto simp: fifo_linear_def)
  define d where "d = (if ?s < ?e then take (?e - ?s) (drop ?s (fifo_data f)) @ drop (?e - ?s) (arr_alloc ?n)
    else arr_alloc ?n)"
  let ?f = "f\<lparr>fifo_data := d, fifo_start := 0, fifo_end := ?e - ?s, fifo_size := ?n\<rparr>"
  have "fifo_decr ok f = Ret ?f"
    using False lt assms(2) by (auto simp: fifo_decr_def Let_def arr_copy_def FIFO_COUNT_def d_def)
  moreover have "fifo_linear ?f \<and> fifo_elems ?f = fifo_elems f"
    using lt assms(2) fifo_nth_elems [OF lin] fifo_length_elems [OF lin]
    by (intro fifo_linear_eqI) (auto simp: d_def nth_append)
  ultimately show ?thesis by blast
qed

lemma fifo_pop_ok:
  assumes lin: "fifo_linear f" and ne: "fifo_elems f \<noteq> []"
  shows "\<exists>f'. fifo_pop ok (Some f) = Ret (hd (fifo_elems f), f') \<and> fifo_linear f' \<and>
    fifo_elems f' = tl (fifo_elems f)"
proof -
  have len: "length (fifo_elems f) = fifo_end f - fifo_start f" by (rule fifo_length_elems [OF lin])
  have "0 < length (fifo_elems f)" using ne by simp
  then have lt: "fifo_start f < fifo_end f" "fifo_end f < fifo_size f" "fifo_size f = length (fifo_data f)"
    "fifo_size f < 2 ^ 32"
    using lin unfolding len by (simp_all add: fifo_linear_def)
  let ?g = "f\<lparr>fifo_start := Suc (fifo_start f)\<rparr>"
  have g: "fifo_linear ?g \<and> fifo_elems ?g = tl (fifo_elems f)"
    using lt len fifo_nth_elems [OF lin]
    by (intro fifo_linear_eqI) (auto simp: nth_tl simp flip: add_Suc_right)
  have get: "arr_get (fifo_data f) (fifo_start f) = Ret (hd (fifo_elems f))"
    using fifo_nth_elems [OF lin, of 0] lt ne by (simp add: arr_get_Ret hd_conv_nth)
  have cnt: "FIFO_COUNT ?g = fifo_end f - Suc (fifo_start f)" using lt by (simp add: FIFO_COUNT_def)
  define m where "m = (if FIFO_COUNT ?g < u32_sub (fifo_size f) 1 div 2 then fifo_decr ok ?g else Ret ?g)"
  have "fifo_pop ok (Some f) = bindO m (\<lambda>f'. Ret (hd (fifo_elems f), f'))"
    using lt get by (cases "fifo_data f") (simp_all add: fifo_pop_def Let_def u32_id m_def)
  moreover have "\<exists>f'. m = Ret f' \<and> fifo_linear f' \<and> fifo_elems f' = tl (fifo_elems f)"
    using fifo_decr_ok [of ?g ok] g cnt lt by (auto simp: m_def u32_sub_def)
  ultimately show ?thesis by auto
qed

section \<open>The fifo as a container that is filled and then drained\<close>

text \<open>How \<open>sp_sync_dir\<close> uses its list of directories: all pushes come before the first pop.\<close>

interpretation fifo: phase_container
  "\<lambda>f. fifo_linear f \<and> fifo_start f = 0" fifo_linear fifo_elems "\<lambda>xs x. xs @ [x]" "2 ^ 31 - 1"
  "fifo_push True" "\<lambda>f. fifo_pop ok (Some f)" for ok
proof unfold_locales
  fix f :: "'a fifo_list" and x
  assume f: "fifo_linear f \<and> fifo_start f = 0" "length (fifo_elems f) < 2 ^ 31 - 1"
  then show "\<exists>f'. fifo_push True f x = Ret f' \<and> (fifo_linear f' \<and> fifo_start f' = 0) \<and>
      fifo_elems f' = fifo_elems f @ [x]"
    using fifo_push_ok [of f x] fifo_length_elems [of f] by auto
next
  fix f :: "'a fifo_list"
  assume "fifo_linear f" "fifo_elems f = []"
  then show "fifo_pop ok (Some f) = Err ENOENT"
    using fifo_length_elems [of f] by (auto simp: fifo_pop_def fifo_linear_def)
next
  fix f :: "'a fifo_list"
  assume "fifo_linear f" "fifo_elems f \<noteq> []"
  then show "\<exists>f'. fifo_pop ok (Some f) = Ret (hd (fifo_elems f), f') \<and> fifo_linear f' \<and>
      fifo_elems f' = tl (fifo_elems f)"
    by (rule fifo_pop_ok)
qed simp_all

lemma foldl_snoc: "foldl (\<lambda>xs x. xs @ [x]) zs xs = zs @ xs"
  by (induction xs arbitrary: zs) auto

lemma fifo_init_ok:
  "fifo_init ee True True = Ret f \<Longrightarrow> fifo_linear f \<and> fifo_start f = 0 \<and> fifo_elems f = []"
  by (auto simp: fifo_init_def FIFO_CHUNK_def fifo_linear_def fifo_elems_def)

section \<open>Properties\<close>

text \<open>
  C10. Pushing the elements of any list into a fresh fifo, with as many doublings of the
  buffer as it takes, and then popping until \<open>ENOENT\<close>, with as many halvings as the pops
  cause, yields the list in its order; whether the halving \<open>malloc\<close> succeeds does not matter.
\<close>

theorem fifo_fill_drain:
  assumes "fifo_init ee True True = Ret f" "length xs < 2 ^ 31"
  shows "\<exists>f'. foldO (fifo_push True) f xs = Ret f' \<and>
    drainO (Suc (length xs)) (\<lambda>f. fifo_pop ok (Some f)) f' = Ret xs"
  using fifo.fill_then_drain [of f xs ok] fifo_init_ok [OF assms(1)] assms(2)
  by (simp add: foldl_snoc)

theorem fifo_fill_drain_witness:
  "\<exists>f'. foldO (fifo_push True) \<lparr>fifo_start = 0, fifo_end = 0, fifo_size = 20, fifo_data = arr_alloc 20\<rparr> [1..<50] = Ret f' \<and>
     drainO (Suc (length [1..<50])) (\<lambda>f. fifo_pop True (Some f)) f' = Ret [1..<50]"
  by (rule fifo_fill_drain [of False]) (simp_all add: fifo_init_def FIFO_CHUNK_def)

text \<open>
  Interleaved use loses elements: after 19 pushes, two pops and three more pushes the
  buffer has wrapped, the element count is computed as \<open>size - (start + end)\<close>, the buffer is
  not enlarged, and the fifo reports itself empty although 20 elements are in it.
\<close>

theorem fifo_wrap_loses_elements:
  "bindO (fifo_init False True True) (\<lambda>f. bindO (foldO (fifo_push True) f [1..<20]) (\<lambda>f.
     bindO (fifo_pop True (Some f)) (\<lambda>(_, f). bindO (fifo_pop True (Some f)) (\<lambda>(_, f).
       bindO (foldO (fifo_push True) f [20, 21, 22::nat]) (\<lambda>f. Ret (fifo_count f, fifo_peek (Some f)))))))
   = Ret (0, Err ENOENT)"
  by code_simp

end
