(* ===== verification/Stack.thy ===== *)
theory Stack
  imports Fifo
begin

text \<open>
  The stack of container.c (\<open>struct stack_list\<close>, lines 657-781). \<open>stack_decr\<close> shrinks the
  allocation and leaves \<open>stack_size\<close> as it was, so the stack is sound as long as all pushes
  come before the first pop.
\<close>

section \<open>Model\<close>

record 'a stack_list =
  stack_start :: nat
  stack_end :: nat
  stack_size :: nat
  stack_data :: "'a arr"

definition STACK_CHUNK :: nat where
  "STACK_CHUNK = 20"

definition stack_incr :: "bool \<Rightarrow> 'a stack_list \<Rightarrow> 'a stack_list outcome" where
  "stack_incr ok s =
     (let size = u32 (stack_size s * 2) in
      if \<not> ok then Err ENOMEM
      else Ret (s\<lparr>stack_data := arr_realloc (stack_data s) size, stack_size := size\<rparr>))"

definition stack_decr :: "bool \<Rightarrow> 'a stack_list \<Rightarrow> 'a stack_list" where
  "stack_decr ok s =
     (if stack_size s = STACK_CHUNK then s
      else let size = stack_size s div 2 in
        if \<not> ok then s else s\<lparr>stack_data := arr_realloc (stack_data s) size\<rparr>)"

definition stack_init :: "bool \<Rightarrow> bool \<Rightarrow> bool \<Rightarrow> 'a stack_list outcome" where
  "stack_init container_err_exit ok1 ok2 =
     (if \<not> ok1 then alloc_fail container_err_exit
      else if \<not> ok2 then alloc_fail container_err_exit
      else Ret \<lparr>stack_start = 0, stack_end = 0, stack_size = STACK_CHUNK,
                stack_data = arr_alloc STACK_CHUNK\<rparr>)"

text \<open>
  The loop of \<open>stack_free\<close> starts at \<open>stack_end\<close> and counts upwards, so a non-empty stack is
  read behind its last element until the array ends; with no \<open>free_fun\<close> it never ends.
\<close>

function stack_free_loop :: "'a arr \<Rightarrow> nat \<Rightarrow> 'a list outcome" where
  "stack_free_loop p i =
     (if i = 0 then Ret []
      else if i < length p
      then bindO (arr_get p i) (\<lambda>x. bindO (stack_free_loop p (Suc i)) (\<lambda>xs. Ret (x # xs)))
      else Undef)"
  by pat_completeness auto
termination
  by (relation "measure (\<lambda>(p, i). length p - i)") auto

declare stack_free_loop.simps [simp del]

definition stack_free :: "'a stack_list \<Rightarrow> bool \<Rightarrow> 'a list outcome" where
  "stack_free s free_fun_given =
     (if free_fun_given then stack_free_loop (stack_data s) (stack_end s)
      else if 0 < stack_end s then Undef else Ret [])"

definition stack_push :: "bool \<Rightarrow> 'a stack_list \<Rightarrow> 'a \<Rightarrow> 'a stack_list outcome" where
  "stack_push ok s data =
     bindO (if stack_size s = stack_end s then stack_incr ok s else Ret s) (\<lambda>s.
       bindO (arr_set (stack_data s) (stack_end s) data) (\<lambda>d.
         Ret (s\<lparr>stack_data := d, stack_end := u32 (stack_end s + 1)\<rparr>)))"

definition stack_pop :: "bool \<Rightarrow> 'a stack_list option \<Rightarrow> ('a \<times> 'a stack_list) outcome" where
  "stack_pop ok s =
     (case s of None \<Rightarrow> Err ENOENT
      | Some s \<Rightarrow>
        if stack_end s = 0 then Err ENOENT
        else let s = s\<lparr>stack_end := stack_end s - 1\<rparr> in
          bindO (arr_get (stack_data s) (stack_end s)) (\<lambda>x.
            Ret (x, if stack_end s < stack_size s div 2 then stack_decr ok s else s)))"

definition stack_peek :: "'a stack_list option \<Rightarrow> 'a outcome" where
  "stack_peek s =
     (case s of None \<Rightarrow> Err ENOENT
      | Some s \<Rightarrow> if stack_end s = 0 then Err ENOENT else arr_get (stack_data s) (stack_end s - 1))"

definition stack_count :: "'a stack_list \<Rightarrow> nat" where
  "stack_count s = stack_end s"

text \<open>The walks cast the stack to a fifo: the two structures have the same layout.\<close>

definition stack_as_fifo :: "'a stack_list \<Rightarrow> 'a fifo_list" where
  "stack_as_fifo s = \<lparr>fifo_start = stack_start s, fifo_end = stack_end s,
     fifo_size = stack_size s, fifo_data = stack_data s\<rparr>"

definition stack_walk :: "'a stack_list \<Rightarrow> int \<Rightarrow> ('a \<times> int) outcome" where
  "stack_walk s pos = fifo_walk (stack_as_fifo s) pos"

definition stack_walk_back :: "'a stack_list \<Rightarrow> int \<Rightarrow> ('a \<times> int) outcome" where
  "stack_walk_back s pos = fifo_walk_back (stack_as_fifo s) pos"

section \<open>The two phases\<close>

definition stack_elems :: "'a stack_list \<Rightarrow> 'a list" where
  "stack_elems s = rev (map the (take (stack_end s) (stack_data s)))"

definition stack_draining :: "'a stack_list \<Rightarrow> bool" where
  "stack_draining s \<longleftrightarrow> stack_end s \<le> length (stack_data s) \<and>
     None \<notin> set (take (stack_end s) (stack_data s))"

definition stack_filling :: "'a stack_list \<Rightarrow> bool" where
  "stack_filling s \<longleftrightarrow> stack_draining s \<and> stack_size s = length (stack_data s) \<and>
     0 < stack_size s \<and> stack_size s < 2 ^ 32"

lemma stack_draining_front:
  assumes "stack_draining s"
  obtains rest where "stack_data s = map Some (rev (stack_elems s)) @ rest"
    "length (stack_elems s) = stack_end s"
proof -
  have "\<forall>c \<in> set (take (stack_end s) (stack_data s)). Some (the c) = c"
    using assms unfolding stack_draining_def by (metis option.collapse)
  then have "map Some (rev (stack_elems s)) = take (stack_end s) (stack_data s)"
    by (simp add: stack_elems_def map_idI)
  moreover have "length (stack_elems s) = stack_end s"
    using assms by (simp add: stack_elems_def stack_draining_def)
  ultimately show thesis
    using that [of "drop (stack_end s) (stack_data s)"] by simp
qed

lemma stack_front_elems:
  "stack_data s = map Some (rev xs) @ rest \<Longrightarrow> stack_end s = length xs \<Longrightarrow>
   stack_draining s \<and> stack_elems s = xs"
  by (auto simp: stack_draining_def stack_elems_def)

lemma stack_push_ok:
  assumes fill: "stack_filling s" and room: "length (stack_elems s) < 2 ^ 31"
  shows "\<exists>s'. stack_push True s x = Ret s' \<and> stack_filling s' \<and> stack_elems s' = x # stack_elems s"
proof -
  obtain rest where d: "stack_data s = map Some (rev (stack_elems s)) @ rest"
    and len: "length (stack_elems s) = stack_end s"
    using stack_draining_front fill unfolding stack_filling_def by blast
  have sz: "stack_size s = stack_end s + length rest" "0 < stack_size s" "stack_size s < 2 ^ 32"
    using fill d len by (auto simp: stack_filling_def)
  define g where "g = (if rest = []
    then s\<lparr>stack_data := stack_data s @ replicate (stack_size s) None, stack_size := stack_size s * 2\<rparr> else s)"
  have "(if stack_size s = stack_end s then stack_incr True s else Ret s) = Ret g"
    using sz room len d by (simp add: g_def stack_incr_def u32_id arr_realloc_def)
  then have push: "stack_push True s x = bindO (arr_set (stack_data g) (stack_end s) x) (\<lambda>d.
      Ret (g\<lparr>stack_data := d, stack_end := u32 (stack_end s + 1)\<rparr>))"
    by (auto simp: stack_push_def g_def)
  obtain c rest' where g: "stack_data g = map Some (rev (stack_elems s)) @ c # rest'"
    "stack_size g = length (stack_data g)" "0 < stack_size g" "stack_size g < 2 ^ 32"
  proof (cases rest)
    case Nil
    then have "stack_data g = map Some (rev (stack_elems s)) @ None # replicate (stack_end s - 1) None"
      using d sz by (cases "stack_end s") (simp_all add: g_def)
    then show thesis by (rule that) (use Nil sz len room d in \<open>simp_all add: g_def\<close>)
  next
    case (Cons c rest')
    then show thesis using that [of c rest'] d sz len by (simp add: g_def)
  qed
  let ?s = "g\<lparr>stack_data := map Some (rev (x # stack_elems s)) @ rest', stack_end := Suc (stack_end s)\<rparr>"
  have "stack_push True s x = Ret ?s"
    using push g len room by (simp add: arr_set_def list_update_append u32_id)
  moreover have "stack_draining ?s \<and> stack_elems ?s = x # stack_elems s"
    using len by (intro stack_front_elems) auto
  ultimately show ?thesis using g by (auto simp: stack_filling_def)
qed

lemma stack_pop_ok:
  assumes dr: "stack_draining s" and half: "stack_size s div 2 \<le> length (stack_data s)"
    and ne: "stack_elems s \<noteq> []"
  shows "\<exists>s'. stack_pop ok (Some s) = Ret (hd (stack_elems s), s') \<and> stack_draining s' \<and>
    stack_size s' div 2 \<le> length (stack_data s') \<and> stack_elems s' = tl (stack_elems s)"
proof -
  obtain rest where d: "stack_data s = map Some (rev (stack_elems s)) @ rest"
    and len: "length (stack_elems s) = stack_end s"
    using stack_draining_front [OF dr] .
  obtain x xs where xs: "stack_elems s = x # xs" using ne by (cases "stack_elems s") auto
  let ?g = "s\<lparr>stack_end := length xs\<rparr>"
  let ?s = "if length xs < stack_size s div 2 then stack_decr ok ?g else ?g"
  have pop: "stack_pop ok (Some s) = Ret (x, ?s)"
    using d len [symmetric] xs by (simp add: stack_pop_def arr_get_def nth_append Let_def)
  have "\<exists>rest'. stack_data ?s = map Some (rev xs) @ rest'"
    using d xs by (auto simp: stack_decr_def arr_realloc_def Let_def)
  then have "stack_draining ?s \<and> stack_elems ?s = xs"
    by (elim exE) (rule stack_front_elems, auto simp: stack_decr_def Let_def)
  moreover have "stack_size ?s div 2 \<le> length (stack_data ?s)"
    using half by (auto simp: stack_decr_def Let_def)
  ultimately show ?thesis using pop xs by auto
qed

interpretation stack: phase_container
  stack_filling "\<lambda>s. stack_draining s \<and> stack_size s div 2 \<le> length (stack_data s)"
  stack_elems "\<lambda>xs x. x # xs" "2 ^ 31" "stack_push True" "\<lambda>s. stack_pop ok (Some s)" for ok
proof unfold_locales
  show "\<exists>s'. stack_push True s x = Ret s' \<and> stack_filling s' \<and> stack_elems s' = x # stack_elems s"
    if "stack_filling s" "length (stack_elems s) < 2 ^ 31" for s :: "'a stack_list" and x
    using that by (rule stack_push_ok)
next
  fix s :: "'a stack_list"
  assume "stack_draining s \<and> stack_size s div 2 \<le> length (stack_data s)" "stack_elems s = []"
  then show "stack_pop ok (Some s) = Err ENOENT"
    by (auto simp: stack_pop_def stack_elems_def stack_draining_def)
qed (use stack_pop_ok in \<open>auto simp: stack_filling_def\<close>)

lemma stack_init_ok: "stack_init ee True True = Ret s \<Longrightarrow> stack_filling s \<and> stack_elems s = []"
  by (auto simp: stack_init_def STACK_CHUNK_def stack_filling_def stack_draining_def stack_elems_def)

section \<open>Properties\<close>

text \<open>
  Pushing a list into a fresh stack and then popping until \<open>ENOENT\<close> yields the list
  reversed, with no access outside the array.
\<close>

theorem stack_fill_drain:
  assumes "stack_init ee True True = Ret s" "length xs \<le> 2 ^ 31"
  shows "\<exists>s'. foldO (stack_push True) s xs = Ret s' \<and>
    drainO (Suc (length xs)) (\<lambda>s. stack_pop ok (Some s)) s' = Ret (rev xs)"
  using stack.fill_then_drain [of s xs ok] stack_init_ok [OF assms(1)] assms(2)
  by (simp add: foldl_conv_fold fold_Cons_rev)

theorem stack_fill_drain_witness:
  "\<exists>s'. foldO (stack_push True) \<lparr>stack_start = 0, stack_end = 0, stack_size = 20, stack_data = arr_alloc 20\<rparr> [1..<30] = Ret s' \<and>
     drainO (Suc (length [1..<30])) (\<lambda>s. stack_pop True (Some s)) s' = Ret (rev [1..<30])"
  by (rule stack_fill_drain [of False]) (simp_all add: stack_init_def STACK_CHUNK_def)

text \<open>
  After a pop has shrunk the array to \<open>stack_size / 2\<close> cells, a push onto a stack with that
  many elements writes behind the array, because \<open>stack_size\<close> still says there is room.
\<close>

theorem stack_push_after_shrink:
  assumes "stack_size s \<noteq> STACK_CHUNK" "1 < stack_size s" "stack_size s < 2 ^ 32"
    "stack_end s = stack_size s div 2" "stack_data s = map Some xs @ rest" "length xs = stack_end s"
  shows "\<exists>x s1 s2. stack_pop True (Some s) = Ret (x, s1) \<and> stack_push ok s1 x = Ret s2 \<and>
    stack_push ok s2 x = Undef"
proof -
  obtain n where n: "stack_size s div 2 = Suc n" "stack_end s = Suc n" "length xs = Suc n" "Suc n < 2 ^ 32"
    using assms by (cases "stack_size s div 2") auto
  let ?s1 = "s\<lparr>stack_end := n, stack_data := map Some xs\<rparr>"
  let ?s2 = "?s1\<lparr>stack_end := Suc n, stack_data := map Some (xs[n := xs ! n])\<rparr>"
  have "stack_pop True (Some s) = Ret (xs ! n, ?s1)"
    using n assms by (simp add: stack_pop_def stack_decr_def arr_get_def arr_realloc_def nth_append)
  moreover have "stack_push ok ?s1 (xs ! n) = Ret ?s2"
    using n by (auto simp: stack_push_def arr_set_def u32_def simp flip: map_update)
  moreover have "stack_push ok ?s2 (xs ! n) = Undef"
    using n by (auto simp: stack_push_def arr_set_def)
  ultimately show ?thesis by blast
qed

theorem stack_push_after_shrink_witness:
  "\<exists>x s1 s2. stack_pop True (Some \<lparr>stack_start = 0, stack_end = 20, stack_size = 40,
       stack_data = map Some [1..<21] @ replicate 20 None\<rparr>) = Ret (x, s1) \<and>
     stack_push True s1 x = Ret s2 \<and> stack_push True s2 x = Undef"
  by (rule stack_push_after_shrink [where xs = "[1..<21]"]) (simp_all add: STACK_CHUNK_def)

end
