(* ===== verification/Patricia.thy ===== *)
theory Patricia
  imports Stack "HOL-Library.Word"
begin

text \<open>
  The patricia tree of container.c (782-1316): a trie on the bits of the keys, whose nodes have two legs,
  each a leaf or a node. Nodes live in a memory of cells that \<open>malloc\<close> extends and \<open>free\<close> empties. A key is
  what can be read behind its pointer, with the length that is given beside it.
\<close>

section \<open>Keys\<close>

type_synonym key_mem = "8 word list"

definition written_val :: "'a option \<Rightarrow> 'a outcome" where
  "written_val x = (case x of Some v \<Rightarrow> Ret v | None \<Rightarrow> Undef)"

definition key_byte :: "key_mem \<Rightarrow> nat \<Rightarrow> 8 word outcome" where
  "key_byte k i = (if i < length k then Ret (k ! i) else Undef)"

definition bit_is_set :: "nat \<Rightarrow> key_mem \<Rightarrow> bool outcome" where
  "bit_is_set bit_nr bit_field = bindO (key_byte bit_field (bit_nr div 8)) (\<lambda>b. Ret (bit b (bit_nr mod 8)))"

text \<open>\<open>ffs\<close> of a byte: the number of its lowest bit that is set, from 1; 0 if there is none.\<close>

definition ffs :: "8 word \<Rightarrow> int" where
  "ffs b = (case List.find (\<lambda>i. bit b i) [0..<8] of Some i \<Rightarrow> int i + 1 | None \<Rightarrow> 0)"

definition int_of_size :: "nat \<Rightarrow> int" where
  "int_of_size l = (int l + 2 ^ 31) mod 2 ^ 32 - 2 ^ 31"

text \<open>The pointers are the bytes from there on; \<open>[0]\<close> is the variable \<open>zeroes\<close>.\<close>

function lowest_diff_loop :: "key_mem \<Rightarrow> int \<Rightarrow> key_mem \<Rightarrow> int \<Rightarrow> int outcome" where
  "lowest_diff_loop n1 sl1 n2 sl2 =
     (if sl1 < 0 \<and> sl2 < 0 then Exit 2
      else bindO (key_byte n1 0) (\<lambda>a. bindO (key_byte n2 0) (\<lambda>b.
        let diff_bit = ffs (xor a b) - 1 in
        if 0 \<le> diff_bit then Ret diff_bit
        else lowest_diff_loop
          (if 0 \<le> sl1 then tl n1 else [0]) (if 0 \<le> sl1 then sl1 - 1 else - 1)
          (if 0 \<le> sl2 then tl n2 else [0]) (if 0 \<le> sl2 then sl2 - 1 else - 1))))"
  by pat_completeness auto
termination by (relation "measure (\<lambda>(n1, sl1, n2, sl2). nat (sl1 + 1) + nat (sl2 + 1))") auto

declare lowest_diff_loop.simps [simp del]

definition lowest_diff_bit :: "key_mem \<Rightarrow> nat \<Rightarrow> key_mem \<Rightarrow> nat \<Rightarrow> int outcome" where
  "lowest_diff_bit n1 l1 n2 l2 =
     (let sl1 = int_of_size l1; sl2 = int_of_size l2 in
      lowest_diff_loop (if sl1 = 0 then [0] else n1) (if sl1 = 0 then - 1 else sl1)
        (if sl2 = 0 then [0] else n2) (if sl2 = 0 then - 1 else sl2))"

function keys_match_loop :: "key_mem \<Rightarrow> nat \<Rightarrow> key_mem \<Rightarrow> nat \<Rightarrow> bool outcome" where
  "keys_match_loop k1 l1 k2 l2 =
     (if l1 = 0 \<and> l2 = 0 then Ret True
      else bindO (key_byte k1 0) (\<lambda>a. bindO (key_byte k2 0) (\<lambda>b.
        if a \<noteq> b then Ret False
        else keys_match_loop (if l1 \<noteq> 0 then tl k1 else [0]) (l1 - 1) (if l2 \<noteq> 0 then tl k2 else [0]) (l2 - 1))))"
  by pat_completeness auto
termination by (relation "measure (\<lambda>(k1, l1, k2, l2). l1 + l2)") auto

declare keys_match_loop.simps [simp del]

definition pat_keys_match :: "key_mem \<Rightarrow> nat \<Rightarrow> key_mem \<Rightarrow> nat \<Rightarrow> bool outcome" where
  "pat_keys_match k1 l1 k2 l2 = keys_match_loop (if l1 = 0 then [0] else k1) l1 (if l1 \<noteq> 0 \<and> l2 = 0 then [0] else k2) l2"

section \<open>Nodes and trees\<close>

text \<open>
  The legs 0 and 1 are \<open>False\<close> and \<open>True\<close>. A field is \<open>None\<close> until it is written; \<open>pat_is_node\<close> is its two
  lowest bits, one per leg.
\<close>

record 'a pat_node_s =
  n_bit :: "nat option"
  n_is_node :: "bool \<Rightarrow> bool option"
  n_key :: "bool \<Rightarrow> key_mem option"
  n_key_len :: "bool \<Rightarrow> nat option"
  n_node :: "bool \<Rightarrow> nat option"
  n_data :: "bool \<Rightarrow> 'a option"

text \<open>The stack of a walk; \<open>Freed_stack\<close> is a pointer to one that was freed.\<close>

datatype walk_stack = No_stack | Live "nat option stack_list" | Freed_stack

record 'a pat_tree =
  pat_keys :: nat
  pat_root :: "nat option"
  pat_key :: "key_mem option"
  pat_key_len :: nat
  pat_key_len_max :: nat
  pat_data :: "'a option"
  pat_walk_stack :: walk_stack
  pat_walk_did_forw :: bool
  pat_mem :: "'a pat_node_s option list"

text \<open>A call returns the tree, which it may have changed, and an error or its result.\<close>

type_synonym ('a, 'r) pat_res = "('a pat_tree \<times> (errno + 'r)) outcome"

text \<open>What \<open>malloc\<close> leaves in \<open>pat_bit\<close> is a parameter: \<open>None\<close> if it must not be read.\<close>

definition fresh_node :: "nat option \<Rightarrow> 'a pat_node_s" where
  "fresh_node fresh = \<lparr>n_bit = fresh, n_is_node = (\<lambda>_. None), n_key = (\<lambda>_. None), n_key_len = (\<lambda>_. None),
     n_node = (\<lambda>_. None), n_data = (\<lambda>_. None)\<rparr>"

definition pat_deref :: "'a pat_tree \<Rightarrow> nat option \<Rightarrow> 'a pat_node_s outcome" where
  "pat_deref t p =
     (case p of None \<Rightarrow> Undef | Some i \<Rightarrow> if i < length (pat_mem t) then written_val (pat_mem t ! i) else Undef)"

definition pat_store :: "nat \<Rightarrow> 'a pat_node_s \<Rightarrow> 'a pat_tree \<Rightarrow> 'a pat_tree" where
  "pat_store i n t = t\<lparr>pat_mem := (pat_mem t)[i := Some n]\<rparr>"

definition PAT_IS_NODE :: "'a pat_node_s \<Rightarrow> bool \<Rightarrow> bool outcome" where
  "PAT_IS_NODE n leg = written_val (n_is_node n leg)"

definition PAT_IS_LEAF :: "'a pat_node_s \<Rightarrow> bool \<Rightarrow> bool outcome" where
  "PAT_IS_LEAF n leg = bindO (PAT_IS_NODE n leg) (\<lambda>b. Ret (\<not> b))"

definition pat_make_node :: "bool \<Rightarrow> nat \<Rightarrow> 'a pat_node_s \<Rightarrow> 'a pat_node_s" where
  "pat_make_node leg child n =
     n\<lparr>n_node := (n_node n)(leg := Some child), n_is_node := (n_is_node n)(leg := Some True)\<rparr>"

definition pat_make_leaf :: "bool \<Rightarrow> key_mem \<Rightarrow> nat \<Rightarrow> 'a \<Rightarrow> 'a pat_node_s \<Rightarrow> 'a pat_node_s" where
  "pat_make_leaf leg key len data n =
     n\<lparr>n_key := (n_key n)(leg := Some key), n_key_len := (n_key_len n)(leg := Some (len mod 2 ^ 16)),
       n_data := (n_data n)(leg := Some data), n_is_node := (n_is_node n)(leg := Some False)\<rparr>"

definition stop_walk :: "'a pat_tree \<Rightarrow> 'a pat_tree outcome" where
  "stop_walk t =
     (case pat_walk_stack t of No_stack \<Rightarrow> Ret t
      | Live s \<Rightarrow> bindO (stack_free s False) (\<lambda>_. Ret (t\<lparr>pat_walk_stack := Freed_stack\<rparr>))
      | Freed_stack \<Rightarrow> Undef)"

definition pat_init :: "bool \<Rightarrow> bool \<Rightarrow> 'a pat_tree outcome" where
  "pat_init container_err_exit ok =
     (if \<not> ok then alloc_fail container_err_exit
      else Ret \<lparr>pat_keys = 0, pat_root = None, pat_key = None, pat_key_len = 0, pat_key_len_max = 0, pat_data = None,
             pat_walk_stack = No_stack, pat_walk_did_forw = False, pat_mem = []\<rparr>)"

section \<open>Searching\<close>

text \<open>
  The walk down from a node: the node where it ends, the leg of the leaf there, and the nodes passed. Its
  fuel counts nodes, of which there are no more than cells of the memory.
\<close>

fun pat_descend :: "nat \<Rightarrow> key_mem \<Rightarrow> nat option \<Rightarrow> 'a pat_tree \<Rightarrow> (nat \<times> 'a pat_node_s \<times> bool \<times> nat list) outcome" where
  "pat_descend 0 key p t = Undef"
| "pat_descend (Suc n) key p t =
     bindO (pat_deref t p) (\<lambda>nd.
     bindO (written_val (n_bit nd)) (\<lambda>nr.
     bindO (bit_is_set nr key) (\<lambda>bit_set.
     bindO (PAT_IS_LEAF nd bit_set) (\<lambda>leaf.
       if leaf then Ret (the p, nd, bit_set, [the p])
       else bindO (written_val (n_node nd bit_set)) (\<lambda>q.
         bindO (pat_descend n key (Some q) t) (\<lambda>(i, nd', leg, path). Ret (i, nd', leg, the p # path)))))))"

definition leaf_matches :: "'a pat_node_s \<Rightarrow> bool \<Rightarrow> key_mem \<Rightarrow> nat \<Rightarrow> bool outcome" where
  "leaf_matches nd leg key key_len =
     bindO (written_val (n_key nd leg)) (\<lambda>k. bindO (written_val (n_key_len nd leg)) (\<lambda>l. pat_keys_match k l key key_len))"

definition pat_find :: "key_mem \<Rightarrow> nat \<Rightarrow> 'a pat_tree \<Rightarrow> ('a, 'a) pat_res" where
  "pat_find key key_len t =
     (if pat_keys t < 2
      then if pat_keys t = 0 then Ret (t, Inl ENOENT)
        else bindO (written_val (pat_key t)) (\<lambda>k. bindO (pat_keys_match k (pat_key_len t) key key_len) (\<lambda>m.
          if \<not> m then Ret (t, Inl ENOENT) else bindO (written_val (pat_data t)) (\<lambda>d. Ret (t, Inr d))))
      else bindO (pat_descend (length (pat_mem t)) key (pat_root t) t) (\<lambda>(i, nd, leg, path).
        bindO (leaf_matches nd leg key key_len) (\<lambda>m.
          if m then bindO (written_val (n_data nd leg)) (\<lambda>d. Ret (t, Inr d)) else Ret (t, Inl ENOENT))))"

definition pat_count :: "'a pat_tree \<Rightarrow> nat" where
  "pat_count t = pat_keys t"

section \<open>Insertion\<close>

definition pat_ins_few :: "bool \<Rightarrow> bool \<Rightarrow> nat option \<Rightarrow> key_mem \<Rightarrow> nat \<Rightarrow> 'a \<Rightarrow> 'a pat_tree \<Rightarrow> ('a, unit) pat_res" where
  "pat_ins_few container_err_exit ok fresh key key_len data t =
     (if pat_keys t = 1
      then bindO (written_val (pat_key t)) (\<lambda>k. bindO (pat_keys_match k (pat_key_len t) key key_len) (\<lambda>m.
        if m then Ret (t, Inl EEXIST)
        else if \<not> ok then (if container_err_exit then Exit 1 else Ret (t\<lparr>pat_root := None\<rparr>, Inl ENOMEM))
        else bindO (lowest_diff_bit k (pat_key_len t) key key_len) (\<lambda>diff_bit.
          bindO (bit_is_set (nat diff_bit) key) (\<lambda>bit_set.
          bindO (written_val (pat_data t)) (\<lambda>d.
            let root = pat_make_leaf (\<not> bit_set) k (pat_key_len t) d
                  (pat_make_leaf bit_set key key_len data (fresh_node fresh)) in
            Ret (t\<lparr>pat_root := Some (length (pat_mem t)), pat_mem := pat_mem t @ [Some root],
                 pat_keys := 2, pat_key_len_max := 1\<rparr>, Inr ()))))))
      else Ret (t\<lparr>pat_key := Some key, pat_key_len := key_len mod 2 ^ 16, pat_data := Some data,
             pat_keys := 1, pat_key_len_max := 1\<rparr>, Inr ()))"

text \<open>The loop that goes back up the path: the last node, from \<open>j\<close> on, whose bit is not above \<open>diff_bit\<close>.\<close>

fun pat_back_up :: "'a pat_tree \<Rightarrow> nat list \<Rightarrow> int \<Rightarrow> nat \<Rightarrow> nat outcome" where
  "pat_back_up t p_list diff_bit 0 = Ret 0"
| "pat_back_up t p_list diff_bit (Suc j) =
     bindO (pat_deref t (Some (p_list ! Suc j))) (\<lambda>nd. bindO (written_val (n_bit nd)) (\<lambda>b.
       if diff_bit < int b then pat_back_up t p_list diff_bit j else Ret (Suc j)))"

text \<open>The array of the path has \<open>pat_keys\<close> entries.\<close>

definition pat_ins_common :: "bool \<Rightarrow> bool \<Rightarrow> key_mem \<Rightarrow> nat \<Rightarrow> 'a \<Rightarrow> 'a pat_tree \<Rightarrow> ('a, unit) pat_res" where
  "pat_ins_common container_err_exit ok key key_len data t =
     (let t = t\<lparr>pat_key_len_max := pat_keys t mod 2 ^ 16\<rparr> in
      bindO (pat_descend (length (pat_mem t)) key (pat_root t) t) (\<lambda>(i, nd, node_set, p_list).
      if pat_key_len_max t < length p_list then Undef else
      bindO (leaf_matches nd node_set key key_len) (\<lambda>m.
      if m then Ret (t, Inl EEXIST) else
      bindO (written_val (n_key nd node_set)) (\<lambda>k.
      bindO (written_val (n_key_len nd node_set)) (\<lambda>l.
      bindO (lowest_diff_bit k l key key_len) (\<lambda>diff_bit.
      bindO (pat_back_up t p_list diff_bit (length p_list - 1)) (\<lambda>j.
      if \<not> ok then (if container_err_exit then Exit 1 else Ret (t, Inl ENOMEM)) else
      let new = length (pat_mem t); p = (fresh_node None)\<lparr>n_bit := Some (nat diff_bit)\<rparr>; t = t\<lparr>pat_keys := u32 (pat_keys t + 1)\<rparr> in
      bindO (pat_deref t (pat_root t)) (\<lambda>root.
      bindO (written_val (n_bit root)) (\<lambda>root_bit.
      bindO (bit_is_set (nat diff_bit) key) (\<lambda>bit_set.
      if j = 0 \<and> diff_bit < int root_bit
      then Ret (t\<lparr>pat_root := Some new,
          pat_mem := pat_mem t @ [Some (pat_make_leaf bit_set key key_len data (pat_make_node (\<not> bit_set) (the (pat_root t)) p))]\<rparr>, Inr ())
      else bindO (pat_deref t (Some (p_list ! j))) (\<lambda>above.
        bindO (written_val (n_bit above)) (\<lambda>nr.
        bindO (bit_is_set nr key) (\<lambda>node_set.
        bindO (PAT_IS_LEAF above node_set) (\<lambda>leaf.
        bindO (if leaf
            then bindO (written_val (n_key above node_set)) (\<lambda>k. bindO (written_val (n_key_len above node_set)) (\<lambda>l.
              bindO (written_val (n_data above node_set)) (\<lambda>d. Ret (pat_make_leaf (\<not> bit_set) k l d))))
            else bindO (written_val (n_node above node_set)) (\<lambda>q. Ret (pat_make_node (\<not> bit_set) q))) (\<lambda>other.
          let t = pat_store (p_list ! j) (pat_make_node node_set new above) t in
          Ret (t\<lparr>pat_mem := pat_mem t @ [Some (other (pat_make_leaf bit_set key key_len data p))]\<rparr>, Inr ()))))))))))))))))"

definition pat_ins :: "bool \<Rightarrow> bool \<Rightarrow> nat option \<Rightarrow> key_mem \<Rightarrow> nat \<Rightarrow> 'a \<Rightarrow> 'a pat_tree \<Rightarrow> ('a, unit) pat_res" where
  "pat_ins container_err_exit ok fresh key key_len data t =
     bindO (stop_walk t) (\<lambda>t.
       if pat_keys t < 2 then pat_ins_few container_err_exit ok fresh key key_len data t
       else pat_ins_common container_err_exit ok key key_len data t)"

section \<open>Removal\<close>

text \<open>The two legs of a root whose legs are leaves, one after the other.\<close>

fun pat_rem_two :: "bool list \<Rightarrow> key_mem \<Rightarrow> nat \<Rightarrow> 'a pat_tree \<Rightarrow> ('a, 'a) pat_res" where
  "pat_rem_two [] key key_len t = Ret (t, Inl ENOENT)"
| "pat_rem_two (i # is) key key_len t =
     bindO (pat_deref t (pat_root t)) (\<lambda>root.
     bindO (written_val (n_key root i)) (\<lambda>k. bindO (written_val (n_key_len root i)) (\<lambda>l.
     bindO (pat_keys_match key key_len k l) (\<lambda>m.
     if \<not> m then pat_rem_two is key key_len t
     else bindO (written_val (n_key root (\<not> i))) (\<lambda>k'. bindO (written_val (n_key_len root (\<not> i))) (\<lambda>l'.
       bindO (written_val (n_data root (\<not> i))) (\<lambda>d'. bindO (written_val (n_data root i)) (\<lambda>d.
         Ret (t\<lparr>pat_key := Some k', pat_key_len := l', pat_data := Some d', pat_keys := 1,
             pat_mem := (pat_mem t)[the (pat_root t) := None]\<rparr>, Inr d)))))))))"

definition pat_rem_few :: "key_mem \<Rightarrow> nat \<Rightarrow> 'a pat_tree \<Rightarrow> ('a, 'a) pat_res" where
  "pat_rem_few key key_len t =
     (if pat_keys t = 0 then Ret (t, Inl ENOENT)
      else if pat_keys t = 1
      then bindO (written_val (pat_key t)) (\<lambda>k. bindO (pat_keys_match k (pat_key_len t) key key_len) (\<lambda>m.
        if \<not> m then Ret (t, Inl ENOENT)
        else bindO (written_val (pat_data t)) (\<lambda>d. Ret (t\<lparr>pat_keys := 0\<rparr>, Inr d))))
      else pat_rem_two [False, True] key key_len t)"

text \<open>The parent of the node that goes takes over what is on its other leg.\<close>

definition pat_rem_common :: "key_mem \<Rightarrow> nat \<Rightarrow> 'a pat_tree \<Rightarrow> ('a, 'a) pat_res" where
  "pat_rem_common key key_len t =
     bindO (pat_descend (length (pat_mem t)) key (pat_root t) t) (\<lambda>(i, p, bit_set, path).
     bindO (leaf_matches p bit_set key key_len) (\<lambda>m.
     if \<not> m then Ret (t, Inl ENOENT)
     else bindO
       (if length path = 1 then bindO (written_val (n_node p (\<not> bit_set))) (\<lambda>q. Ret (t\<lparr>pat_root := Some q\<rparr>))
        else let last = path ! (length path - 2) in
          bindO (pat_deref t (Some last)) (\<lambda>nl.
          bindO (written_val (n_bit nl)) (\<lambda>nr. bindO (bit_is_set nr key) (\<lambda>last_bit_set.
          bindO (PAT_IS_LEAF p (\<not> bit_set)) (\<lambda>leaf.
          if leaf
          then bindO (written_val (n_key p (\<not> bit_set))) (\<lambda>k. bindO (written_val (n_key_len p (\<not> bit_set))) (\<lambda>l.
            bindO (written_val (n_data p (\<not> bit_set))) (\<lambda>d. Ret (pat_store last (pat_make_leaf last_bit_set k l d nl) t))))
          else bindO (written_val (n_node p (\<not> bit_set))) (\<lambda>q. Ret (pat_store last (pat_make_node last_bit_set q nl) t)))))))
       (\<lambda>t. bindO (written_val (n_data p bit_set)) (\<lambda>d.
         Ret (t\<lparr>pat_mem := (pat_mem t)[i := None], pat_keys := u32_sub (pat_keys t) 1\<rparr>, Inr d)))))"

text \<open>The tree is there: for a \<open>NULL\<close> pointer the function returns \<open>ENOENT\<close> at once.\<close>

definition pat_rem :: "key_mem \<Rightarrow> nat \<Rightarrow> 'a pat_tree \<Rightarrow> ('a, 'a) pat_res" where
  "pat_rem key key_len t =
     bindO (stop_walk t) (\<lambda>t. if pat_keys t < 3 then pat_rem_few key key_len t else pat_rem_common key key_len t)"

section \<open>All elements\<close>

text \<open>What \<open>map_fun\<close> sees, in order; the fuel is the depth of the tree.\<close>

fun pat_map_helper :: "nat \<Rightarrow> 'a pat_tree \<Rightarrow> nat option \<Rightarrow> (key_mem \<times> nat \<times> 'a) list outcome" where
  "pat_map_helper 0 t p = Undef"
| "pat_map_helper (Suc n) t p =
     bindO (pat_deref t p) (\<lambda>nd.
     let leg = (\<lambda>i. bindO (PAT_IS_LEAF nd i) (\<lambda>leaf.
        if leaf
        then bindO (written_val (n_key nd i)) (\<lambda>k. bindO (written_val (n_key_len nd i)) (\<lambda>l.
          bindO (written_val (n_data nd i)) (\<lambda>d. Ret [(k, l, d)])))
        else bindO (written_val (n_node nd i)) (\<lambda>q. pat_map_helper n t (Some q)))) in
     bindO (leg False) (\<lambda>xs. bindO (leg True) (\<lambda>ys. Ret (xs @ ys))))"

definition pat_map :: "'a pat_tree \<Rightarrow> (key_mem \<times> nat \<times> 'a) list outcome" where
  "pat_map t =
     (if pat_keys t = 1
      then bindO (written_val (pat_key t)) (\<lambda>k. bindO (written_val (pat_data t)) (\<lambda>d. Ret [(k, pat_key_len t, d)]))
      else if pat_keys t \<noteq> 0 then pat_map_helper (length (pat_mem t)) t (pat_root t)
      else Ret [])"

text \<open>\<open>pat_free\<close> with both functions: what they get, and the memory of the nodes afterwards. The stack of a walk is not freed.\<close>

fun pat_free_helper :: "nat \<Rightarrow> 'a pat_tree \<Rightarrow> nat option \<Rightarrow> ((key_mem \<times> 'a) list \<times> 'a pat_tree) outcome" where
  "pat_free_helper 0 t p = Undef"
| "pat_free_helper (Suc n) t p =
     (let leg = (\<lambda>i t. bindO (pat_deref t p) (\<lambda>nd. bindO (PAT_IS_LEAF nd i) (\<lambda>leaf.
        if leaf
        then bindO (written_val (n_data nd i)) (\<lambda>d. bindO (written_val (n_key nd i)) (\<lambda>k. Ret ([(k, d)], t)))
        else bindO (written_val (n_node nd i)) (\<lambda>q. pat_free_helper n t (Some q))))) in
      bindO (leg False t) (\<lambda>(xs, t). bindO (leg True t) (\<lambda>(ys, t).
      bindO (pat_deref t p) (\<lambda>_. Ret (xs @ ys, t\<lparr>pat_mem := (pat_mem t)[the p := None]\<rparr>)))))"

definition pat_free :: "'a pat_tree \<Rightarrow> ((key_mem \<times> 'a) list \<times> 'a pat_node_s option list) outcome" where
  "pat_free t =
     (if pat_keys t = 1
      then bindO (written_val (pat_data t)) (\<lambda>d. bindO (written_val (pat_key t)) (\<lambda>k. Ret ([(k, d)], pat_mem t)))
      else if pat_keys t \<noteq> 0
      then bindO (pat_free_helper (length (pat_mem t)) t (pat_root t)) (\<lambda>(xs, t). Ret (xs, pat_mem t))
      else Ret ([], pat_mem t))"

section \<open>Walks\<close>

text \<open>
  A walk goes from one call to the next: the position of the caller and the stack of the tree are its state.
  \<open>ok\<close> says whether the allocations of the stack work.
\<close>

type_synonym 'a walk_res = "('a pat_tree \<times> nat option \<times> (errno + 'a)) outcome"

definition walk_push :: "bool \<Rightarrow> nat option \<Rightarrow> 'a pat_tree \<Rightarrow> ('a pat_tree \<times> bool) outcome" where
  "walk_push ok p t =
     (case pat_walk_stack t of
        Live s \<Rightarrow> (case stack_push ok s p of
            Ret s' \<Rightarrow> Ret (t\<lparr>pat_walk_stack := Live s'\<rparr>, True)
          | Err e \<Rightarrow> Ret (t, False)
          | Exit n \<Rightarrow> Exit n
          | Undef \<Rightarrow> Undef)
      | _ \<Rightarrow> Undef)"

definition walk_pop :: "bool \<Rightarrow> 'a pat_tree \<Rightarrow> ('a pat_tree \<times> nat option option) outcome" where
  "walk_pop ok t =
     (case pat_walk_stack t of
        Live s \<Rightarrow> (case stack_pop ok (Some s) of
            Ret (p, s') \<Rightarrow> Ret (t\<lparr>pat_walk_stack := Live s'\<rparr>, Some p)
          | Err e \<Rightarrow> Ret (t, None)
          | Exit n \<Rightarrow> Exit n
          | Undef \<Rightarrow> Undef)
      | _ \<Rightarrow> Undef)"

definition walk_peek :: "'a pat_tree \<Rightarrow> nat option option outcome" where
  "walk_peek t =
     (case pat_walk_stack t of
        No_stack \<Rightarrow> Ret None
      | Live s \<Rightarrow> (case stack_peek (Some s) of Ret p \<Rightarrow> Ret (Some p) | Err e \<Rightarrow> Ret None | Exit n \<Rightarrow> Exit n | Undef \<Rightarrow> Undef)
      | Freed_stack \<Rightarrow> Undef)"

text \<open>The exit \<open>ret_bad\<close> frees the stack and leaves the pointer to it in the tree.\<close>

definition walk_bad :: "errno \<Rightarrow> nat option \<Rightarrow> 'a pat_tree \<Rightarrow> 'a walk_res" where
  "walk_bad e pos t = bindO (stop_walk t) (\<lambda>t. Ret (t, pos, Inl e))"

fun walk_down :: "nat \<Rightarrow> bool \<Rightarrow> bool \<Rightarrow> nat option \<Rightarrow> nat option \<Rightarrow> 'a pat_tree \<Rightarrow> 'a walk_res" where
  "walk_down 0 ok forw p pos t = Undef"
| "walk_down (Suc n) ok forw p pos t =
     bindO (pat_deref t p) (\<lambda>nd. bindO (PAT_IS_NODE nd forw) (\<lambda>node.
       if node
       then bindO (written_val (n_node nd forw)) (\<lambda>q. bindO (walk_push ok (Some q) t) (\<lambda>(t, pushed).
         if pushed then walk_down n ok forw (Some q) pos t else walk_bad ENOMEM pos t))
       else bindO (written_val (n_data nd forw)) (\<lambda>d. Ret (t\<lparr>pat_walk_did_forw := True\<rparr>, p, Inr d))))"

fun walk_climb :: "nat \<Rightarrow> bool \<Rightarrow> bool \<Rightarrow> nat option \<Rightarrow> nat option \<Rightarrow> 'a \<Rightarrow> 'a pat_tree \<Rightarrow> 'a walk_res" where
  "walk_climb 0 ok back op pos d t = Undef"
| "walk_climb (Suc n) ok back op pos d t =
     bindO (walk_pop ok t) (\<lambda>(t, top).
       case top of None \<Rightarrow> Ret (t, pos, Inr d)
       | Some p \<Rightarrow> bindO (pat_deref t p) (\<lambda>nd. bindO (PAT_IS_LEAF nd back) (\<lambda>leaf.
           bindO (if leaf then Ret True else bindO (written_val (n_node nd back)) (\<lambda>q. Ret (op \<noteq> Some q))) (\<lambda>stay.
           if stay
           then bindO (walk_push ok p t) (\<lambda>(t, pushed). Ret (t, pos, if pushed then Inr d else Inl ENOMEM))
           else walk_climb n ok back p pos d t))))"

text \<open>The fuel counts the two calls that a step down to the other leg takes.\<close>

fun pat_walk_rounds :: "nat \<Rightarrow> bool \<Rightarrow> bool \<Rightarrow> bool \<Rightarrow> nat option \<Rightarrow> 'a pat_tree \<Rightarrow> 'a walk_res" where
  "pat_walk_rounds 0 ee ok forw pos t = Undef"
| "pat_walk_rounds (Suc n) ee ok forw pos t =
     (if pat_keys t = 0 then Ret (t, pos, Inl ENOENT)
      else bindO
        (if pos = None
         then bindO (stop_walk t) (\<lambda>t.
           case stack_init ee ok ok of
             Ret s \<Rightarrow> bindO (walk_push ok (pat_root t) (t\<lparr>pat_walk_stack := Live s\<rparr>)) (\<lambda>(t, pushed).
               if pushed then Ret (Inr (t\<lparr>pat_walk_did_forw := False\<rparr>)) else bindO (stop_walk t) (\<lambda>t. Ret (Inl t)))
           | Err e \<Rightarrow> Ret (Inl t)
           | Exit k \<Rightarrow> Exit k
           | Undef \<Rightarrow> Undef)
         else Ret (Inr t))
        (\<lambda>start. case start of Inl t \<Rightarrow> Ret (t, pos, Inl ENOMEM)
         | Inr t \<Rightarrow> bindO (walk_peek t) (\<lambda>top.
             case top of None \<Rightarrow> walk_bad ENOENT pos t
             | Some p \<Rightarrow>
               if \<not> pat_walk_did_forw t then walk_down (length (pat_mem t)) ok forw p pos t
               else bindO (pat_deref t p) (\<lambda>nd. bindO (PAT_IS_LEAF nd (\<not> forw)) (\<lambda>leaf.
                 if leaf
                 then bindO (written_val (n_data nd (\<not> forw))) (\<lambda>d. bindO (walk_pop ok t) (\<lambda>(t, op).
                   case op of None \<Rightarrow> Ret (t, pos, Inr d)
                   | Some op \<Rightarrow> walk_climb (length (pat_mem t) + 1) ok (\<not> forw) op pos d t))
                 else bindO (written_val (n_node nd (\<not> forw))) (\<lambda>q.
                   bindO (walk_push ok (Some q) (t\<lparr>pat_walk_did_forw := False\<rparr>)) (\<lambda>(t, pushed).
                     if pushed then pat_walk_rounds n ee ok forw pos t else walk_bad ENOMEM pos t)))))))"

definition pat_walk_helper :: "bool \<Rightarrow> bool \<Rightarrow> bool \<Rightarrow> nat option \<Rightarrow> 'a pat_tree \<Rightarrow> 'a walk_res" where
  "pat_walk_helper ee ok forw pos t = pat_walk_rounds 2 ee ok forw pos t"

definition pat_walk :: "bool \<Rightarrow> bool \<Rightarrow> nat option \<Rightarrow> 'a pat_tree \<Rightarrow> 'a walk_res" where
  "pat_walk ee ok pos t = pat_walk_helper ee ok True pos t"

definition pat_walk_back :: "bool \<Rightarrow> bool \<Rightarrow> nat option \<Rightarrow> 'a pat_tree \<Rightarrow> 'a walk_res" where
  "pat_walk_back ee ok pos t = pat_walk_helper ee ok False pos t"

section \<open>Keys that are strings\<close>

text \<open>The functions on keys read one byte behind the shorter key; strings have their terminator there.\<close>

definition cstr_key :: "8 word list \<Rightarrow> bool" where
  "cstr_key s \<longleftrightarrow> 0 \<notin> set s \<and> length s < 2 ^ 16"

lemma keys_match_loop_cstr:
  "0 \<notin> set s \<Longrightarrow> 0 \<notin> set u \<Longrightarrow> keys_match_loop (s @ [0]) (length s) (u @ [0]) (length u) = Ret (s = u)"
proof (induction s arbitrary: u)
  case Nil
  then show ?case by (cases u) (simp_all add: keys_match_loop.simps key_byte_def)
next
  case (Cons a s)
  then show ?case by (cases u) (auto simp: keys_match_loop.simps [of "a # s @ [0]"] key_byte_def)
qed

lemma pat_keys_match_cstr:
  assumes "cstr_key s" "cstr_key u"
  shows "pat_keys_match (s @ [0]) (length s) (u @ [0]) (length u) = Ret (s = u)"
proof -
  have "pat_keys_match (s @ [0]) (length s) (u @ [0]) (length u) = keys_match_loop (s @ [0]) (length s) (u @ [0]) (length u)"
    unfolding pat_keys_match_def by (rule arg_cong2 [where f = "\<lambda>a b. keys_match_loop a (length s) b (length u)"]) auto
  then show ?thesis using keys_match_loop_cstr [of s u] assms by (simp add: cstr_key_def)
qed

text \<open>Without the terminator a key that is the start of the other one makes the comparison read behind it.\<close>

lemma pat_keys_match_reads_past:
  "k \<noteq> [] \<Longrightarrow> pat_keys_match k (length k) (k @ [b]) (length k + 1) = Undef"
proof -
  have "keys_match_loop k (length k) (k @ [b]) (length k + 1) = Undef"
    by (induction k) (simp_all add: keys_match_loop.simps key_byte_def)
  then show "k \<noteq> [] \<Longrightarrow> ?thesis" by (simp add: pat_keys_match_def)
qed

lemma ffs_range: "ffs b \<le> 8 \<and> (ffs b = 0 \<longleftrightarrow> b = 0) \<and> 0 \<le> ffs b"
proof (cases "List.find (\<lambda>i. bit b i) [0..<8]")
  case None
  then have "b = 0" by (auto simp: find_None_iff intro!: bit_word_eqI)
  then show ?thesis using None by (simp add: ffs_def)
next
  case (Some i)
  then have "i < 8 \<and> bit b i" by (auto simp: find_Some_iff)
  then show ?thesis using Some by (auto simp: ffs_def)
qed

lemma ffs_0 [simp]: "ffs 0 = 0"
  using ffs_range [of 0] by simp

lemma lowest_diff_loop_cstr:
  "0 \<notin> set s \<Longrightarrow> 0 \<notin> set u \<Longrightarrow> s \<noteq> u \<Longrightarrow> (sl1 = int (length s) \<or> s = [] \<and> sl1 = - 1) \<Longrightarrow> (sl2 = int (length u) \<or> u = [] \<and> sl2 = - 1) \<Longrightarrow>
   \<exists>d. lowest_diff_loop (s @ [0]) sl1 (u @ [0]) sl2 = Ret d \<and> 0 \<le> d \<and> d < 8"
proof (induction s arbitrary: u sl1 sl2)
  case Nil
  then obtain b us where u: "u = b # us" by (cases u) auto
  then have "b \<noteq> 0" "0 \<le> sl2" using Nil by auto
  then show ?case using Nil u ffs_range [of b]
    by (auto simp: lowest_diff_loop.simps [of "[0]"] key_byte_def Let_def)
next
  case (Cons a s)
  have sl1: "sl1 = int (length s) + 1" using Cons.prems by simp
  show ?case
  proof (cases u)
    case Nil
    then show ?thesis using Cons.prems sl1 ffs_range [of a]
      by (auto simp: lowest_diff_loop.simps [of "a # s @ [0]"] key_byte_def Let_def)
  next
    case (Cons b us)
    show ?thesis
    proof (cases "a = b")
      case True
      have "\<exists>d. lowest_diff_loop (s @ [0]) (int (length s)) (us @ [0]) (int (length us)) = Ret d \<and> 0 \<le> d \<and> d < 8"
        using Cons.IH [of us "int (length s)" "int (length us)"] Cons Cons.prems True by simp
      moreover have "sl2 = int (length us) + 1" using Cons.prems Cons by simp
      ultimately show ?thesis using Cons True sl1
        by (simp add: lowest_diff_loop.simps [of "b # s @ [0]"] key_byte_def Let_def ffs_range)
    next
      case False
      then have "xor a b \<noteq> 0" by (metis xor.right_neutral xor_self_eq xor.assoc)
      then show ?thesis using Cons Cons.prems sl1 ffs_range [of "xor a b"]
        by (auto simp: lowest_diff_loop.simps [of "a # s @ [0]"] key_byte_def Let_def)
    qed
  qed
qed

lemma lowest_diff_bit_cstr:
  assumes "cstr_key s" "cstr_key u" "s \<noteq> u"
  shows "\<exists>d. lowest_diff_bit (s @ [0]) (length s) (u @ [0]) (length u) = Ret d \<and> 0 \<le> d \<and> d < 8"
proof -
  have i: "int_of_size (length x) = int (length x)" if "cstr_key x" for x
    using that by (simp add: int_of_size_def cstr_key_def)
  have "(if x = [] then [0] else x @ [0]) = x @ [0]" for x :: "8 word list" by simp
  then show ?thesis
    using assms lowest_diff_loop_cstr [of s u "if s = [] then - 1 else int (length s)" "if u = [] then - 1 else int (length u)"]
    by (simp add: lowest_diff_bit_def i Let_def cstr_key_def)
qed

section \<open>Up to two keys\<close>

definition leaf_is :: "'a pat_node_s \<Rightarrow> bool \<Rightarrow> 8 word list \<Rightarrow> 'a \<Rightarrow> bool" where
  "leaf_is nd leg s d \<longleftrightarrow> cstr_key s \<and> n_is_node nd leg = Some False \<and> n_key nd leg = Some (s @ [0]) \<and>
     n_key_len nd leg = Some (length s) \<and> n_data nd leg = Some d"

definition pat_one :: "'a pat_tree \<Rightarrow> 8 word list \<Rightarrow> 'a \<Rightarrow> bool" where
  "pat_one t s d \<longleftrightarrow> pat_keys t = 1 \<and> cstr_key s \<and> pat_key t = Some (s @ [0]) \<and> pat_key_len t = length s \<and> pat_data t = Some d"

definition pat_two :: "'a pat_tree \<Rightarrow> 8 word list \<Rightarrow> 'a \<Rightarrow> 8 word list \<Rightarrow> 'a \<Rightarrow> bool" where
  "pat_two t s d s' d' \<longleftrightarrow> pat_keys t = 2 \<and> s \<noteq> s' \<and>
     (\<exists>nd. pat_deref t (pat_root t) = Ret nd \<and> leaf_is nd False s d \<and> leaf_is nd True s' d')"

text \<open>The tree holds the map \<open>m\<close> of at most two keys, and no walk is under way.\<close>

definition pat_holds :: "'a pat_tree \<Rightarrow> (8 word list \<rightharpoonup> 'a) \<Rightarrow> bool" where
  "pat_holds t m \<longleftrightarrow> pat_walk_stack t = No_stack \<and>
     (pat_keys t = 0 \<and> m = Map.empty \<or> (\<exists>s d. pat_one t s d \<and> m = [s \<mapsto> d]) \<or>
      (\<exists>s d s' d'. pat_two t s d s' d' \<and> m = [s \<mapsto> d, s' \<mapsto> d']))"

lemma pat_init_holds: "pat_init ee True = Ret t \<Longrightarrow> pat_holds t Map.empty"
  by (auto simp: pat_init_def pat_holds_def)

lemma stop_no_walk [simp]: "pat_walk_stack t = No_stack \<Longrightarrow> stop_walk t = Ret t"
  by (simp add: stop_walk_def)

lemma pat_ins_holds:
  assumes h: "pat_holds t m" and s: "cstr_key s" and few: "pat_keys t < 2"
  shows "s \<in> dom m \<Longrightarrow> pat_ins ee True fresh (s @ [0]) (length s) d t = Ret (t, Inl EEXIST)"
    "s \<notin> dom m \<Longrightarrow> \<exists>t'. pat_ins ee True fresh (s @ [0]) (length s) d t = Ret (t', Inr ()) \<and> pat_holds t' (m(s \<mapsto> d))"
proof -
  have w: "pat_walk_stack t = No_stack" using h by (simp add: pat_holds_def)
  consider (none) "pat_keys t = 0" "m = Map.empty" | (one) s1 d1 where "pat_one t s1 d1" "m = [s1 \<mapsto> d1]"
    using h few by (auto simp: pat_holds_def pat_two_def)
  note cs = this
  show "pat_ins ee True fresh (s @ [0]) (length s) d t = Ret (t, Inl EEXIST)" if "s \<in> dom m"
    using cs by cases (use w s that in \<open>auto simp: pat_ins_def pat_ins_few_def pat_one_def pat_keys_match_cstr written_val_def\<close>)
  show "\<exists>t'. pat_ins ee True fresh (s @ [0]) (length s) d t = Ret (t', Inr ()) \<and> pat_holds t' (m(s \<mapsto> d))" if new: "s \<notin> dom m"
    using cs
  proof cases
    case none
    let ?t = "t\<lparr>pat_key := Some (s @ [0]), pat_key_len := length s, pat_data := Some d, pat_keys := 1, pat_key_len_max := 1\<rparr>"
    have "pat_ins ee True fresh (s @ [0]) (length s) d t = Ret (?t, Inr ())"
      using none w s by (simp add: pat_ins_def pat_ins_few_def cstr_key_def)
    moreover have "pat_one ?t s d" using s by (simp add: pat_one_def)
    ultimately show ?thesis using none w by (auto simp: pat_holds_def)
  next
    case one
    then have ne: "s1 \<noteq> s" and s1: "cstr_key s1" using new by (auto simp: pat_one_def)
    obtain k where k: "lowest_diff_bit (s1 @ [0]) (length s1) (s @ [0]) (length s) = Ret k" "0 \<le> k" "k < 8"
      using lowest_diff_bit_cstr [OF s1 s ne] by blast
    obtain b where b: "bit_is_set (nat k) (s @ [0]) = Ret b"
      using k by (auto simp: bit_is_set_def key_byte_def)
    let ?nd = "pat_make_leaf (\<not> b) (s1 @ [0]) (length s1) d1 (pat_make_leaf b (s @ [0]) (length s) d (fresh_node fresh))"
    let ?t = "t\<lparr>pat_root := Some (length (pat_mem t)), pat_mem := pat_mem t @ [Some ?nd], pat_keys := 2, pat_key_len_max := 1\<rparr>"
    have "pat_ins ee True fresh (s @ [0]) (length s) d t = Ret (?t, Inr ())"
      using one w s s1 ne k(1) b by (simp add: pat_ins_def pat_ins_few_def pat_one_def pat_keys_match_cstr written_val_def Let_def)
    moreover have "pat_deref ?t (pat_root ?t) = Ret ?nd" by (simp add: pat_deref_def written_val_def)
    moreover have "leaf_is ?nd b s d" "leaf_is ?nd (\<not> b) s1 d1"
      using s s1 by (auto simp: leaf_is_def pat_make_leaf_def cstr_key_def)
    ultimately show ?thesis using one w ne
      by (cases b) (fastforce simp: pat_holds_def pat_two_def)+
  qed
qed

lemma pat_find_holds:
  assumes "pat_holds t m" "cstr_key s" "pat_keys t < 2"
  shows "pat_find (s @ [0]) (length s) t = Ret (t, case m s of None \<Rightarrow> Inl ENOENT | Some d \<Rightarrow> Inr d)"
  using assms by (auto simp: pat_holds_def pat_two_def pat_one_def pat_find_def pat_keys_match_cstr written_val_def)

lemma pat_rem_two_holds:
  assumes t: "pat_two t s1 d1 s2 d2" and w: "pat_walk_stack t = No_stack" and s: "cstr_key s"
  shows "\<exists>t'. pat_rem_two [False, True] (s @ [0]) (length s) t =
      Ret (t', if s = s1 then Inr d1 else if s = s2 then Inr d2 else Inl ENOENT) \<and>
    pat_holds t' ([s1 \<mapsto> d1, s2 \<mapsto> d2](s := None))"
proof -
  obtain nd where nd: "pat_deref t (pat_root t) = Ret nd" "leaf_is nd False s1 d1" "leaf_is nd True s2 d2"
    and ne: "s1 \<noteq> s2" using t by (auto simp: pat_two_def)
  let ?t = "\<lambda>s d. t\<lparr>pat_key := Some (s @ [0]), pat_key_len := length s, pat_data := Some d, pat_keys := 1,
    pat_mem := (pat_mem t)[the (pat_root t) := None]\<rparr>"
  have c: "cstr_key s1" "cstr_key s2" using nd by (simp_all add: leaf_is_def)
  consider "s = s1" | "s = s2" | "s \<noteq> s1" "s \<noteq> s2" by blast
  then show ?thesis
  proof cases
    case 1
    have "pat_holds (?t s2 d2) [s2 \<mapsto> d2]" using w c by (auto simp: pat_holds_def pat_one_def)
    moreover have "[s1 \<mapsto> d1, s2 \<mapsto> d2](s := None) = [s2 \<mapsto> d2]" using 1 ne by auto
    ultimately show ?thesis using 1 nd s c
      by (intro exI [of _ "?t s2 d2"]) (simp add: leaf_is_def written_val_def pat_keys_match_cstr)
  next
    case 2
    have "pat_holds (?t s1 d1) [s1 \<mapsto> d1]" using w c by (auto simp: pat_holds_def pat_one_def)
    moreover have "[s1 \<mapsto> d1, s2 \<mapsto> d2](s := None) = [s1 \<mapsto> d1]" using 2 ne by auto
    ultimately show ?thesis using 2 nd s c ne
      by (intro exI [of _ "?t s1 d1"]) (simp add: leaf_is_def written_val_def pat_keys_match_cstr)
  next
    case 3
    then have "[s1 \<mapsto> d1, s2 \<mapsto> d2](s := None) = [s1 \<mapsto> d1, s2 \<mapsto> d2]" by auto
    moreover have "pat_holds t [s1 \<mapsto> d1, s2 \<mapsto> d2]" using t w unfolding pat_holds_def by blast
    ultimately show ?thesis using 3 nd s c
      by (intro exI [of _ t]) (simp add: leaf_is_def written_val_def pat_keys_match_cstr)
  qed
qed

lemma pat_rem_holds:
  assumes "pat_holds t m" "cstr_key s"
  shows "\<exists>t'. pat_rem (s @ [0]) (length s) t = Ret (t', case m s of None \<Rightarrow> Inl ENOENT | Some d \<Rightarrow> Inr d) \<and>
    pat_holds t' (m(s := None))"
proof -
  have w: "pat_walk_stack t = No_stack" using assms by (simp add: pat_holds_def)
  consider "pat_keys t = 0" "m = Map.empty" | s1 d1 where "pat_one t s1 d1" "m = [s1 \<mapsto> d1]"
    | s1 d1 s2 d2 where "pat_two t s1 d1 s2 d2" "m = [s1 \<mapsto> d1, s2 \<mapsto> d2]"
    using assms by (auto simp: pat_holds_def)
  then show ?thesis
  proof cases
    case 1
    then show ?thesis using assms w by (intro exI [of _ t]) (simp add: pat_rem_def pat_rem_few_def)
  next
    case 2
    then have "m(s := None) = (if s = s1 then Map.empty else m)" by auto
    then show ?thesis using 2 assms w
      by (intro exI [of _ "if s = s1 then t\<lparr>pat_keys := 0\<rparr> else t"])
        (simp add: pat_rem_def pat_rem_few_def pat_one_def pat_keys_match_cstr written_val_def pat_holds_def)
  next
    case 3
    then have r: "pat_rem (s @ [0]) (length s) t = pat_rem_two [False, True] (s @ [0]) (length s) t"
      using w by (simp add: pat_rem_def pat_rem_few_def pat_two_def del: pat_rem_two.simps)
    have "(case m s of None \<Rightarrow> Inl ENOENT | Some d \<Rightarrow> Inr d) = (if s = s1 then Inr d1 else if s = s2 then Inr d2 else Inl ENOENT)"
      using 3 by (simp add: pat_two_def)
    then show ?thesis unfolding r using pat_rem_two_holds [OF 3(1) w assms(2)] 3(2) by simp
  qed
qed

lemma pat_map_holds:
  assumes "pat_holds t m"
  shows "\<exists>xs. pat_map t = Ret (map (\<lambda>(s, d). (s @ [0], length s, d)) xs) \<and> distinct (map fst xs) \<and> map_of xs = m \<and>
    pat_count t = length xs"
proof -
  consider "pat_keys t = 0" "m = Map.empty" | s1 d1 where "pat_one t s1 d1" "m = [s1 \<mapsto> d1]"
    | s1 d1 s2 d2 where "pat_two t s1 d1 s2 d2" "m = [s1 \<mapsto> d1, s2 \<mapsto> d2]"
    using assms by (auto simp: pat_holds_def)
  then show ?thesis
  proof cases
    case 1
    then show ?thesis by (intro exI [of _ "[]"]) (simp add: pat_map_def pat_count_def)
  next
    case 2
    then show ?thesis
      by (intro exI [of _ "[(s1, d1)]"]) (auto simp: pat_map_def pat_one_def pat_count_def written_val_def)
  next
    case 3
    then obtain nd where nd: "pat_deref t (pat_root t) = Ret nd" "leaf_is nd False s1 d1" "leaf_is nd True s2 d2"
      and ne: "s1 \<noteq> s2" "pat_keys t = 2" by (auto simp: pat_two_def)
    obtain n where "length (pat_mem t) = Suc n" using nd(1)
      by (cases "length (pat_mem t)") (auto simp: pat_deref_def split: option.splits)
    then show ?thesis using nd ne 3(2)
      by (intro exI [of _ "[(s1, d1), (s2, d2)]"])
        (auto simp: pat_map_def pat_count_def written_val_def leaf_is_def PAT_IS_LEAF_def PAT_IS_NODE_def)
  qed
qed

text \<open>
  As long as a tree has at most one key before an insertion or a search, and at most two before a removal,
  it behaves as a map on keys that are strings: the operations do what they do on the map, and \<open>pat_map\<close> and
  \<open>pat_count\<close> see its elements.
\<close>

theorem pat_small_map:
  assumes "pat_holds t m" "cstr_key s"
  shows "(pat_keys t < 2 \<longrightarrow> pat_find (s @ [0]) (length s) t = Ret (t, case m s of None \<Rightarrow> Inl ENOENT | Some d \<Rightarrow> Inr d)) \<and>
    (pat_keys t < 2 \<longrightarrow> (case m s of
        Some d' \<Rightarrow> pat_ins ee True fresh (s @ [0]) (length s) d t = Ret (t, Inl EEXIST)
      | None \<Rightarrow> \<exists>t'. pat_ins ee True fresh (s @ [0]) (length s) d t = Ret (t', Inr ()) \<and> pat_holds t' (m(s \<mapsto> d)))) \<and>
    (\<exists>t'. pat_rem (s @ [0]) (length s) t = Ret (t', case m s of None \<Rightarrow> Inl ENOENT | Some d \<Rightarrow> Inr d) \<and>
      pat_holds t' (m(s := None))) \<and>
    (\<exists>xs. pat_map t = Ret (map (\<lambda>(s, d). (s @ [0], length s, d)) xs) \<and> distinct (map fst xs) \<and> map_of xs = m \<and>
      pat_count t = length xs)"
  using pat_find_holds [OF assms] pat_ins_holds [OF assms] pat_rem_holds [OF assms] pat_map_holds [OF assms(1)]
  by (cases "m s") (auto simp: domIff)

definition sample_pat :: "nat pat_tree" where
  "sample_pat = \<lparr>pat_keys = 0, pat_root = None, pat_key = None, pat_key_len = 0, pat_key_len_max = 0, pat_data = None,
     pat_walk_stack = No_stack, pat_walk_did_forw = False, pat_mem = []\<rparr>"

lemma sample_pat_init: "pat_init ee True = Ret sample_pat"
  by (simp add: pat_init_def sample_pat_def)

lemma pat_small_map_witness:
  "\<exists>t. pat_ins True True None [97, 0] 1 7 sample_pat = Ret (t, Inr ()) \<and> pat_holds t [[97] \<mapsto> 7]"
proof -
  have "pat_holds sample_pat Map.empty" using pat_init_holds sample_pat_init by blast
  then show ?thesis
    using pat_small_map [of sample_pat Map.empty "[97]" True None 7]
    by (simp add: cstr_key_def) (simp add: sample_pat_def)
qed

section \<open>A third operation\<close>

text \<open>
  Whatever \<open>malloc\<close> leaves in \<open>pat_bit\<close> of the first node, there are two strings of one character such
  that after both are inserted the search for the first one does not find it.
\<close>

lemma two_inserts:
  assumes "x \<noteq> 0" "y \<noteq> 0" "x \<noteq> y"
  shows "\<exists>t1 t2 nd. pat_ins ee True fresh [x, 0] 1 d1 sample_pat = Ret (t1, Inr ()) \<and> pat_ins ee True fresh [y, 0] 1 d2 t1 = Ret (t2, Inr ()) \<and>
    pat_keys t2 = 2 \<and> pat_mem t2 = [Some nd] \<and> pat_root t2 = Some 0 \<and> n_bit nd = fresh \<and>
    (let leg = bit y (nat (ffs (xor x y) - 1)) in leaf_is nd leg [y] d2 \<and> leaf_is nd (\<not> leg) [x] d1)"
proof -
  let ?k = "ffs (xor x y) - 1"
  have "xor x y \<noteq> 0" using assms(3) by (metis xor.right_neutral xor_self_eq xor.assoc)
  then have k: "0 \<le> ?k" "?k < 8" using ffs_range [of "xor x y"] by auto
  have d: "lowest_diff_bit [x, 0] 1 [y, 0] 1 = Ret ?k"
    using k(1) by (simp add: lowest_diff_bit_def int_of_size_def lowest_diff_loop.simps [of "[x, 0]"] key_byte_def Let_def)
  have m: "pat_keys_match [x, 0] 1 [y, 0] 1 = Ret False"
    using assms(3) by (simp add: pat_keys_match_def keys_match_loop.simps [of "[x, 0]"] key_byte_def)
  let ?leg = "bit y (nat ?k)"
  have b: "bit_is_set (nat ?k) [y, 0] = Ret ?leg" using k by (simp add: bit_is_set_def key_byte_def)
  let ?t1 = "sample_pat\<lparr>pat_key := Some [x, 0], pat_key_len := 1, pat_data := Some d1, pat_keys := 1, pat_key_len_max := 1\<rparr>"
  let ?nd = "pat_make_leaf (\<not> ?leg) [x, 0] 1 d1 (pat_make_leaf ?leg [y, 0] 1 d2 (fresh_node fresh))"
  let ?t2 = "?t1\<lparr>pat_root := Some 0, pat_mem := [Some ?nd], pat_keys := 2, pat_key_len_max := 1\<rparr>"
  have "pat_ins ee True fresh [x, 0] 1 d1 sample_pat = Ret (?t1, Inr ())"
    by (simp add: pat_ins_def pat_ins_few_def sample_pat_def)
  moreover have "pat_ins ee True fresh [y, 0] 1 d2 ?t1 = Ret (?t2, Inr ())"
    using d m b by (simp add: pat_ins_def pat_ins_few_def sample_pat_def written_val_def Let_def)
  moreover have "n_bit ?nd = fresh \<and> leaf_is ?nd ?leg [y] d2 \<and> leaf_is ?nd (\<not> ?leg) [x] d1"
    using assms(1,2) by (simp add: leaf_is_def pat_make_leaf_def fresh_node_def cstr_key_def)
  ultimately show ?thesis by (intro exI [of _ ?t1] exI [of _ ?t2] exI [of _ ?nd]) (simp add: sample_pat_def Let_def)
qed

lemma find_in_two:
  assumes "pat_keys t = 2" "pat_mem t = [Some nd]" "pat_root t = Some 0" "n_bit nd = Some b"
    "leaf_is nd leg [y] d2" "leaf_is nd (\<not> leg) [x] d1" "x \<noteq> 0" "x \<noteq> y"
    and same: "bit_is_set b [x, 0] = Ret leg \<or> bit_is_set b [x, 0] = Undef"
  shows "pat_find [x, 0] 1 t = Ret (t, Inl ENOENT) \<or> pat_find [x, 0] 1 t = Undef"
proof -
  have m: "pat_keys_match [y, 0] 1 [x, 0] 1 = Ret False"
    using assms(8) by (simp add: pat_keys_match_def keys_match_loop.simps [of "[y, 0]"] key_byte_def)
  have f: "pat_find [x, 0] 1 t = bindO (pat_descend 1 [x, 0] (Some 0) t) (\<lambda>(i, nd, leg, path).
      bindO (leaf_matches nd leg [x, 0] 1) (\<lambda>m.
        if m then bindO (written_val (n_data nd leg)) (\<lambda>d. Ret (t, Inr d)) else Ret (t, Inl ENOENT)))"
    using assms(1-3) by (simp add: pat_find_def)
  have d: "pat_descend 1 [x, 0] (Some 0) t = bindO (bit_is_set b [x, 0]) (\<lambda>bit_set. bindO (PAT_IS_LEAF nd bit_set) (\<lambda>leaf.
       if leaf then Ret (the (Some 0), nd, bit_set, [the (Some 0)])
       else bindO (written_val (n_node nd bit_set)) (\<lambda>q.
         bindO (pat_descend 0 [x, 0] (Some q) t) (\<lambda>(i, nd', leg, path). Ret (i, nd', leg, the (Some 0) # path)))))"
    using assms(2,4) by (simp add: pat_deref_def written_val_def)
  have l: "PAT_IS_LEAF nd leg = Ret True" "leaf_matches nd leg [x, 0] 1 = Ret False"
    using assms(5) m by (simp_all add: leaf_is_def PAT_IS_LEAF_def PAT_IS_NODE_def written_val_def leaf_matches_def)
  show ?thesis
    using same by (elim disjE) (simp_all only: f d l bindO.simps prod.case if_True if_False simp_thms)
qed

lemma ffs_samples: "ffs 3 = 1" "ffs 6 = 2"
  by code_simp+

theorem pat_second_key_hides_first:
  "\<exists>x y t1 t2. x \<noteq> 0 \<and> y \<noteq> 0 \<and> pat_ins True True fresh [x, 0] 1 d1 sample_pat = Ret (t1, Inr ()) \<and>
     pat_ins True True fresh [y, 0] 1 d2 t1 = Ret (t2, Inr ()) \<and>
     (pat_find [x, 0] 1 t2 = Ret (t2, Inl ENOENT) \<or> pat_find [x, 0] 1 t2 = Undef)"
proof -
  define x :: "8 word" where "x = (if fresh = Some 0 then 2 else 1)"
  define y :: "8 word" where "y = (if fresh = Some 0 then 4 else 2)"
  have xy: "x \<noteq> 0" "y \<noteq> 0" "x \<noteq> y" by (simp_all add: x_def y_def)
  obtain t1 t2 nd where i: "pat_ins True True fresh [x, 0] 1 d1 sample_pat = Ret (t1, Inr ())"
      "pat_ins True True fresh [y, 0] 1 d2 t1 = Ret (t2, Inr ())"
    and t2: "pat_keys t2 = 2" "pat_mem t2 = [Some nd]" "pat_root t2 = Some 0" "n_bit nd = fresh"
    and l: "leaf_is nd (bit y (nat (ffs (xor x y) - 1))) [y] d2" "leaf_is nd (\<not> bit y (nat (ffs (xor x y) - 1))) [x] d1"
    using two_inserts [OF xy, of True fresh d1 d2] by (auto simp: Let_def)
  have leg: "bit y (nat (ffs (xor x y) - 1)) = False"
    by (simp add: x_def y_def ffs_samples bit_simps)
  have "pat_find [x, 0] 1 t2 = Ret (t2, Inl ENOENT) \<or> pat_find [x, 0] 1 t2 = Undef"
  proof (cases fresh)
    case None
    then show ?thesis using t2 by (simp add: pat_find_def pat_deref_def written_val_def)
  next
    case (Some b)
    have "bit_is_set b [x, 0] = Ret False \<or> bit_is_set b [x, 0] = Undef"
    proof (cases "b < 8")
      case True
      then have "bit_is_set b [x, 0] = Ret (bit x b)" by (simp add: bit_is_set_def key_byte_def)
      then show ?thesis using Some by (auto simp: x_def bit_simps)
    next
      case False
      then have "b div 8 = 1 \<or> 2 \<le> b div 8" by presburger
      then show ?thesis by (auto simp: bit_is_set_def key_byte_def)
    qed
    then show ?thesis using find_in_two [of t2 nd b False y d2 x d1] t2 l leg xy Some by simp
  qed
  then show ?thesis using xy i by blast
qed

section \<open>Walks and what comes after\<close>

text \<open>A walk over a tree of one key follows the pointer to a root that was never made, or was freed.\<close>

lemma pat_walk_one_key:
  assumes "pat_one t s d" "pat_walk_stack t = No_stack" "pat_root t = None"
  shows "pat_walk ee True None t = Undef"
proof -
  obtain st where i: "stack_init ee True True = Ret (st :: nat option stack_list)" by (simp add: stack_init_def)
  then obtain st' where p: "stack_push True st None = Ret st'" "stack_filling st'" "stack_elems st' = [None]"
    using stack_init_ok [OF i] stack_push_ok [of st None] by auto
  obtain rest where "stack_data st' = map Some (rev [None]) @ rest" "length [None :: nat option] = stack_end st'"
    using stack_draining_front [of st'] p by (auto simp: stack_filling_def)
  then have k: "stack_peek (Some st') = Ret None" by (simp add: stack_peek_def arr_get_def)
  have d: "walk_down n True True None pos u = Undef" for n pos and u :: "'a pat_tree"
    by (cases n) (simp_all add: pat_deref_def)
  show ?thesis
    using assms i p k
    by (simp add: pat_walk_def pat_walk_helper_def numeral_2_eq_2 pat_one_def walk_push_def walk_peek_def d)
qed

text \<open>The end of a walk leaves a pointer to the stack that it freed; the next change of the tree frees it again.\<close>

lemma walk_bad_dangles:
  assumes "walk_bad e pos t = Ret (t', r)" "pat_walk_stack t \<noteq> No_stack"
  shows "pat_ins ee ok fresh key l d t' = Undef" "pat_rem key l t' = Undef"
proof -
  have "pat_walk_stack t' = Freed_stack"
    using assms by (auto simp: walk_bad_def stop_walk_def split: walk_stack.splits)
  then show "pat_ins ee ok fresh key l d t' = Undef" "pat_rem key l t' = Undef"
    by (simp_all add: pat_ins_def pat_rem_def stop_walk_def)
qed

end
