(* ===== verification/Paths.thy ===== *)
theory Paths
  imports Spegla_Prelude
begin

text \<open>
  Path names in spf_util.c: the current directory \<open>cur_dir\<close> and its two moves, the path of a
  file relative to the start directory, and the resolution of what a symbolic link points
  to (lines 66-166 and 275-396). A C string is a \<open>string\<close> without its terminator; a buffer
  that would overflow is \<open>Undef\<close>.
\<close>

section \<open>Model\<close>

text \<open>The value of the BSD systems; spegla.h has 255 where the system defines none.\<close>

definition PATH_MAX :: nat where
  "PATH_MAX = 1024"

text \<open>\<open>s[i]\<close>, the terminator included.\<close>

definition ch :: "string \<Rightarrow> nat \<Rightarrow> char" where
  "ch s i = (if i < length s then s ! i else CHR 0x00)"

text \<open>A string written into a buffer of \<open>cap\<close> bytes.\<close>

definition buf_put :: "nat \<Rightarrow> string \<Rightarrow> string outcome" where
  "buf_put cap s = (if length s < cap then Ret s else Undef)"

fun is_prefix :: "'a list \<Rightarrow> 'a list \<Rightarrow> bool" where
  "is_prefix [] s = True"
| "is_prefix (x # xs) [] = False"
| "is_prefix (x # xs) (y # ys) = (x = y \<and> is_prefix xs ys)"

fun strstr :: "string \<Rightarrow> string \<Rightarrow> string option" where
  "strstr [] t = (if t = [] then Some [] else None)"
| "strstr (c # s) t = (if is_prefix t (c # s) then Some (c # s) else strstr s t)"

definition have_dotdot_ref :: "string \<Rightarrow> bool" where
  "have_dotdot_ref f = (strstr f ''/../'' \<noteq> None)"

text \<open>The result \<open>None\<close> is \<open>NULL\<close>, with \<open>cur_dir\<close> left as it was.\<close>

definition cur_dir_cd :: "string \<Rightarrow> string \<Rightarrow> string option" where
  "cur_dir_cd str cur_dir =
     (if have_dotdot_ref str then None
      else if length str + length cur_dir + 1 > PATH_MAX - 2 then None
      else let len = length cur_dir;
               cur_dir = (if 0 < len \<and> ch cur_dir (len - 1) \<noteq> CHR ''/'' then cur_dir @ ''/'' else cur_dir)
        in Some (cur_dir @ str @ ''/''))"

text \<open>\<open>for (i = len; i > 0 && s[i] != '/'; i--);\<close>\<close>

fun slash_back :: "string \<Rightarrow> nat \<Rightarrow> nat" where
  "slash_back s 0 = 0"
| "slash_back s (Suc i) = (if ch s (Suc i) = CHR ''/'' then Suc i else slash_back s i)"

definition cur_dir_cdup :: "string \<Rightarrow> string" where
  "cur_dir_cdup cur_dir =
     (let len = length cur_dir in
      if len = 0 \<or> (len = 1 \<and> ch cur_dir 0 = CHR ''.'') then cur_dir
      else let cur_dir = (if ch cur_dir (len - 1) = CHR ''/'' then take (len - 1) cur_dir else cur_dir);
               i = slash_back cur_dir (length cur_dir)
        in take (i + 1) cur_dir)"

text \<open>\<open>full_name\<close> into a buffer of \<open>len\<close> bytes; the only callers pass \<open>PATH_MAX\<close>.\<close>

definition full_name :: "string \<Rightarrow> string \<Rightarrow> nat \<Rightarrow> string option" where
  "full_name cur_dir f len =
     (if have_dotdot_ref f then None
      else if length f + length cur_dir > len - 2 then None
      else Some (cur_dir @ f))"

text \<open>
  One component of a link target, \<open>dir\<close> with \<open>dir_len\<close> bytes, applied to the path in \<open>buf\<close>.
  The test that keeps the buffer from overflowing is on unsigned values and \<open>buf\<close> is
  terminated inside the buffer.
\<close>

definition symlink_cd_up :: "string \<Rightarrow> nat \<Rightarrow> string outcome" where
  "symlink_cd_up buf buf_siz =
     (let buf = (if buf = ''./../'' then drop 2 buf else buf); len = length buf in
      if is_prefix ''../'' buf then buf_put buf_siz (buf @ ''../'')
      else if len = 0 then buf_put buf_siz ''../''
      else let i = slash_back buf (len - 1) in
        if ch buf i = CHR ''/''
        then if i = 0 then Ret buf else buf_put buf_siz (take (i + 1) buf)
        else buf_put buf_siz ''./'')"

definition symlink_cd :: "string \<Rightarrow> string \<Rightarrow> nat \<Rightarrow> string outcome" where
  "symlink_cd dir buf buf_siz =
     (let len = length buf in
      if buf_siz - len - 1 \<le> length dir then Err EOTHER
      else if length dir = 0 then Ret buf
      else if dir = ''.'' then Ret buf
      else if dir = ''..'' then symlink_cd_up buf buf_siz
      else let buf = buf @ dir in
        buf_put buf_siz (if ch buf (length buf - 1) \<noteq> CHR ''/'' then buf @ ''/'' else buf))"

text \<open>
  The loop over the target \<open>p\<close>: \<open>j\<close> is where the component starts. After a separator the
  index moves on by two, so the first byte of a component is never taken for a separator.
\<close>

function symlink_loop :: "string \<Rightarrow> nat \<Rightarrow> nat \<Rightarrow> string \<Rightarrow> nat \<Rightarrow> string outcome" where
  "symlink_loop p i j buf len =
     (if i \<le> length p
      then if ch p i = CHR ''/'' \<or> ch p i = CHR 0x00
        then bindO (symlink_cd (take (i - j) (drop j p)) buf len) (\<lambda>buf.
          symlink_loop p (i + 2) (i + 1) buf len)
        else symlink_loop p (i + 1) j buf len
      else Ret buf)"
  by pat_completeness auto
termination
  by (relation "measure (\<lambda>(p, i, j, buf, len). Suc (length p) - i)") auto

declare symlink_loop.simps [simp del]

definition spf_symlink_resolve :: "string \<Rightarrow> string option \<Rightarrow> nat \<Rightarrow> string outcome" where
  "spf_symlink_resolve cur_dir spf_symlink len =
     (case spf_symlink of None \<Rightarrow> Err EOTHER
      | Some p \<Rightarrow>
        bindO
          (if ch p 0 \<noteq> CHR ''/''
           then if len \<le> length cur_dir then Err EOTHER
             else bindO (buf_put len ''./'') (\<lambda>buf.
               buf_put len (if is_prefix ''./'' cur_dir then buf @ drop 2 cur_dir else buf @ cur_dir))
           else buf_put len '''')
          (\<lambda>buf. bindO (symlink_loop p 0 0 buf len) (\<lambda>buf.
            let plen = length buf in
            Ret (if 0 < plen \<and> ch buf (plen - 1) = CHR ''/'' then take (plen - 1) buf else buf))))"

section \<open>Lemmas\<close>

lemma is_prefix_append: "is_prefix xs ys \<longleftrightarrow> (\<exists>zs. ys = xs @ zs)"
  by (induction xs ys rule: is_prefix.induct) auto

lemma strstr_None: "t \<noteq> [] \<Longrightarrow> strstr s t = None \<longleftrightarrow> (\<nexists>a b. s = a @ t @ b)"
proof (induction s t rule: strstr.induct)
  case (2 c s t)
  have "(\<exists>a b. c # s = a @ t @ b) \<longleftrightarrow> (\<exists>b. c # s = t @ b) \<or> (\<exists>a b. s = a @ t @ b)"
    by (metis append_Cons append_Nil list.exhaust list.inject)
  then show ?case using 2 by (auto simp: is_prefix_append)
qed auto

lemma have_dotdot_ref_no_slash: "CHR ''/'' \<notin> set f \<Longrightarrow> \<not> have_dotdot_ref f"
  by (auto simp: have_dotdot_ref_def strstr_None)

lemma slash_back_append:
  assumes "CHR ''/'' \<notin> set b" "n \<le> Suc (length b)" "a \<noteq> []" "last a = CHR ''/''"
  shows "slash_back (a @ b) (length a + n - 1) = length a - 1"
  using assms(2)
proof (induction n)
  case 0
  show ?case
  proof (cases "length a - 1")
    case (Suc k)
    then have "Suc k < length a" "a ! Suc k = CHR ''/''"
      using assms(3,4) by (auto simp: last_conv_nth)
    then show ?thesis using Suc by (simp add: ch_def nth_append)
  qed simp
next
  case (Suc n)
  obtain k where k: "length a + n = Suc k" using assms(3) by (cases a) auto
  have "ch (a @ b) (length a + n) \<noteq> CHR ''/''"
    using assms(1) Suc.prems by (auto simp: ch_def nth_append in_set_conv_nth)
  then show ?case using Suc k by simp
qed

lemma buf_put_less: "buf_put cap s = Ret t \<Longrightarrow> t = s \<and> length t < cap"
  by (auto simp: buf_put_def split: if_splits)

lemma slash_back_le: "slash_back s i \<le> i"
  by (induction s i rule: slash_back.induct) auto

lemma symlink_cd_up_cases:
  assumes "length buf + 3 < buf_siz"
  shows "\<exists>b. symlink_cd_up buf buf_siz = Ret b \<and> length b < buf_siz"
  using assms slash_back_le [of buf "length buf - 1"]
  by (auto simp: symlink_cd_up_def buf_put_def Let_def)

lemma symlink_cd_cases:
  assumes "length buf < buf_siz"
  shows "symlink_cd dir buf buf_siz = Err EOTHER \<or>
    (\<exists>b. symlink_cd dir buf buf_siz = Ret b \<and> length b < buf_siz)"
  using assms symlink_cd_up_cases [of buf buf_siz] by (auto simp: symlink_cd_def buf_put_def Let_def)

lemma symlink_loop_cases:
  assumes "length buf < len"
  shows "symlink_loop p i j buf len = Err EOTHER \<or>
    (\<exists>b. symlink_loop p i j buf len = Ret b \<and> length b < len)"
  using assms
proof (induction p i j buf len rule: symlink_loop.induct)
  case (1 p i j buf len)
  show ?case
  proof (cases "i \<le> length p \<and> (ch p i = CHR ''/'' \<or> ch p i = CHR 0x00)")
    case True
    then show ?thesis
      using symlink_cd_cases [OF 1(3), of "take (i - j) (drop j p)"] 1(1)
      by (subst (1 2) symlink_loop.simps) auto
  next
    case False
    then show ?thesis using 1(2,3) by (subst (1 2) symlink_loop.simps) auto
  qed
qed

section \<open>Properties\<close>

text \<open>
  C15. Going down into a directory and up again restores the current directory: for a
  \<open>cur_dir\<close> that ends in a slash and a name without one, \<open>cur_dir_cdup\<close> undoes every
  successful \<open>cur_dir_cd\<close>.
\<close>

theorem cur_dir_cd_cdup:
  assumes "cur_dir_cd name cur = Some cur'" "CHR ''/'' \<notin> set name" "cur \<noteq> ''''" "last cur = CHR ''/''"
    "name \<noteq> ''''"
  shows "cur_dir_cdup cur' = cur"
proof -
  have "ch cur (length cur - 1) = CHR ''/''" using assms(3,4) by (simp add: ch_def last_conv_nth)
  then have c: "cur' = (cur @ name) @ ''/''"
    using assms(1) by (auto simp: cur_dir_cd_def Let_def split: if_splits)
  have "slash_back (cur @ name) (length cur + Suc (length name) - 1) = length cur - 1"
    using assms by (intro slash_back_append) auto
  then show ?thesis
    using assms(3,5) by (simp add: cur_dir_cdup_def c ch_def nth_append Let_def)
qed

theorem cur_dir_cd_cdup_witness: "cur_dir_cdup ''./pub/linux/'' = ''./pub/''"
  by (rule cur_dir_cd_cdup [of "''linux''"])
    (simp_all add: cur_dir_cd_def have_dotdot_ref_def PATH_MAX_def ch_def)

text \<open>
  C16. No buffer of the path functions overflows: the result of \<open>cur_dir_cd\<close> fits \<open>PATH_MAX\<close>
  bytes with its terminator, the result of \<open>full_name\<close> the buffer it is given, and the
  resolution of a link below a \<open>cur_dir\<close> of the form \<open>./...\<close> writes only inside its buffer, or
  fails.
\<close>

theorem path_buffers_bounded:
  assumes "2 < len" "is_prefix ''./'' cur"
  shows "(case cur_dir_cd name cur of None \<Rightarrow> True | Some c \<Rightarrow> length c < PATH_MAX) \<and>
    (case full_name cur name len of None \<Rightarrow> True | Some p \<Rightarrow> length p < len) \<and>
    (spf_symlink_resolve cur lnk len = Err EOTHER \<or>
     (\<exists>b. spf_symlink_resolve cur lnk len = Ret b \<and> length b < len))"
proof (intro conjI)
  show "case cur_dir_cd name cur of None \<Rightarrow> True | Some c \<Rightarrow> length c < PATH_MAX"
    by (auto simp: cur_dir_cd_def PATH_MAX_def Let_def)
  show "case full_name cur name len of None \<Rightarrow> True | Some p \<Rightarrow> length p < len"
    using assms(1) by (auto simp: full_name_def)
  show "spf_symlink_resolve cur lnk len = Err EOTHER \<or>
     (\<exists>b. spf_symlink_resolve cur lnk len = Ret b \<and> length b < len)"
  proof (cases lnk)
    case (Some p)
    obtain cs where cs: "cur = ''./'' @ cs" using assms(2) by (auto simp: is_prefix_append)
    define start where "start = (if ch p 0 \<noteq> CHR ''/'' then cur else '''')"
    have "spf_symlink_resolve cur lnk len = Err EOTHER \<or> (length start < len \<and>
        spf_symlink_resolve cur lnk len = bindO (symlink_loop p 0 0 start len) (\<lambda>buf.
          let plen = length buf in
          Ret (if 0 < plen \<and> ch buf (plen - 1) = CHR ''/'' then take (plen - 1) buf else buf)))"
      using assms(1) by (auto simp: spf_symlink_resolve_def Some cs buf_put_def start_def)
    then consider "spf_symlink_resolve cur lnk len = Err EOTHER"
      | (loop) "length start < len" "spf_symlink_resolve cur lnk len =
          bindO (symlink_loop p 0 0 start len) (\<lambda>buf. let plen = length buf in
            Ret (if 0 < plen \<and> ch buf (plen - 1) = CHR ''/'' then take (plen - 1) buf else buf))"
      by blast
    then show ?thesis
    proof cases
      case loop
      then show ?thesis
        using symlink_loop_cases [OF loop(1), of p 0 0] by (auto simp: Let_def simp del: bindO_eq_Ret split: if_splits)
    qed simp
  qed (simp add: spf_symlink_resolve_def)
qed

theorem path_buffers_bounded_witness:
  "(case cur_dir_cd ''a'' ''./'' of None \<Rightarrow> True | Some c \<Rightarrow> length c < PATH_MAX) \<and>
    (case full_name ''./'' ''a'' 100 of None \<Rightarrow> True | Some p \<Rightarrow> length p < 100) \<and>
    (spf_symlink_resolve ''./'' (Some ''b/c'') 100 = Err EOTHER \<or>
     (\<exists>b. spf_symlink_resolve ''./'' (Some ''b/c'') 100 = Ret b \<and> length b < 100))"
  by (rule path_buffers_bounded) simp_all

text \<open>
  The guard against paths that leave the start directory looks for \<open>/../\<close> in the name
  alone, so a name that begins with \<open>../\<close> passes it and \<open>full_name\<close> yields a path one level up.
\<close>

theorem full_name_dotdot_escapes:
  assumes "CHR ''/'' \<notin> set rest" "length rest + length cur + 5 \<le> len"
  shows "full_name cur (''../'' @ rest) len = Some (cur @ ''../'' @ rest)"
proof -
  have "''../'' @ rest \<noteq> a @ ''/../'' @ b" for a b
  proof
    assume eq: "''../'' @ rest = a @ ''/../'' @ b"
    then have "count_list (''../'' @ rest) (CHR ''/'') = count_list (a @ ''/../'' @ b) (CHR ''/'')" by simp
    then show False using assms(1) by (simp add: count_list_0_iff)
  qed
  then have "\<not> have_dotdot_ref (''../'' @ rest)"
    by (simp only: have_dotdot_ref_def strstr_None [OF list.distinct(2)]) simp
  then show ?thesis using assms(2) by (simp add: full_name_def)
qed

theorem full_name_dotdot_escapes_witness:
  "full_name ''./'' (''../'' @ ''passwd'') 1024 = Some (''./'' @ ''../'' @ ''passwd'')"
  by (rule full_name_dotdot_escapes) simp_all

text \<open>
  In the resolution of a link target a component \<open>..\<close> does not go up: the path built so far
  ends in a slash, where the search for the last slash stops at once, so the path stays as it
  is (unless it is empty or already begins with \<open>../\<close>).
\<close>

theorem symlink_cd_up_stays:
  assumes "buf = pre @ ''/''" "buf \<noteq> ''./../''" "\<not> is_prefix ''../'' buf" "length buf + 3 < buf_siz"
  shows "symlink_cd ''..'' buf buf_siz = Ret buf"
proof -
  have "slash_back buf (length buf - 1) = length buf - 1"
    using assms(1) by (cases "length pre") (auto simp: ch_def nth_append)
  then show ?thesis
    using assms by (auto simp: symlink_cd_def symlink_cd_up_def buf_put_def ch_def nth_append Let_def)
qed

theorem symlink_cd_up_stays_witness: "symlink_cd ''..'' ''./pub/'' 1024 = Ret ''./pub/''"
  by (rule symlink_cd_up_stays [of _ "''./pub''"]) simp_all

end
