(* ===== verification/Spf_State.thy ===== *)
theory Spf_State
  imports Paths "HOL-Library.Word"
begin

unbundle bit_operations_syntax

text \<open>
  The data of the mirroring engine (spegla.h) and the state its functions share: the globals
  of spegla.c and spf_util.c and the outside world. The system calls are a parameter, a
  record of functions on an abstract world, since their code is not part of the program.
\<close>

section \<open>Files\<close>

datatype sp_ftype = PLAINFILE | DIRECTORY | SYMLINK | UNKNOWN

definition SPFO_DONT_CREATE :: "32 word" where "SPFO_DONT_CREATE = 1"
definition SPFO_LOG_CHMOD :: "32 word" where "SPFO_LOG_CHMOD = 2"
definition SPFO_LOCAL :: "32 word" where "SPFO_LOCAL = 4"
definition SPFO_ISLINK :: "32 word" where "SPFO_ISLINK = 8"

record sp_file =
  spf_time :: int
  spf_tgranul :: int
  spf_type :: sp_ftype
  spf_opt :: "32 word"
  spf_size :: int
  spf_mode :: "32 word"
  spf_name :: string
  spf_symlink :: "string option"
  spf_orig_name :: "string option"

text \<open>
  An entry of the skip and treat-as-directory lists. A compiled expression is represented by
  its source text, which is what \<open>regcomp\<close> gets; \<open>reg_errno\<close> is the result of \<open>regcomp\<close>. (The
  result of each \<open>regexec\<close> is stored in the same member, where nothing reads it.)
\<close>

record sp_skip =
  sps_name :: string
  sps_reg_errno :: int

record sp_treatasdir =
  spt_name :: string
  spt_deref :: bool
  spt_reg_errno :: int
  spt_reg_need_regfree :: bool

section \<open>The outside world\<close>

definition S_IFMT :: "32 word" where "S_IFMT = 0xF000"
definition S_IFDIR :: "32 word" where "S_IFDIR = 0x4000"
definition S_IFREG :: "32 word" where "S_IFREG = 0x8000"
definition S_IFLNK :: "32 word" where "S_IFLNK = 0xA000"
definition S_IRWXU :: "32 word" where "S_IRWXU = 0x1C0"

record stat =
  st_mode :: "32 word"
  st_mtime :: int
  st_size :: int

text \<open>
  Queries read the world and return a value or \<open>Err errno\<close>. The other calls return \<open>None\<close> for
  success or the error, and the new world. \<open>os_readdir\<close> is \<open>opendir\<close> and all of its
  \<open>readdir\<close>; \<open>os_fcontent\<close> is \<open>fopen\<close> for reading with all the file holds; \<open>os_regexec\<close> is \<open>regexec\<close> on the expression compiled from its first argument.
\<close>

record 'w os_ops =
  os_lstat :: "'w \<Rightarrow> string \<Rightarrow> stat outcome"
  os_stat :: "'w \<Rightarrow> string \<Rightarrow> stat outcome"
  os_readlink :: "'w \<Rightarrow> string \<Rightarrow> string outcome"
  os_readdir :: "'w \<Rightarrow> string \<Rightarrow> string list outcome"
  os_fcontent :: "'w \<Rightarrow> string \<Rightarrow> string option"
  os_unlink :: "string \<Rightarrow> 'w \<Rightarrow> errno option \<times> 'w"
  os_rmdir :: "string \<Rightarrow> 'w \<Rightarrow> errno option \<times> 'w"
  os_mkdir :: "string \<Rightarrow> 32 word \<Rightarrow> 'w \<Rightarrow> errno option \<times> 'w"
  os_chmod :: "string \<Rightarrow> 32 word \<Rightarrow> 'w \<Rightarrow> errno option \<times> 'w"
  os_symlink :: "string \<Rightarrow> string \<Rightarrow> 'w \<Rightarrow> errno option \<times> 'w"
  os_utimes :: "string \<Rightarrow> int \<Rightarrow> 'w \<Rightarrow> errno option \<times> 'w"
  os_rename :: "string \<Rightarrow> string \<Rightarrow> 'w \<Rightarrow> errno option \<times> 'w"
  os_mkstemp :: "string \<Rightarrow> 'w \<Rightarrow> string outcome \<times> 'w"
  os_open_trunc :: "string \<Rightarrow> 'w \<Rightarrow> 'w"
  os_sleep :: "nat \<Rightarrow> 'w \<Rightarrow> 'w"
  os_regcomp :: "string \<Rightarrow> int"
  os_regexec :: "string \<Rightarrow> string \<Rightarrow> int"

text \<open>The lists \<open>skip\<close> and \<open>treatasdir\<close> in the order of the queue; \<open>NULL\<close> is the empty list.\<close>

record 'w st =
  cur_dir :: string
  sp_do_delete :: int
  sp_max_delete :: int
  sp_deletes :: int
  sp_dirs_traversed :: int
  sp_retrytime :: nat
  skip :: "sp_skip list"
  treatasdir :: "sp_treatasdir list"
  world :: 'w

section \<open>Runs\<close>

text \<open>
  A call returns (\<open>Done\<close>), ends the process with an exit code (\<open>Quit\<close>), where the state at that
  moment is kept, or does something undefined (\<open>Wrong\<close>). Passing a \<open>NULL\<close> path to a system
  call or to the \<open>%s\<close> of a message counts as undefined. Running out of fuel is \<open>Wrong\<close> too.
\<close>

datatype ('s, 'a) run = Done 'a 's | Quit int 's | Wrong

fun bindR :: "('s, 'a) run \<Rightarrow> ('a \<Rightarrow> 's \<Rightarrow> ('s, 'b) run) \<Rightarrow> ('s, 'b) run" where
  "bindR (Done x s) f = f x s"
| "bindR (Quit n s) f = Quit n s"
| "bindR Wrong f = Wrong"

text \<open>\<open>P\<close> holds in the state in which a run returns or ends the process.\<close>

fun run_inv :: "('s \<Rightarrow> bool) \<Rightarrow> ('s, 'a) run \<Rightarrow> bool" where
  "run_inv P (Done x s) = P s"
| "run_inv P (Quit n s) = P s"
| "run_inv P Wrong = True"

named_theorems run_rules

lemma bindR_cong [fundef_cong]:
  "m = m' \<Longrightarrow> (\<And>x s. m' = Done x s \<Longrightarrow> f x s = g x s) \<Longrightarrow> bindR m f = bindR m' g"
  by (cases m') auto

lemma bindR_eq_Done: "(bindR m f = Done y t) = (\<exists>x s. m = Done x s \<and> f x s = Done y t)"
  by (cases m) auto

lemma bindR_eq_Wrong: "(bindR m f = Wrong) = (m = Wrong \<or> (\<exists>x s. m = Done x s \<and> f x s = Wrong))"
  by (cases m) auto

lemma run_inv_bindR [run_rules]:
  "run_inv P m \<Longrightarrow> (\<And>x s. m = Done x s \<Longrightarrow> P s \<Longrightarrow> run_inv P (f x s)) \<Longrightarrow> run_inv P (bindR m f)"
  by (cases m) auto

lemma run_inv_mono: "run_inv P m \<Longrightarrow> (\<And>s. P s \<Longrightarrow> Q s) \<Longrightarrow> run_inv Q m"
  by (cases m) auto

section \<open>A sample file system\<close>

text \<open>
  A small file system that satisfies what the theorems assume of the system calls, for the
  examples: a list of paths with their status. Paths that are too long are refused.
\<close>

type_synonym fs = "(string \<times> stat) list"

definition fs_lstat :: "fs \<Rightarrow> string \<Rightarrow> stat outcome" where
  "fs_lstat w p = (if PATH_MAX - 1 \<le> length p then Err EOTHER
     else case map_of w p of Some sb \<Rightarrow> Ret sb | None \<Rightarrow> Err ENOENT)"

definition fs_readdir :: "fs \<Rightarrow> string \<Rightarrow> string list outcome" where
  "fs_readdir w p = Ret (''.'' # ''..'' #
     [drop (length p + 1) q. q \<leftarrow> map fst w, is_prefix (p @ ''/'') q \<and> CHR ''/'' \<notin> set (drop (length p + 1) q)])"

definition fs_remove :: "string \<Rightarrow> fs \<Rightarrow> errno option \<times> fs" where
  "fs_remove p w = (if p \<in> fst ` set w then (None, filter (\<lambda>e. fst e \<noteq> p) w) else (Some ENOENT, w))"

definition fs_create :: "string \<Rightarrow> stat \<Rightarrow> fs \<Rightarrow> errno option \<times> fs" where
  "fs_create p sb w = (if p \<in> fst ` set w then (Some EEXIST, w) else (None, (p, sb) # w))"

definition fs_os :: "fs os_ops" where
  "fs_os = \<lparr>os_lstat = fs_lstat, os_stat = fs_lstat, os_readlink = (\<lambda>w p. Err ENOENT),
     os_readdir = fs_readdir, os_fcontent = (\<lambda>w p. None), os_unlink = fs_remove, os_rmdir = fs_remove,
     os_mkdir = (\<lambda>p m. fs_create p \<lparr>st_mode = S_IFDIR OR m, st_mtime = 0, st_size = 0\<rparr>),
     os_chmod = (\<lambda>p m w. (None, w)), os_symlink = (\<lambda>t p w. (Some EEXIST, w)),
     os_utimes = (\<lambda>p t w. (None, w)),
     os_rename = (\<lambda>p q w. (None, map (\<lambda>e. if fst e = p then (q, snd e) else e) w)),
     os_mkstemp = (\<lambda>p w. (Ret p, (p, \<lparr>st_mode = S_IFREG, st_mtime = 0, st_size = 0\<rparr>) # w)),
     os_open_trunc = (\<lambda>p w. w), os_sleep = (\<lambda>n w. w), os_regcomp = (\<lambda>r. 0),
     os_regexec = (\<lambda>r n. if r = n then 0 else 1)\<rparr>"

definition sample_st :: "fs \<Rightarrow> fs st" where
  "sample_st w = \<lparr>cur_dir = ''./'', sp_do_delete = 1, sp_max_delete = 3, sp_deletes = 0,
     sp_dirs_traversed = 0, sp_retrytime = 60, skip = [], treatasdir = [], world = w\<rparr>"

definition sample_dir :: stat where
  "sample_dir = \<lparr>st_mode = 0x41ED, st_mtime = 0, st_size = 512\<rparr>"

definition sample_file :: stat where
  "sample_file = \<lparr>st_mode = 0x81A4, st_mtime = 0, st_size = 10\<rparr>"

end
