(* ===== verification/Parserow.thy ===== *)
theory Parserow
  imports Spf_State
begin

unbundle bit_operations_syntax

text \<open>
  The parser of one line of a remote directory listing, parserow.c (lines 62-349): the mode
  string, the tokens of the long format and the rest of the line as the file name.
\<close>

section \<open>The mode string\<close>

definition S_ISUID :: "32 word" where "S_ISUID = 0x800"
definition S_ISGID :: "32 word" where "S_ISGID = 0x400"
definition S_ISVTX :: "32 word" where "S_ISVTX = 0x200"
definition S_IRUSR :: "32 word" where "S_IRUSR = 0x100"
definition S_IWUSR :: "32 word" where "S_IWUSR = 0x80"
definition S_IXUSR :: "32 word" where "S_IXUSR = 0x40"
definition S_IRGRP :: "32 word" where "S_IRGRP = 0x20"
definition S_IWGRP :: "32 word" where "S_IWGRP = 0x10"
definition S_IXGRP :: "32 word" where "S_IXGRP = 8"
definition S_IROTH :: "32 word" where "S_IROTH = 4"
definition S_IWOTH :: "32 word" where "S_IWOTH = 2"
definition S_IXOTH :: "32 word" where "S_IXOTH = 1"

text \<open>The cases of the nine \<open>switch\<close> statements: what each character adds to \<open>spf_mode\<close>.\<close>

definition mode_switches :: "(char \<times> 32 word) list list" where
  "mode_switches =
    [[(CHR ''r'', S_IRUSR), (CHR ''-'', 0)],
     [(CHR ''w'', S_IWUSR), (CHR ''-'', 0)],
     [(CHR ''x'', S_IXUSR), (CHR ''s'', S_IXUSR OR S_ISUID), (CHR ''S'', S_ISUID), (CHR ''-'', 0)],
     [(CHR ''r'', S_IRGRP), (CHR ''-'', 0)],
     [(CHR ''w'', S_IWGRP), (CHR ''-'', 0)],
     [(CHR ''x'', S_IXGRP), (CHR ''s'', S_IXGRP OR S_ISGID), (CHR ''S'', S_ISGID), (CHR ''-'', 0)],
     [(CHR ''r'', S_IROTH), (CHR ''-'', 0)],
     [(CHR ''w'', S_IWOTH), (CHR ''-'', 0)],
     [(CHR ''x'', S_IXOTH), (CHR ''t'', S_IXOTH OR S_ISVTX), (CHR ''T'', S_ISVTX), (CHR ''-'', 0)]]"

fun parse_mode_bits :: "(char \<times> 32 word) list list \<Rightarrow> string \<Rightarrow> 32 word \<Rightarrow> 32 word option" where
  "parse_mode_bits [] p mode = Some mode"
| "parse_mode_bits (sw # sws) [] mode = None"
| "parse_mode_bits (sw # sws) (c # p) mode =
     (case map_of sw c of None \<Rightarrow> None | Some b \<Rightarrow> parse_mode_bits sws p (mode OR b))"

text \<open>The type and the mode that \<open>parse_file_mode\<close> stores when it returns 1, \<open>None\<close> for 0.\<close>

definition parse_file_mode :: "string \<Rightarrow> (sp_ftype \<times> 32 word) option" where
  "parse_file_mode p =
     (case p of [] \<Rightarrow> None
      | c # p \<Rightarrow>
        (case map_of [(CHR ''-'', PLAINFILE), (CHR ''d'', DIRECTORY), (CHR ''l'', SYMLINK)] c of None \<Rightarrow> None
         | Some ty \<Rightarrow> (case parse_mode_bits mode_switches p 0 of None \<Rightarrow> None | Some m \<Rightarrow> Some (ty, m))))"

section \<open>Tokens and numbers\<close>

text \<open>
  \<open>strtok\<close> with a space as separator. The argument is what is left of the line, \<open>None\<close> once a
  token ended at the terminator.
\<close>

definition strtok :: "string option \<Rightarrow> (string \<times> string option) option" where
  "strtok st =
     (case st of None \<Rightarrow> None
      | Some s \<Rightarrow>
        let s = dropWhile (\<lambda>c. c = CHR '' '') s in
        if s = [] then None
        else let rest = dropWhile (\<lambda>c. c \<noteq> CHR '' '') s in
          Some (takeWhile (\<lambda>c. c \<noteq> CHR '' '') s, if rest = [] then None else Some (tl rest)))"

definition isspace :: "char \<Rightarrow> bool" where
  "isspace c \<longleftrightarrow> c \<in> {CHR '' '', CHR 0x09, CHR 0x0A, CHR 0x0B, CHR 0x0C, CHR 0x0D}"

definition isdigit :: "char \<Rightarrow> bool" where
  "isdigit c \<longleftrightarrow> 48 \<le> (of_char c :: nat) \<and> (of_char c :: nat) \<le> 57"

definition digits_val :: "string \<Rightarrow> int" where
  "digits_val ds = foldl (\<lambda>n c. 10 * n + (of_char c - 48)) 0 ds"

text \<open>
  The decimal number at the start of a string, after white space and a sign, with what follows
  it; \<open>None\<close> if there is no digit.
\<close>

definition scan_int :: "string \<Rightarrow> (int \<times> string) option" where
  "scan_int s =
     (let s = dropWhile isspace s;
          neg = (ch s 0 = CHR ''-'');
          s = (if ch s 0 = CHR ''-'' \<or> ch s 0 = CHR ''+'' then tl s else s);
          ds = takeWhile isdigit s in
      if ds = [] then None
      else Some (if neg then - digits_val ds else digits_val ds, dropWhile isdigit s))"

text \<open>\<open>strtol (s, &endptr, 10)\<close> with a 64-bit \<open>long\<close>: the value and the string at \<open>endptr\<close>.\<close>

definition strtol :: "string \<Rightarrow> int \<times> string" where
  "strtol s =
     (case scan_int s of None \<Rightarrow> (0, s)
      | Some (n, r) \<Rightarrow> (max (- (2 ^ 63)) (min (2 ^ 63 - 1) n), r))"

text \<open>One \<open>%d\<close> of \<open>sscanf\<close>; a number that is no \<open>int\<close> is undefined.\<close>

definition scan_d :: "string \<Rightarrow> (int \<times> string) option outcome" where
  "scan_d s =
     (case scan_int s of None \<Rightarrow> Ret None
      | Some (n, r) \<Rightarrow> if - (2 ^ 31) \<le> n \<and> n < 2 ^ 31 then Ret (Some (n, r)) else Undef)"

text \<open>\<open>sscanf (s, "%d:%d:%d", ...)\<close>: the numbers that were converted.\<close>

fun scan_time :: "nat \<Rightarrow> string \<Rightarrow> int list outcome" where
  "scan_time 0 s = Ret []"
| "scan_time (Suc k) s =
     bindO (scan_d s) (\<lambda>r. case r of None \<Rightarrow> Ret []
       | Some (n, rest) \<Rightarrow>
         if ch rest 0 = CHR '':'' then bindO (scan_time k (tl rest)) (\<lambda>ns. Ret (n # ns)) else Ret [n])"

section \<open>Rows\<close>

definition months :: "string list" where
  "months = [''Jan'', ''Feb'', ''Mar'', ''Apr'', ''May'', ''Jun'',
             ''Jul'', ''Aug'', ''Sep'', ''Oct'', ''Nov'', ''Dec'']"

fun month_index :: "string \<Rightarrow> string list \<Rightarrow> nat option" where
  "month_index tok [] = None"
| "month_index tok (m # ms) = (if tok = m then Some 0 else map_option Suc (month_index tok ms))"

text \<open>The members of \<open>struct tm\<close> that are set; \<open>mktime\<close> and the clock are parameters.\<close>

record tm =
  tm_mon :: int
  tm_mday :: int
  tm_year :: int
  tm_hour :: int
  tm_min :: int
  tm_sec :: int

record clock =
  mktime :: "tm \<Rightarrow> int"
  now_mon :: int
  now_year :: int

definition SECSPERMIN :: int where "SECSPERMIN = 60"
definition SECSPERDAY :: int where "SECSPERDAY = 60 * 60 * 24"

definition guess_year :: "clock \<Rightarrow> int \<Rightarrow> int" where
  "guess_year c mon = (if now_mon c < mon then now_year c - 1 else now_year c)"

text \<open>
  The time or year field and, for a time with seconds, the year behind it: the broken-down
  time, the granularity and what is left of the line.
\<close>

definition parse_time_field ::
  "clock \<Rightarrow> int \<Rightarrow> int \<Rightarrow> string option \<Rightarrow> (tm \<times> int \<times> string option) outcome" where
  "parse_time_field c mon mday rest =
     (case strtok rest of None \<Rightarrow> Err EOTHER
      | Some (tok, rest) \<Rightarrow>
        bindO (scan_time 3 tok) (\<lambda>ns.
          (case ns of
             [y] \<Rightarrow> Ret (\<lparr>tm_mon = mon, tm_mday = mday, tm_year = y, tm_hour = 0, tm_min = 0, tm_sec = 0\<rparr>,
                         SECSPERDAY, rest)
           | [h, m] \<Rightarrow> Ret (\<lparr>tm_mon = mon, tm_mday = mday, tm_year = guess_year c mon,
                           tm_hour = h, tm_min = m, tm_sec = 0\<rparr>, SECSPERMIN, rest)
           | [h, m, sec] \<Rightarrow>
               (case strtok rest of None \<Rightarrow> Err EOTHER
                | Some (tok, rest) \<Rightarrow>
                  bindO (scan_d tok) (\<lambda>r.
                    Ret (\<lparr>tm_mon = mon, tm_mday = mday,
                          tm_year = (case r of None \<Rightarrow> guess_year c mon | Some (y, _) \<Rightarrow> y),
                          tm_hour = h, tm_min = m, tm_sec = sec\<rparr>, 0, rest)))
           | _ \<Rightarrow> Err EOTHER)))"

text \<open>
  The size and the month: the size is the fourth field, unless the fifth is a number too.
\<close>

definition parse_size_month :: "string option \<Rightarrow> (int \<times> string \<times> string option) outcome" where
  "parse_size_month rest =
     (case strtok rest of None \<Rightarrow> Err EOTHER
      | Some (tok, rest) \<Rightarrow>
        let (size, endptr) = strtol tok; maybe_size = (endptr = []) in
        (case strtok rest of None \<Rightarrow> Err EOTHER
         | Some (tok, rest) \<Rightarrow>
           let (size2, endptr) = strtol tok in
           if endptr = []
           then (case strtok rest of None \<Rightarrow> Err EOTHER | Some (tok, rest) \<Rightarrow> Ret (size2, tok, rest))
           else if \<not> maybe_size then Err EOTHER
           else Ret (size, tok, rest)))"

text \<open>
  The file name. The test \<open>spf_mode | S_IXUSR | ...\<close> before the removal of a final \<open>*\<close> is always
  true, and the test for a final \<open>@\<close> looks at the terminator, so it never is.
\<close>

definition strip_last :: "char \<Rightarrow> string \<Rightarrow> string" where
  "strip_last c tok = (if tok \<noteq> [] \<and> last tok = c then butlast tok else tok)"

definition parse_name :: "sp_ftype \<Rightarrow> string \<Rightarrow> (string \<times> string option) outcome" where
  "parse_name ty tok =
     (let tok = (if ty = DIRECTORY then strip_last (CHR ''/'') tok else tok);
          tok = strip_last (CHR ''*'') tok in
      if ty = SYMLINK
      then (case strstr tok '' -> '' of None \<Rightarrow> Err EOTHER
            | Some slusk \<Rightarrow> Ret (take (length tok - length slusk) tok, Some (drop 4 slusk)))
      else Ret (tok, None))"

text \<open>
  The name begins one byte behind the last token. If that token ends the line, the byte is
  behind the terminator, which the check against \<open>row + rowlen\<close> does not catch.
\<close>

definition parse_row_name ::
  "clock \<Rightarrow> sp_ftype \<Rightarrow> 32 word \<Rightarrow> int \<Rightarrow> tm \<times> int \<times> string option \<Rightarrow> sp_file outcome" where
  "parse_row_name c ty mode sz = (\<lambda>(t, tgranul, rest).
     let t = (if tm_year t \<ge> 1900 then t\<lparr>tm_year := tm_year t - 1900\<rparr> else t) in
     (case rest of None \<Rightarrow> Undef
      | Some tok \<Rightarrow>
        if tok = [] then Err EOTHER
        else bindO (parse_name ty tok) (\<lambda>(name, symlink).
          Ret \<lparr>spf_time = mktime c t, spf_tgranul = tgranul, spf_type = ty, spf_opt = 0,
               spf_size = sz, spf_mode = mode, spf_name = name,
               spf_symlink = symlink, spf_orig_name = None\<rparr>)))"

definition parse_row :: "clock \<Rightarrow> bool \<Rightarrow> string \<Rightarrow> sp_file outcome" where
  "parse_row c ok row =
     (if \<not> ok then Err ENOMEM
      else case strtok (Some row) of None \<Rightarrow> Err EOTHER
        | Some (tok, rest) \<Rightarrow>
          (case parse_file_mode tok of None \<Rightarrow> Err EOTHER
           | Some (ty, mode) \<Rightarrow>
             let rest = (case strtok rest of None \<Rightarrow> None | Some (_, r) \<Rightarrow> r);
                 rest = (case strtok rest of None \<Rightarrow> None | Some (_, r) \<Rightarrow> r) in
             bindO (parse_size_month rest) (\<lambda>(sz, tok, rest).
               (case month_index tok months of None \<Rightarrow> Err EOTHER
                | Some mon \<Rightarrow>
                  (case strtok rest of None \<Rightarrow> Err EOTHER
                   | Some (tok, rest) \<Rightarrow>
                     bindO (scan_d tok) (\<lambda>d. case d of None \<Rightarrow> Err EOTHER
                       | Some (mday, _) \<Rightarrow>
                         bindO (parse_time_field c (int mon) mday rest) (parse_row_name c ty mode sz)))))))"

section \<open>The mode string read back\<close>

text \<open>The mode string of \<open>ls -l\<close>, from the type and the twelve permission bits.\<close>

definition flag_char :: "bool \<Rightarrow> char \<Rightarrow> char" where
  "flag_char b c = (if b then c else CHR ''-'')"

definition exec_char :: "bool \<Rightarrow> bool \<Rightarrow> char \<Rightarrow> char \<Rightarrow> char \<Rightarrow> char" where
  "exec_char x s cx cs cS = (if s then if x then cs else cS else flag_char x cx)"

definition mode_string :: "sp_ftype \<Rightarrow> 32 word \<Rightarrow> string" where
  "mode_string ty m =
     [case ty of PLAINFILE \<Rightarrow> CHR ''-'' | DIRECTORY \<Rightarrow> CHR ''d'' | SYMLINK \<Rightarrow> CHR ''l'' | UNKNOWN \<Rightarrow> CHR ''?'',
      flag_char (bit m 8) (CHR ''r''), flag_char (bit m 7) (CHR ''w''),
      exec_char (bit m 6) (bit m 11) (CHR ''x'') (CHR ''s'') (CHR ''S''),
      flag_char (bit m 5) (CHR ''r''), flag_char (bit m 4) (CHR ''w''),
      exec_char (bit m 3) (bit m 10) (CHR ''x'') (CHR ''s'') (CHR ''S''),
      flag_char (bit m 2) (CHR ''r''), flag_char (bit m 1) (CHR ''w''),
      exec_char (bit m 0) (bit m 9) (CHR ''x'') (CHR ''t'') (CHR ''T'')]"

lemma map_of_flag: "c \<noteq> CHR ''-'' \<Longrightarrow>
  map_of [(c, S), (CHR ''-'', 0)] (flag_char b c) = Some (if b then S else 0 :: 32 word)"
  by (simp add: flag_char_def)

lemma map_of_exec: "distinct [cx, cs, cS, CHR ''-''] \<Longrightarrow>
  map_of [(cx, X), (cs, X OR S), (cS, S), (CHR ''-'', 0)] (exec_char x s cx cs cS) =
    Some ((if x then X else 0) OR (if s then S else 0) :: 32 word)"
  by (auto simp: exec_char_def flag_char_def)

definition one_bit :: "nat \<Rightarrow> bool \<Rightarrow> 32 word" where
  "one_bit k b = (if b then 2 ^ k else 0)"

lemma bit_one_bit [simp]: "bit (one_bit k b) n \<longleftrightarrow> b \<and> n = k \<and> n < 32"
  by (auto simp: one_bit_def bit_exp_iff)

lemma mode_bits_union:
  "one_bit 8 (bit m 8) OR one_bit 7 (bit m 7) OR (one_bit 6 (bit m 6) OR one_bit 11 (bit m 11)) OR
   one_bit 5 (bit m 5) OR one_bit 4 (bit m 4) OR (one_bit 3 (bit m 3) OR one_bit 10 (bit m 10)) OR
   one_bit 2 (bit m 2) OR one_bit 1 (bit m 1) OR (one_bit 0 (bit m 0) OR one_bit 9 (bit m 9)) = m AND mask 12"
    (is "?l = ?r")
proof (rule bit_word_eqI)
  fix n assume n: "n < LENGTH(32)"
  have mem: "n < 12 \<longleftrightarrow> n \<in> {0, 1, 2, 3, 4, 5, 6, 7, 8, 9, 10, 11}" by (auto simp: numeral_eq_Suc less_Suc_eq)
  show "bit ?l n = bit ?r n"
  proof (cases "n < 12")
    case True
    then have "n \<in> {0, 1, 2, 3, 4, 5, 6, 7, 8, 9, 10, 11}" using mem by simp
    then show ?thesis
      by (elim insertE emptyE) (simp_all add: bit_or_iff bit_and_iff bit_mask_iff)
  next
    case False
    moreover have "n \<notin> {0, 1, 2, 3, 4, 5, 6, 7, 8, 9, 10, 11}" using mem False by simp
    ultimately show ?thesis by (simp add: bit_or_iff bit_and_iff bit_mask_iff)
  qed
qed

lemma mode_constants:
  "(if b then S_ISUID else 0) = one_bit 11 b" "(if b then S_ISGID else 0) = one_bit 10 b"
  "(if b then S_ISVTX else 0) = one_bit 9 b" "(if b then S_IRUSR else 0) = one_bit 8 b"
  "(if b then S_IWUSR else 0) = one_bit 7 b" "(if b then S_IXUSR else 0) = one_bit 6 b"
  "(if b then S_IRGRP else 0) = one_bit 5 b" "(if b then S_IWGRP else 0) = one_bit 4 b"
  "(if b then S_IXGRP else 0) = one_bit 3 b" "(if b then S_IROTH else 0) = one_bit 2 b"
  "(if b then S_IWOTH else 0) = one_bit 1 b" "(if b then S_IXOTH else 0) = one_bit 0 b"
  by (simp_all add: one_bit_def S_ISUID_def S_ISGID_def S_ISVTX_def S_IRUSR_def S_IWUSR_def S_IXUSR_def
      S_IRGRP_def S_IWGRP_def S_IXGRP_def S_IROTH_def S_IWOTH_def S_IXOTH_def)

lemma parse_mode_string:
  assumes "ty \<noteq> UNKNOWN"
  shows "parse_file_mode (mode_string ty m) = Some (ty, m AND mask 12)"
proof -
  have "parse_mode_bits mode_switches (tl (mode_string ty m)) 0 = Some (m AND mask 12)"
    unfolding mode_bits_union [symmetric]
    by (simp add: mode_switches_def mode_string_def map_of_flag map_of_exec mode_constants or.assoc
        del: map_of.simps)
  moreover have "map_of [(CHR ''-'', PLAINFILE), (CHR ''d'', DIRECTORY), (CHR ''l'', SYMLINK)]
      (hd (mode_string ty m)) = Some ty"
    using assms by (cases ty) (simp_all add: mode_string_def)
  moreover have "mode_string ty m = hd (mode_string ty m) # tl (mode_string ty m)"
    by (simp add: mode_string_def)
  ultimately show ?thesis
    unfolding parse_file_mode_def by (metis (no_types, lifting) list.simps(5) option.simps(5))
qed

section \<open>Rows in the long format\<close>

definition word_tok :: "string \<Rightarrow> bool" where
  "word_tok t \<longleftrightarrow> t \<noteq> [] \<and> CHR '' '' \<notin> set t"

lemma strtok_word:
  assumes "word_tok t"
  shows "strtok (Some (t @ CHR '' '' # r)) = Some (t, Some r)"
proof -
  have t: "\<forall>c \<in> set t. c \<noteq> CHR '' ''" using assms by (auto simp: word_tok_def)
  have "dropWhile (\<lambda>c. c = CHR '' '') (t @ CHR '' '' # r) = t @ CHR '' '' # r"
    using assms by (cases t) (auto simp: word_tok_def)
  then show ?thesis
    using t assms by (simp add: strtok_def dropWhile_append takeWhile_append Let_def word_tok_def)
qed

lemma strtok_last:
  assumes "word_tok t"
  shows "strtok (Some t) = Some (t, None)"
proof -
  have t: "\<forall>c \<in> set t. c \<noteq> CHR '' ''" using assms by (auto simp: word_tok_def)
  have "dropWhile (\<lambda>c. c = CHR '' '') t = t"
    using assms by (cases t) (auto simp: word_tok_def)
  then show ?thesis
    using t assms by (simp add: strtok_def Let_def word_tok_def)
qed

lemma strtok_blanks:
  "strtok (Some (replicate n (CHR '' '') @ s)) = strtok (Some s)"
  by (induction n) (simp_all add: strtok_def)

fun dec :: "nat \<Rightarrow> string" where
  "dec n = (if n < 10 then [char_of (48 + n)] else dec (n div 10) @ [char_of (48 + n mod 10)])"

declare dec.simps [simp del]

lemma of_char_digit: "k < 10 \<Longrightarrow> of_char (char_of (48 + k :: nat)) = (of_nat (48 + k) :: 'a :: {linordered_euclidean_semiring_bit_operations})"
  by (subst of_nat_of_char [symmetric]) simp

lemma isdigit_digit: "k < 10 \<Longrightarrow> isdigit (char_of (48 + k :: nat))"
  by (simp add: isdigit_def)

lemma dec_digits: "c \<in> set (dec n) \<Longrightarrow> isdigit c"
  by (induction n rule: dec.induct) (subst (asm) dec.simps, auto simp: isdigit_digit split: if_splits)

lemma dec_not_Nil [simp]: "dec n \<noteq> []"
  by (subst dec.simps) simp

lemma digits_val_dec: "digits_val (dec n) = int n"
proof (induction n rule: dec.induct)
  case (1 n)
  have "digits_val [char_of (48 + k)] = int k" if "k < 10" for k :: nat
    using that by (simp add: digits_val_def of_char_digit)
  moreover have "digits_val (xs @ [char_of (48 + k)]) = 10 * digits_val xs + int k" if "k < 10" for k :: nat and xs
    using that by (simp add: digits_val_def of_char_digit)
  ultimately show ?case
    using 1 by (subst dec.simps) (auto simp: zdiv_int zmod_int)
qed

lemma isdigit_not: "isdigit c \<Longrightarrow> c \<noteq> CHR '' '' \<and> \<not> isspace c \<and> c \<noteq> CHR ''-'' \<and> c \<noteq> CHR ''+'' \<and> c \<noteq> CHR '':''"
  by (auto simp: isdigit_def isspace_def)

lemma scan_int_dec:
  assumes "r = [] \<or> \<not> isdigit (hd r)"
  shows "scan_int (dec n @ r) = Some (int n, r)"
proof -
  obtain d ds where d: "dec n = d # ds" by (cases "dec n") auto
  have dig: "\<forall>c \<in> set (dec n). isdigit c" using dec_digits by blast
  have "takeWhile isdigit (dec n @ r) = dec n" "dropWhile isdigit (dec n @ r) = r"
    using dig assms by (cases r; simp)+
  moreover have "isdigit d" using dig d by simp
  ultimately show ?thesis
    using d isdigit_not [of d] digits_val_dec [of n] by (simp add: scan_int_def ch_def Let_def)
qed

lemma strtol_dec: "int n < 2 ^ 63 \<Longrightarrow> strtol (dec n) = (int n, [])"
  using scan_int_dec [of "[]" n] by (simp add: strtol_def)

lemma scan_d_dec: "int n < 2 ^ 31 \<Longrightarrow> r = [] \<or> \<not> isdigit (hd r) \<Longrightarrow> scan_d (dec n @ r) = Ret (Some (int n, r))"
  using scan_int_dec [of r n] by (simp add: scan_d_def)

lemma word_tok_dec [simp]: "word_tok (dec n)"
  using dec_digits [of "CHR '' ''" n] isdigit_not by (auto simp: word_tok_def)

lemma word_tok_mode [simp]: "word_tok (mode_string ty m)"
  by (cases ty) (simp_all add: word_tok_def mode_string_def flag_char_def exec_char_def)

lemma months_cases: "i < 12 \<Longrightarrow> word_tok (months ! i) \<and> month_index (months ! i) months = Some i \<and>
    snd (strtol (months ! i)) \<noteq> []"
proof -
  assume "i < 12"
  then have "i \<in> {0, 1, 2, 3, 4, 5, 6, 7, 8, 9, 10, 11}" by (auto simp: numeral_eq_Suc less_Suc_eq)
  then show ?thesis
    by (elim insertE emptyE) (simp_all add: months_def word_tok_def strtol_def scan_int_def ch_def isspace_def isdigit_def)
qed

text \<open>The fields in front of the time, with or without the group.\<close>

definition row_head ::
  "sp_ftype \<Rightarrow> 32 word \<Rightarrow> string \<Rightarrow> string \<Rightarrow> string option \<Rightarrow> nat \<Rightarrow> nat \<Rightarrow> nat \<Rightarrow> string \<Rightarrow> string" where
  "row_head ty m links user grp sz mon day r =
     mode_string ty m @ '' '' @ links @ '' '' @ user @ '' '' @
     (case grp of None \<Rightarrow> [] | Some g \<Rightarrow> g @ '' '') @
     dec sz @ '' '' @ (months ! mon) @ '' '' @ dec day @ '' '' @ r"

lemma parse_size_month_ok:
  assumes "mon < 12" "int sz < 2 ^ 63" "\<forall>g. grp = Some g \<longrightarrow> word_tok g"
  shows "parse_size_month (Some ((case grp of None \<Rightarrow> [] | Some g \<Rightarrow> g @ '' '') @
     dec sz @ '' '' @ (months ! mon) @ '' '' @ r)) = Ret (int sz, months ! mon, Some r)"
  using assms months_cases [OF assms(1)] strtol_dec [OF assms(2)]
  by (cases grp) (auto simp: parse_size_month_def strtok_word Let_def split: prod.split)

lemma parse_row_head:
  assumes "ty \<noteq> UNKNOWN" "word_tok links" "word_tok user" "\<forall>g. grp = Some g \<longrightarrow> word_tok g"
    "mon < 12" "int sz < 2 ^ 63" "int day < 2 ^ 31"
  shows "parse_row c True (row_head ty m links user grp sz mon day r) =
    bindO (parse_time_field c (int mon) (int day) (Some r)) (parse_row_name c ty (m AND mask 12) (int sz))"
proof -
  let ?r1 = "dec day @ '' '' @ r"
  let ?r2 = "(case grp of None \<Rightarrow> [] | Some g \<Rightarrow> g @ '' '') @ dec sz @ '' '' @ (months ! mon) @ '' '' @ ?r1"
  have t1: "strtok (Some (row_head ty m links user grp sz mon day r)) =
      Some (mode_string ty m, Some (links @ '' '' @ user @ '' '' @ ?r2))"
    using strtok_word [of "mode_string ty m" "links @ '' '' @ user @ '' '' @ ?r2"] by (simp add: row_head_def)
  have t2: "strtok (Some (links @ '' '' @ user @ '' '' @ ?r2)) = Some (links, Some (user @ '' '' @ ?r2))"
    and t3: "strtok (Some (user @ '' '' @ ?r2)) = Some (user, Some ?r2)"
    and t4: "strtok (Some ?r1) = Some (dec day, Some r)"
    using assms(2,3) by (simp_all add: strtok_word)
  have d: "scan_d (dec day) = Ret (Some (int day, []))" using scan_d_dec [of day "[]"] assms(7) by simp
  show ?thesis
    unfolding parse_row_def t1
    using parse_mode_string [OF assms(1), of m] parse_size_month_ok [OF assms(5,6,4), of ?r1]
      months_cases [OF assms(5)]
    by (simp del: append.simps add: t2 t3 t4 d Let_def)
qed

text \<open>The name of a row: for a link the target follows.\<close>

definition name_field :: "string \<Rightarrow> string option \<Rightarrow> string" where
  "name_field name lnk = name @ (case lnk of None \<Rightarrow> [] | Some t \<Rightarrow> '' -> '' @ t)"

definition name_ok :: "sp_ftype \<Rightarrow> string \<Rightarrow> string option \<Rightarrow> bool" where
  "name_ok ty name lnk \<longleftrightarrow> name \<noteq> [] \<and>
     (case lnk of
        None \<Rightarrow> ty \<noteq> SYMLINK \<and> last name \<noteq> CHR ''*'' \<and> (ty = DIRECTORY \<longrightarrow> last name \<noteq> CHR ''/'')
      | Some t \<Rightarrow> ty = SYMLINK \<and> CHR ''>'' \<notin> set name \<and> t \<noteq> [] \<and> last t \<noteq> CHR ''*'')"

lemma strstr_arrow: "CHR ''>'' \<notin> set name \<Longrightarrow> strstr (name @ '' -> '' @ t) '' -> '' = Some ('' -> '' @ t)"
proof (induction name)
  case (Cons c name)
  have "\<not> is_prefix '' -> '' ((c # name) @ '' -> '' @ t)"
    using Cons.prems by (cases name; cases "tl name") (auto simp: is_prefix_append)
  then show ?case using Cons by simp
qed simp

lemma parse_name_field:
  assumes "name_ok ty name lnk"
  shows "parse_name ty (name_field name lnk) = Ret (name, lnk)"
proof (cases lnk)
  case None
  then show ?thesis using assms by (simp add: parse_name_def name_ok_def name_field_def strip_last_def)
next
  case (Some t)
  then have "strip_last (CHR ''*'') (name @ '' -> '' @ t) = name @ '' -> '' @ t"
    using assms by (simp add: strip_last_def name_ok_def)
  then show ?thesis
    using assms Some strstr_arrow [of name t] by (simp add: parse_name_def name_ok_def name_field_def Let_def)
qed

lemma name_field_not_Nil: "name_ok ty name lnk \<Longrightarrow> name_field name lnk \<noteq> []"
  by (simp add: name_ok_def name_field_def)

lemma parse_time_field_year:
  "int y < 2 ^ 31 \<Longrightarrow> parse_time_field c mon d (Some (dec y @ '' '' @ r)) =
     Ret (\<lparr>tm_mon = mon, tm_mday = d, tm_year = int y, tm_hour = 0, tm_min = 0, tm_sec = 0\<rparr>, SECSPERDAY, Some r)"
  using scan_d_dec [of y "[]"] by (simp add: parse_time_field_def strtok_word numeral_3_eq_3 ch_def)

lemma word_tok_clock: "word_tok (dec h @ '':'' @ dec mi)"
  using word_tok_dec [of h] word_tok_dec [of mi] by (auto simp: word_tok_def simp del: word_tok_dec)

lemma parse_time_field_clock:
  "int h < 2 ^ 31 \<Longrightarrow> int mi < 2 ^ 31 \<Longrightarrow> parse_time_field c mon d (Some (dec h @ '':'' @ dec mi @ '' '' @ r)) =
     Ret (\<lparr>tm_mon = mon, tm_mday = d, tm_year = guess_year c mon, tm_hour = int h, tm_min = int mi, tm_sec = 0\<rparr>,
       SECSPERMIN, Some r)"
  using scan_d_dec [of mi "[]"] scan_d_dec [of h "'':'' @ dec mi"] strtok_word [OF word_tok_clock, of h mi r]
  by (simp add: parse_time_field_def numeral_3_eq_3 ch_def isdigit_def)

lemma parse_row_dated:
  assumes "ty \<noteq> UNKNOWN" "word_tok links" "word_tok user" "\<forall>g. grp = Some g \<longrightarrow> word_tok g"
    "mon < 12" "int sz < 2 ^ 63" "int day < 2 ^ 31" "1900 \<le> year" "int year < 2 ^ 31" "name_ok ty name lnk"
  shows "parse_row c True (row_head ty m links user grp sz mon day (dec year @ '' '' @ name_field name lnk)) =
    Ret \<lparr>spf_time = mktime c \<lparr>tm_mon = int mon, tm_mday = int day, tm_year = int year - 1900,
           tm_hour = 0, tm_min = 0, tm_sec = 0\<rparr>,
         spf_tgranul = SECSPERDAY, spf_type = ty, spf_opt = 0, spf_size = int sz, spf_mode = m AND mask 12,
         spf_name = name, spf_symlink = lnk, spf_orig_name = None\<rparr>"
  using parse_time_field_year [OF assms(9)] name_field_not_Nil [OF assms(10)] parse_name_field [OF assms(10)] assms(8)
  by (simp add: parse_row_head [OF assms(1-7)] parse_row_name_def del: append.simps)

section \<open>Properties\<close>

text \<open>The clock of the examples: January 2000.\<close>

definition clock_2000 :: clock where
  "clock_2000 = \<lparr>mktime = (\<lambda>t. tm_mday t), now_mon = 0, now_year = 100\<rparr>"

text \<open>
  C20. Reading back a mode string: \<open>parse_file_mode\<close> recovers the type and all twelve permission
  bits from what \<open>ls -l\<close> prints for them.
\<close>

theorem parse_file_mode_roundtrip:
  assumes "ty \<noteq> UNKNOWN"
  shows "parse_file_mode (mode_string ty m) = Some (ty, m AND mask 12)"
  by (rule parse_mode_string [OF assms])

theorem parse_file_mode_roundtrip_witness:
  "parse_file_mode (mode_string DIRECTORY 0x3ED) = Some (DIRECTORY, 0x3ED AND mask 12)"
  by (rule parse_file_mode_roundtrip) simp

text \<open>
  C21. A row in the long format with a year, with or without a group field, is read back field by
  field: type, mode, size, date at the granularity of a day, the name with its spaces and the
  target of a link.
\<close>

theorem parse_row_year:
  assumes "ty \<noteq> UNKNOWN" "word_tok links" "word_tok user" "\<forall>g. grp = Some g \<longrightarrow> word_tok g"
    "mon < 12" "int sz < 2 ^ 63" "int day < 2 ^ 31" "1900 \<le> year" "int year < 2 ^ 31" "name_ok ty name lnk"
  shows "parse_row c True (row_head ty m links user grp sz mon day (dec year @ '' '' @ name_field name lnk)) =
    Ret \<lparr>spf_time = mktime c \<lparr>tm_mon = int mon, tm_mday = int day, tm_year = int year - 1900,
           tm_hour = 0, tm_min = 0, tm_sec = 0\<rparr>,
         spf_tgranul = SECSPERDAY, spf_type = ty, spf_opt = 0, spf_size = int sz, spf_mode = m AND mask 12,
         spf_name = name, spf_symlink = lnk, spf_orig_name = None\<rparr>"
  by (rule parse_row_dated [OF assms])

theorem parse_row_year_witness:
  "parse_row clock_2000 True (row_head SYMLINK 0x1FF ''1'' ''ftp'' (Some ''staff'') 11 0 9 (dec 1999 @ '' '' @ name_field ''a b'' (Some ''x/y''))) =
    Ret \<lparr>spf_time = mktime clock_2000 \<lparr>tm_mon = int 0, tm_mday = int 9, tm_year = int 1999 - 1900,
           tm_hour = 0, tm_min = 0, tm_sec = 0\<rparr>,
         spf_tgranul = SECSPERDAY, spf_type = SYMLINK, spf_opt = 0, spf_size = int 11, spf_mode = 0x1FF AND mask 12,
         spf_name = ''a b'', spf_symlink = Some ''x/y'', spf_orig_name = None\<rparr>"
  by (rule parse_row_year) (simp_all add: word_tok_def name_ok_def)

text \<open>
  A row with a time of day is read back the same way at the granularity of a minute, in the
  current year, or in the last one if its month is still to come.
\<close>

theorem parse_row_clock:
  assumes "ty \<noteq> UNKNOWN" "word_tok links" "word_tok user" "\<forall>g. grp = Some g \<longrightarrow> word_tok g"
    "mon < 12" "int sz < 2 ^ 63" "int day < 2 ^ 31" "int h < 2 ^ 31" "int mi < 2 ^ 31" "name_ok ty name lnk"
    "now_year c < 1900"
  shows "parse_row c True (row_head ty m links user grp sz mon day (dec h @ '':'' @ dec mi @ '' '' @ name_field name lnk)) =
    Ret \<lparr>spf_time = mktime c \<lparr>tm_mon = int mon, tm_mday = int day,
           tm_year = (if now_mon c < int mon then now_year c - 1 else now_year c),
           tm_hour = int h, tm_min = int mi, tm_sec = 0\<rparr>,
         spf_tgranul = SECSPERMIN, spf_type = ty, spf_opt = 0, spf_size = int sz, spf_mode = m AND mask 12,
         spf_name = name, spf_symlink = lnk, spf_orig_name = None\<rparr>"
  using parse_time_field_clock [OF assms(8,9)] name_field_not_Nil [OF assms(10)] parse_name_field [OF assms(10)] assms(11)
  by (simp add: parse_row_head [OF assms(1-7)] parse_row_name_def guess_year_def del: append.simps)

theorem parse_row_clock_witness:
  "parse_row clock_2000 True (row_head PLAINFILE 0x1A4 ''1'' ''ftp'' None 11 5 9 (dec 12 @ '':'' @ dec 30 @ '' '' @ name_field ''a'' None)) =
    Ret \<lparr>spf_time = mktime clock_2000 \<lparr>tm_mon = int 5, tm_mday = int 9,
           tm_year = (if now_mon clock_2000 < int 5 then now_year clock_2000 - 1 else now_year clock_2000),
           tm_hour = int 12, tm_min = int 30, tm_sec = 0\<rparr>,
         spf_tgranul = SECSPERMIN, spf_type = PLAINFILE, spf_opt = 0, spf_size = int 11, spf_mode = 0x1A4 AND mask 12,
         spf_name = ''a'', spf_symlink = None, spf_orig_name = None\<rparr>"
  by (rule parse_row_clock) (simp_all add: word_tok_def name_ok_def clock_2000_def)

text \<open>
  A row that ends with the year makes the parser read behind the end of the line: the check
  against the end of the row is passed by one byte too far.
\<close>

theorem parse_row_without_name:
  assumes "ty \<noteq> UNKNOWN" "word_tok links" "word_tok user" "\<forall>g. grp = Some g \<longrightarrow> word_tok g"
    "mon < 12" "int sz < 2 ^ 63" "int day < 2 ^ 31" "int year < 2 ^ 31"
  shows "parse_row c True (row_head ty m links user grp sz mon day (dec year)) = Undef"
proof -
  have "strtok (Some (dec year)) = Some (dec year, None)"
    by (rule strtok_last) simp
  then have "parse_time_field c (int mon) (int day) (Some (dec year)) =
      Ret (\<lparr>tm_mon = int mon, tm_mday = int day, tm_year = int year, tm_hour = 0, tm_min = 0, tm_sec = 0\<rparr>, SECSPERDAY, None)"
    using scan_d_dec [of year "[]"] assms(8) by (simp add: parse_time_field_def numeral_3_eq_3 ch_def)
  then show ?thesis by (simp add: parse_row_head [OF assms(1-7)] parse_row_name_def)
qed

theorem parse_row_without_name_witness:
  "parse_row clock_2000 True (row_head PLAINFILE 0x1A4 ''1'' ''ftp'' None 11 5 9 (dec 1999)) = Undef"
  by (rule parse_row_without_name) (simp_all add: word_tok_def)

end
