(* ===== verification/Jftp.thy ===== *)
theory Jftp
  imports Parserow "HOL-Library.Monad_Syntax"
begin

text \<open>
  The FTP client jftp.c: the control connection and its replies, login, directory changes,
  the data connection and the transfer of files and listings. The configuration is the one
  with \<open>SO_RCVTIMEO\<close> and without \<open>INET6\<close>; the messages to the log are left out. The sockets and
  files are a parameter, as the system calls are. A server may send continuation lines for
  ever, so the functions that read replies take fuel and return \<open>None\<close> when it runs out.
\<close>

section \<open>The connection and the network\<close>

definition JFTP_BUF :: nat where "JFTP_BUF = 16384"
definition JFTP_TIMEOUT_VAL :: int where "JFTP_TIMEOUT_VAL = 120"
definition JFTP_BROKEN :: int where "JFTP_BROKEN = 1"
definition JFTP_WRITEERR :: int where "JFTP_WRITEERR = 4"
definition JFTP_TIMEOUT :: int where "JFTP_TIMEOUT = 5"
definition JFTP_ERR :: int where "JFTP_ERR = 6"
definition JFTP_ERRNO :: int where "JFTP_ERRNO = 7"
definition JFTP_TEMPFILE :: string where "JFTP_TEMPFILE = ''jftp-dir.XXXXXX''"
definition JFTP_DIR :: string where "JFTP_DIR = ''/tmp''"

lemmas jftp_codes = JFTP_BROKEN_def JFTP_WRITEERR_def JFTP_TIMEOUT_def JFTP_ERR_def JFTP_ERRNO_def

text \<open>\<open>ftp_buf\<close> holds the last line of a reply or the last block of data.\<close>

record ftp_con =
  ftp_com :: int
  ftp_data :: int
  ftp_listen :: int
  ftp_remote_host :: string
  ftp_user_name :: string
  ftp_password :: string
  ftp_remote_dir :: "string option"
  ftp_buf :: string
  ftp_tempdir :: string
  ftp_retries :: int
  ftp_timeout :: int
  ftp_timed_out :: bool
  ftp_port :: int
  ftp_verbose :: int
  ftp_passive :: bool
  ftp_resp :: int
  ftp_recd :: "64 word"
  ftp_sent :: "64 word"
  ftp_relogins :: int
  ftp_downloads :: int
  ftp_timeouts :: int

text \<open>
  Reading returns the bytes (none at the end of the stream) or an error, with a flag for
  \<open>EWOULDBLOCK\<close>, which is how a timeout shows; writing returns the number of bytes. The calls are
  repeated on \<open>EINTR\<close> inside. Addresses and ports are lists of byte values.
\<close>

record 'w net_ops =
  n_write :: "int \<Rightarrow> string \<Rightarrow> 'w \<Rightarrow> nat option \<times> bool \<times> 'w"
  n_read :: "int \<Rightarrow> nat \<Rightarrow> 'w \<Rightarrow> string option \<times> bool \<times> 'w"
  n_close :: "int \<Rightarrow> 'w \<Rightarrow> 'w"
  n_socket :: "'w \<Rightarrow> int \<times> 'w"
  n_gethost :: "'w \<Rightarrow> string \<Rightarrow> int list option"
  n_connect :: "int \<Rightarrow> int list \<Rightarrow> int list \<Rightarrow> 'w \<Rightarrow> bool \<times> 'w"
  n_getsockname :: "'w \<Rightarrow> int \<Rightarrow> (int list \<times> int list) option"
  n_bind :: "int \<Rightarrow> 'w \<Rightarrow> bool \<times> 'w"
  n_listen :: "int \<Rightarrow> 'w \<Rightarrow> bool \<times> 'w"
  n_accept :: "int \<Rightarrow> 'w \<Rightarrow> int \<times> 'w"
  n_select :: "int \<Rightarrow> int \<Rightarrow> 'w \<Rightarrow> int \<times> 'w"
  n_rcvtimeo :: "int \<Rightarrow> int \<Rightarrow> 'w \<Rightarrow> bool \<times> 'w"
  n_fopen :: "string \<Rightarrow> bool \<Rightarrow> 'w \<Rightarrow> int option \<times> 'w"
  n_fseek :: "int \<Rightarrow> nat \<Rightarrow> 'w \<Rightarrow> bool \<times> 'w"
  n_fwrite :: "int \<Rightarrow> string \<Rightarrow> 'w \<Rightarrow> nat \<times> 'w"
  n_fclose :: "int \<Rightarrow> 'w \<Rightarrow> 'w"
  n_mkstemp :: "string \<Rightarrow> 'w \<Rightarrow> (int \<times> string) option \<times> 'w"
  n_wrfd :: "int \<Rightarrow> string \<Rightarrow> 'w \<Rightarrow> bool \<times> 'w"
  n_unlink :: "string \<Rightarrow> 'w \<Rightarrow> 'w"

section \<open>Settings\<close>

definition ftp_set_timeout_val :: "ftp_con \<Rightarrow> int \<Rightarrow> ftp_con" where
  "ftp_set_timeout_val c n = c\<lparr>ftp_timeout := (if n < 0 then 150 else n)\<rparr>"

definition ftp_set_passive :: "ftp_con \<Rightarrow> bool \<Rightarrow> ftp_con" where
  "ftp_set_passive c passive = c\<lparr>ftp_passive := passive\<rparr>"

definition ftp_set_tempdir :: "ftp_con \<Rightarrow> string \<Rightarrow> ftp_con" where
  "ftp_set_tempdir c tempdir = c\<lparr>ftp_tempdir := tempdir\<rparr>"

section \<open>Requests and replies\<close>

text \<open>\<open>FD_CLOSE\<close> on each of the three descriptors.\<close>

definition close_com :: "'w net_ops \<Rightarrow> ftp_con \<times> 'w \<Rightarrow> ftp_con \<times> 'w" where
  "close_com nt = (\<lambda>(c, w). if ftp_com c \<noteq> - 1 then (c\<lparr>ftp_com := - 1\<rparr>, n_close nt (ftp_com c) w) else (c, w))"

definition close_listen :: "'w net_ops \<Rightarrow> ftp_con \<times> 'w \<Rightarrow> ftp_con \<times> 'w" where
  "close_listen nt = (\<lambda>(c, w). if ftp_listen c \<noteq> - 1 then (c\<lparr>ftp_listen := - 1\<rparr>, n_close nt (ftp_listen c) w) else (c, w))"

definition close_data :: "'w net_ops \<Rightarrow> ftp_con \<times> 'w \<Rightarrow> ftp_con \<times> 'w" where
  "close_data nt = (\<lambda>(c, w). if ftp_data c \<noteq> - 1 then (c\<lparr>ftp_data := - 1\<rparr>, n_close nt (ftp_data c) w) else (c, w))"

definition ftp_write :: "'w net_ops \<Rightarrow> ftp_con \<Rightarrow> int \<Rightarrow> string \<Rightarrow> 'w \<Rightarrow> nat option \<times> ftp_con \<times> 'w" where
  "ftp_write nt c fd buf w =
     (let (res, wouldblock, w) = n_write nt fd buf w in
      (res, c\<lparr>ftp_timed_out := (res = None \<and> wouldblock)\<rparr>, w))"

definition ftp_read :: "'w net_ops \<Rightarrow> ftp_con \<Rightarrow> int \<Rightarrow> nat \<Rightarrow> 'w \<Rightarrow> string option \<times> ftp_con \<times> 'w" where
  "ftp_read nt c fd nbytes w =
     (let (res, wouldblock, w) = n_read nt fd nbytes w in
      (res, c\<lparr>ftp_timed_out := (res = None \<and> wouldblock)\<rparr>, w))"

text \<open>The label \<open>io_err\<close> of \<open>ftp_req\<close>.\<close>

definition ftp_io_err :: "'w net_ops \<Rightarrow> ftp_con \<Rightarrow> 'w \<Rightarrow> int \<times> ftp_con \<times> 'w" where
  "ftp_io_err nt c w =
     (let c = c\<lparr>ftp_resp := (if ftp_timed_out c then JFTP_TIMEOUT else JFTP_BROKEN)\<rparr> in
      (- 1, close_data nt (close_listen nt (close_com nt (c, w)))))"

text \<open>
  What a complete line does: the status it sets, and whether it makes the reply a multi-line one.
  A status below 100 ends the request, which is \<open>None\<close>.
\<close>

definition reply_line :: "string \<Rightarrow> bool \<Rightarrow> (int \<times> bool) option" where
  "reply_line buf islongtext =
     (if isdigit (ch buf 0) \<and> isdigit (ch buf 1) \<and> isdigit (ch buf 2)
      then let ftp_status = digits_val (take 3 buf) in
        if ch buf 3 = CHR ''-'' \<or> ch buf 3 = CHR '' ''
        then if ftp_status < 100 then None else Some (ftp_status, ch buf 3 = CHR ''-'')
        else Some (ftp_status, islongtext)
      else Some (0, islongtext))"

text \<open>
  The loop that reads the reply byte by byte; \<open>buf\<close> is the line read so far.
\<close>

fun ftp_req_loop :: "nat \<Rightarrow> 'w net_ops \<Rightarrow> ftp_con \<Rightarrow> string \<Rightarrow> bool \<Rightarrow> 'w \<Rightarrow> (int \<times> ftp_con \<times> 'w) option" where
  "ftp_req_loop 0 nt c buf islongtext w = None"
| "ftp_req_loop (Suc n) nt c buf islongtext w =
     (let (done, c, w) = ftp_read nt c (ftp_com c) 1 w in
      case done of
        None \<Rightarrow> Some (ftp_io_err nt c w)
      | Some [] \<Rightarrow> Some (ftp_io_err nt c w)
      | Some (b # bs) \<Rightarrow>
        (let c = c\<lparr>ftp_recd := ftp_recd c + 1\<rparr> in
         if b \<noteq> CHR 0x0A
         then let buf = buf @ [b]; c = c\<lparr>ftp_buf := buf\<rparr> in
           if length buf < JFTP_BUF then ftp_req_loop n nt c buf islongtext w
           else Some (- 1, c\<lparr>ftp_resp := JFTP_ERR\<rparr>, w)
         else let c = c\<lparr>ftp_buf := buf\<rparr> in
           (case reply_line buf islongtext of
              None \<Rightarrow> Some (- 1, c\<lparr>ftp_resp := JFTP_ERR\<rparr>, w)
            | Some (ftp_status, islongtext) \<Rightarrow>
              if islongtext then ftp_req_loop n nt c [] islongtext w
              else if ftp_status = 0 then Some (- 1, c\<lparr>ftp_resp := JFTP_ERR\<rparr>, w)
              else Some (0, c\<lparr>ftp_resp := ftp_status\<rparr>, w))))"

text \<open>
  \<open>req\<close> is the formatted command, or \<open>None\<close> for \<open>JFTP_RESPONSE\<close>, which only reads a reply.
\<close>

definition ftp_req :: "nat \<Rightarrow> 'w net_ops \<Rightarrow> ftp_con \<Rightarrow> string option \<Rightarrow> 'w \<Rightarrow> (int \<times> ftp_con \<times> 'w) option" where
  "ftp_req n nt c req w =
     (case req of
        None \<Rightarrow> ftp_req_loop n nt (c\<lparr>ftp_buf := []\<rparr>) [] False w
      | Some cmd \<Rightarrow>
        (let buf = take (JFTP_BUF - 1) (cmd @ [CHR 0x0D, CHR 0x0A]);
             (res, c, w) = ftp_write nt (c\<lparr>ftp_buf := buf\<rparr>) (ftp_com c) buf w in
         case res of
           None \<Rightarrow> Some (ftp_io_err nt c w)
         | Some k \<Rightarrow>
           if k = 0 then Some (ftp_io_err nt c w)
           else ftp_req_loop n nt (c\<lparr>ftp_sent := ftp_sent c + of_nat k, ftp_buf := []\<rparr>) [] False w))"

text \<open>The pattern of most callers: the request, then \<open>JFTP_ERR\<close> unless the reply is expected.\<close>

definition ftp_expect ::
  "nat \<Rightarrow> 'w net_ops \<Rightarrow> ftp_con \<Rightarrow> string option \<Rightarrow> int \<Rightarrow> 'w \<Rightarrow> (int \<times> ftp_con \<times> 'w) option" where
  "ftp_expect n nt c req code w = do {
     (res, c, w) \<leftarrow> ftp_req n nt c req w;
     Some (if res < 0 then (res, c, w)
           else if ftp_resp c \<noteq> code then (- 1, c\<lparr>ftp_resp := JFTP_ERR\<rparr>, w)
           else (0, c, w)) }"

definition ftp_cd :: "nat \<Rightarrow> 'w net_ops \<Rightarrow> bool \<Rightarrow> ftp_con \<Rightarrow> string \<Rightarrow> 'w \<Rightarrow> (int \<times> ftp_con \<times> 'w) option" where
  "ftp_cd n nt ok c dir w =
     (if \<not> ok then Some (- 1, c\<lparr>ftp_resp := JFTP_ERRNO\<rparr>, w)
      else ftp_expect n nt (c\<lparr>ftp_remote_dir := Some dir\<rparr>) (Some (''CWD '' @ dir)) 250 w)"

section \<open>Login\<close>

text \<open>
  One step of the login: a request whose reply must be among \<open>codes\<close>. On failure the control
  connection is closed and the result is \<open>Inl\<close>.
\<close>

definition login_step ::
  "nat \<Rightarrow> 'w net_ops \<Rightarrow> string option \<Rightarrow> int list \<Rightarrow> ftp_con \<times> 'w \<Rightarrow> ((ftp_con \<times> 'w) + (ftp_con \<times> 'w)) option" where
  "login_step n nt req codes = (\<lambda>(c, w). do {
     (res, c, w) \<leftarrow> ftp_req n nt c req w;
     Some (if res < 0 \<or> ftp_resp c \<notin> set codes
           then let (c, w) = close_com nt (c, w) in Inl (c\<lparr>ftp_resp := JFTP_ERR\<rparr>, w)
           else Inr (c, w)) })"

text \<open>The greeting, user, password and type requests, then the change to the remembered directory.\<close>

definition ftp_login_dialog :: "nat \<Rightarrow> 'w net_ops \<Rightarrow> bool \<Rightarrow> ftp_con \<Rightarrow> 'w \<Rightarrow> (int \<times> ftp_con \<times> 'w) option" where
  "ftp_login_dialog n nt ok c w = do {
     r \<leftarrow> login_step n nt None [220] (c, w);
     case r of Inl (c, w) \<Rightarrow> Some (- 1, c, w)
     | Inr (c, w) \<Rightarrow> do {
       r \<leftarrow> login_step n nt (Some (''user '' @ ftp_user_name c)) [331, 230] (c, w);
       case r of Inl (c, w) \<Rightarrow> Some (- 1, c, w)
       | Inr (c, w) \<Rightarrow> do {
         r \<leftarrow> (if ftp_resp c \<noteq> 230 then login_step n nt (Some (''pass '' @ ftp_password c)) [230] (c, w)
              else Some (Inr (c, w)));
         case r of Inl (c, w) \<Rightarrow> Some (- 1, c, w)
         | Inr (c, w) \<Rightarrow> do {
           r \<leftarrow> login_step n nt (Some ''TYPE I'') [200] (c\<lparr>ftp_resp := 0\<rparr>, w);
           case r of Inl (c, w) \<Rightarrow> Some (- 1, c, w)
           | Inr (c, w) \<Rightarrow>
             (case ftp_remote_dir c of None \<Rightarrow> Some (0, c, w)
              | Some d \<Rightarrow> if d \<noteq> ''/'' then ftp_cd n nt ok c d w else Some (0, c, w)) } } } }"

definition port_bytes :: "int \<Rightarrow> int list" where
  "port_bytes p = [p div 256 mod 256, p mod 256]"

definition ftp_relogin :: "nat \<Rightarrow> 'w net_ops \<Rightarrow> bool \<Rightarrow> ftp_con \<Rightarrow> 'w \<Rightarrow> (int \<times> ftp_con \<times> 'w) option" where
  "ftp_relogin n nt ok c w =
     (let c = c\<lparr>ftp_relogins := ftp_relogins c + 1\<rparr>;
          (c, w) = close_data nt (close_listen nt (close_com nt (c, w)));
          (fd, w) = n_socket nt w; c = c\<lparr>ftp_com := fd\<rparr> in
      if fd < 0 then Some (- 1, c\<lparr>ftp_resp := JFTP_ERR\<rparr>, w)
      else case n_gethost nt w (ftp_remote_host c) of
        None \<Rightarrow> (let (c, w) = close_com nt (c, w) in Some (- 1, c\<lparr>ftp_resp := JFTP_ERR\<rparr>, w))
      | Some addr \<Rightarrow>
        (let (connected, w) = n_connect nt fd addr (port_bytes (ftp_port c)) w in
         if \<not> connected
         then let (c, w) = close_com nt (c, w) in Some (- 1, c\<lparr>ftp_resp := JFTP_ERR\<rparr>, w)
         else ftp_login_dialog n nt ok c w))"

text \<open>\<open>ok\<close> says whether the four \<open>strdup\<close> succeed; a failed \<open>calloc\<close> is not checked. \<open>None\<close> is \<open>NULL\<close>.\<close>

definition ftp_login ::
  "nat \<Rightarrow> 'w net_ops \<Rightarrow> bool \<Rightarrow> string \<Rightarrow> int \<Rightarrow> string \<Rightarrow> string \<Rightarrow> int \<Rightarrow> 'w \<Rightarrow> (ftp_con option \<times> 'w) option" where
  "ftp_login n nt ok host port username password verbose w =
     (if \<not> ok then Some (None, w)
      else do {
        (res, c, w) \<leftarrow> ftp_relogin n nt ok
          \<lparr>ftp_com = - 1, ftp_data = - 1, ftp_listen = - 1, ftp_remote_host = host,
           ftp_user_name = username, ftp_password = password, ftp_remote_dir = None, ftp_buf = [],
           ftp_tempdir = JFTP_DIR, ftp_retries = 20, ftp_timeout = JFTP_TIMEOUT_VAL,
           ftp_timed_out = False, ftp_port = port, ftp_verbose = verbose, ftp_passive = False,
           ftp_resp = 0, ftp_recd = 0, ftp_sent = 0, ftp_relogins = - 1, ftp_downloads = 0,
           ftp_timeouts = 0\<rparr> w;
        Some (if res < 0 then None else Some c, w) })"

section \<open>The data connection\<close>

text \<open>\<open>sscanf (p, "(%d,%d,%d,%d,%d,%d", ...)\<close> on the reply to \<open>PASV\<close>, from the first parenthesis on.\<close>

fun scan_commas :: "nat \<Rightarrow> string \<Rightarrow> int list outcome" where
  "scan_commas 0 s = Ret []"
| "scan_commas (Suc k) s =
     bindO (scan_d s) (\<lambda>r. case r of None \<Rightarrow> Ret []
       | Some (n, rest) \<Rightarrow>
         if ch rest 0 = CHR '','' then bindO (scan_commas k (tl rest)) (\<lambda>ns. Ret (n # ns)) else Ret [n])"

definition parse_pasv :: "string \<Rightarrow> (int list \<times> int list) option outcome" where
  "parse_pasv buf =
     (case dropWhile (\<lambda>b. b \<noteq> CHR ''('') (takeWhile (\<lambda>b. b \<noteq> CHR 0x00) buf) of [] \<Rightarrow> Ret None
      | b # p \<Rightarrow> bindO (scan_commas 6 p) (\<lambda>ns.
          Ret (if length ns = 6 then Some (map (\<lambda>n. n mod 256) (take 4 ns), map (\<lambda>n. n mod 256) (drop 4 ns))
               else None)))"

text \<open>A decimal number as \<open>%d\<close> prints it.\<close>

definition show_int :: "int \<Rightarrow> string" where
  "show_int n = (if n < 0 then ''-'' @ dec (nat (- n)) else dec (nat n))"

definition port_command :: "int list \<Rightarrow> int list \<Rightarrow> string" where
  "port_command addr port = ''PORT '' @ concat (map (\<lambda>n. show_int n @ '','') (addr @ butlast port)) @ show_int (last port)"

text \<open>Active transfers: the listening socket and the \<open>PORT\<close> command.\<close>

definition ftp_port_active :: "nat \<Rightarrow> 'w net_ops \<Rightarrow> ftp_con \<Rightarrow> 'w \<Rightarrow> (int \<times> ftp_con \<times> 'w) option" where
  "ftp_port_active n nt c w =
     (let (c, w) = close_listen nt (c, w); (fd, w) = n_socket nt w; c = c\<lparr>ftp_listen := fd\<rparr> in
      if fd < 0 then Some (- 1, c\<lparr>ftp_listen := - 1, ftp_resp := JFTP_BROKEN\<rparr>, w)
      else let (bound, w) = n_bind nt fd w in
        if \<not> bound
        then let (c, w) = close_com nt (close_listen nt (c\<lparr>ftp_resp := JFTP_BROKEN\<rparr>, w)) in Some (- 1, c, w)
        else case n_getsockname nt w fd of
          None \<Rightarrow> (let (c, w) = close_com nt (close_listen nt (c, w)) in Some (- 1, c\<lparr>ftp_resp := JFTP_BROKEN\<rparr>, w))
        | Some (addr, port) \<Rightarrow>
          (let (listening, w) = n_listen nt fd w in
           if \<not> listening
           then let (c, w) = close_com nt (close_listen nt (c, w)) in Some (- 1, c\<lparr>ftp_resp := JFTP_BROKEN\<rparr>, w)
           else do {
             (res, c, w) \<leftarrow> ftp_expect n nt c (Some (port_command addr port)) 200 w;
             Some (if res < 0 then (let (c, w) = close_listen nt (c, w) in (- 1, c, w)) else (0, c, w)) }))"

text \<open>Passive transfers: the \<open>PASV\<close> command and the connection to the address it names.\<close>

definition ftp_port_passive :: "nat \<Rightarrow> 'w net_ops \<Rightarrow> ftp_con \<Rightarrow> 'w \<Rightarrow> (int \<times> ftp_con \<times> 'w) option" where
  "ftp_port_passive n nt c w = do {
     (res, c, w) \<leftarrow> ftp_expect n nt c (Some ''PASV'') 227 w;
     if res < 0 then Some (- 1, c, w)
     else case parse_pasv (ftp_buf c) of
       Ret None \<Rightarrow> Some (- 1, c\<lparr>ftp_resp := JFTP_ERR\<rparr>, w)
     | Ret (Some (addr, port)) \<Rightarrow>
       (let (c, w) = close_data nt (c, w); (fd, w) = n_socket nt w; c = c\<lparr>ftp_data := fd\<rparr> in
        if fd < 0 then Some (- 1, c\<lparr>ftp_resp := JFTP_ERR\<rparr>, w)
        else let (connected, w) = n_connect nt fd addr port w in
          if \<not> connected
          then let (c, w) = close_data nt (c, w) in Some (- 1, c\<lparr>ftp_resp := JFTP_ERR\<rparr>, w)
          else Some (0, c, w))
     | _ \<Rightarrow> None }"

definition ftp_port_cmd :: "nat \<Rightarrow> 'w net_ops \<Rightarrow> ftp_con \<Rightarrow> 'w \<Rightarrow> (int \<times> ftp_con \<times> 'w) option" where
  "ftp_port_cmd n nt c w =
     (let c = c\<lparr>ftp_downloads := ftp_downloads c + 1\<rparr> in
      if n_getsockname nt w (ftp_com c) = None
      then let (c, w) = close_com nt (c, w) in Some (- 1, c\<lparr>ftp_resp := JFTP_BROKEN\<rparr>, w)
      else if \<not> ftp_passive c then ftp_port_active n nt c w
      else ftp_port_passive n nt c w)"

text \<open>
  The wait for the server's connection in an active transfer: \<open>Inl\<close> is an early return of \<open>-1\<close>.
\<close>

definition ftp_accept_data :: "'w net_ops \<Rightarrow> ftp_con \<Rightarrow> 'w \<Rightarrow> (ftp_con \<times> 'w) + (ftp_con \<times> 'w)" where
  "ftp_accept_data nt c w =
     (if ftp_data c = - 1 \<and> ftp_listen c \<noteq> - 1
      then let (res, w) = n_select nt (ftp_listen c) (ftp_timeout c) w in
        if res < 0 then Inl (c\<lparr>ftp_resp := JFTP_ERR\<rparr>, w)
        else if res = 0
        then let (c, w) = close_listen nt (c, w) in
          Inl (c\<lparr>ftp_resp := JFTP_TIMEOUT, ftp_timeouts := ftp_timeouts c + 1\<rparr>, w)
        else let (fd, w) = n_accept nt (ftp_listen c) w;
                 (c, w) = close_listen nt (c\<lparr>ftp_data := fd\<rparr>, w) in
          if fd < 0 then Inl (c\<lparr>ftp_data := - 1, ftp_resp := JFTP_BROKEN\<rparr>, w)
          else let (set, w) = n_rcvtimeo nt fd (ftp_timeout c) w in
            if \<not> set then let (c, w) = close_data nt (c, w) in Inl (c\<lparr>ftp_resp := JFTP_ERR\<rparr>, w)
            else Inr (c, w)
      else Inr (c, w))"

text \<open>The bytes go to \<open>ftp_buf\<close> and their number to \<open>ftp_resp\<close>.\<close>

definition ftp_read_data :: "'w net_ops \<Rightarrow> ftp_con \<Rightarrow> 'w \<Rightarrow> int \<times> ftp_con \<times> 'w" where
  "ftp_read_data nt c w =
     (case ftp_accept_data nt c w of
        Inl (c, w) \<Rightarrow> (- 1, c, w)
      | Inr (c, w) \<Rightarrow>
        (let (done, c, w) = ftp_read nt c (ftp_data c) JFTP_BUF w in
         case done of
           None \<Rightarrow> (let (c, w) = close_data nt (c, w) in
             (- 1, c\<lparr>ftp_resp := (if ftp_timed_out c then JFTP_TIMEOUT else JFTP_BROKEN)\<rparr>, w))
         | Some bs \<Rightarrow>
             (0, c\<lparr>ftp_buf := bs, ftp_recd := ftp_recd c + of_nat (length bs), ftp_resp := int (length bs)\<rparr>, w)))"

section \<open>Transfers\<close>

text \<open>
  The loop that copies the data connection to a file. \<open>put\<close> writes one block and says whether
  the code takes its result for an error. The result is \<open>Inl\<close> with \<open>True\<close> for a failed write,
  \<open>Inl\<close> with \<open>False\<close> for a failed read, and \<open>Inr\<close> at the end of the data.
\<close>

fun copy_loop ::
  "nat \<Rightarrow> 'w net_ops \<Rightarrow> (string \<Rightarrow> 'w \<Rightarrow> bool \<times> 'w) \<Rightarrow> ftp_con \<Rightarrow> 'w \<Rightarrow> ((bool \<times> ftp_con \<times> 'w) + (ftp_con \<times> 'w)) option" where
  "copy_loop 0 nt put c w = None"
| "copy_loop (Suc n) nt put c w =
     (if 0 < ftp_resp c
      then let (failed, w) = put (ftp_buf c) w in
        if failed then Some (Inl (True, c, w))
        else let (res, c, w) = ftp_read_data nt c w in
          if res < 0 then Some (Inl (False, c, w)) else copy_loop n nt put c w
      else Some (Inr (c, w)))"

text \<open>The label \<open>ret_bad\<close> of \<open>ftp_get\<close>.\<close>

definition get_bad :: "'w net_ops \<Rightarrow> int \<Rightarrow> ftp_con \<Rightarrow> 'w \<Rightarrow> int \<times> ftp_con \<times> 'w" where
  "get_bad nt fp c w = (let (c, w) = close_data nt (close_listen nt (c, w)) in (- 1, c, n_fclose nt fp w))"

text \<open>\<open>fwrite\<close> returns an unsigned count; the code compares it with 0 as a signed value.\<close>

definition get_put :: "'w net_ops \<Rightarrow> int \<Rightarrow> string \<Rightarrow> 'w \<Rightarrow> bool \<times> 'w" where
  "get_put nt fp buf w = (let (res, w) = n_fwrite nt fp buf w in (int res < 0, w))"

text \<open>From the \<open>RETR\<close> command on; \<open>fp\<close> is open and the data connection is set up.\<close>

definition ftp_retrieve :: "nat \<Rightarrow> 'w net_ops \<Rightarrow> int \<Rightarrow> ftp_con \<Rightarrow> string \<Rightarrow> 'w \<Rightarrow> (int \<times> ftp_con \<times> 'w) option" where
  "ftp_retrieve n nt fp c remote_file w = do {
     (res, c, w) \<leftarrow> ftp_expect n nt c (Some (''RETR '' @ remote_file)) 150 w;
     if res < 0 then Some (get_bad nt fp c w)
     else let (res, c, w) = ftp_read_data nt c w in
       if res < 0 then Some (get_bad nt fp c w)
       else do {
         r \<leftarrow> copy_loop n nt (get_put nt fp) c w;
         case r of
           Inl (True, c, w) \<Rightarrow> do {
             (res, c, w) \<leftarrow> ftp_req n nt c None w;
             Some (get_bad nt fp (c\<lparr>ftp_resp := JFTP_WRITEERR\<rparr>) w) }
         | Inl (False, c, w) \<Rightarrow> Some (get_bad nt fp c w)
         | Inr (c, w) \<Rightarrow>
           (let w = n_fclose nt fp w; (c, w) = close_data nt (close_listen nt (c, w)) in do {
             (res, c, w) \<leftarrow> ftp_req n nt c None w;
             Some (if res < 0 then (let (c, w) = close_com nt (c, w) in get_bad nt fp (c\<lparr>ftp_resp := JFTP_BROKEN\<rparr>) w)
                   else if ftp_resp c \<noteq> 226 then get_bad nt fp (c\<lparr>ftp_resp := JFTP_ERR\<rparr>) w
                   else (0, c, w)) }) } }"

definition ftp_get ::
  "nat \<Rightarrow> 'w net_ops \<Rightarrow> ftp_con \<Rightarrow> string \<Rightarrow> string \<Rightarrow> nat \<Rightarrow> 'w \<Rightarrow> (int \<times> ftp_con \<times> 'w) option" where
  "ftp_get n nt c local_file remote_file seekto w =
     (let (f, w) = n_fopen nt local_file (0 < seekto) w in
      case f of None \<Rightarrow> Some (- 1, c\<lparr>ftp_resp := JFTP_WRITEERR\<rparr>, w)
      | Some fp \<Rightarrow>
        (let (sought, w) = (if 0 < seekto then n_fseek nt fp seekto w else (True, w)) in
         if \<not> sought then Some (- 1, c\<lparr>ftp_resp := JFTP_ERRNO\<rparr>, w)
         else do {
           (res, c, w) \<leftarrow> ftp_port_cmd n nt c w;
           if res < 0
           then Some (get_bad nt fp (if ftp_resp c \<noteq> JFTP_BROKEN \<and> ftp_resp c \<noteq> JFTP_TIMEOUT
                                     then c\<lparr>ftp_resp := JFTP_ERR\<rparr> else c) w)
           else do {
             (res, c, w) \<leftarrow> (if 0 < seekto then ftp_expect n nt c (Some (''REST '' @ dec seekto)) 350 w
                            else Some (0, c, w));
             if res < 0 then Some (get_bad nt fp c w)
             else ftp_retrieve n nt fp c remote_file w } }))"

text \<open>The exits of \<open>ftp_dir2\<close>: close what is open, remove the file, return \<open>NULL\<close>.\<close>

definition dir_bad :: "'w net_ops \<Rightarrow> int \<Rightarrow> string \<Rightarrow> ftp_con \<Rightarrow> 'w \<Rightarrow> string option \<times> ftp_con \<times> 'w" where
  "dir_bad nt fd tmp c w = (None, c, n_unlink nt tmp (n_close nt fd w))"

definition dir_bad_close :: "'w net_ops \<Rightarrow> int \<Rightarrow> string \<Rightarrow> ftp_con \<Rightarrow> 'w \<Rightarrow> string option \<times> ftp_con \<times> 'w" where
  "dir_bad_close nt fd tmp c w = (let (c, w) = close_data nt (close_listen nt (c, w)) in dir_bad nt fd tmp c w)"

definition dir_put :: "'w net_ops \<Rightarrow> int \<Rightarrow> string \<Rightarrow> 'w \<Rightarrow> bool \<times> 'w" where
  "dir_put nt fd buf w = (let (ok, w) = n_wrfd nt fd buf w in (\<not> ok, w))"

definition ftp_dir2 ::
  "nat \<Rightarrow> 'w net_ops \<Rightarrow> bool \<Rightarrow> ftp_con \<Rightarrow> string \<Rightarrow> string \<Rightarrow> 'w \<Rightarrow> (string option \<times> ftp_con \<times> 'w) option" where
  "ftp_dir2 n nt ok c flags dir w =
     (if \<not> ok then Some (None, c\<lparr>ftp_resp := JFTP_ERRNO\<rparr>, w)
      else let (f, w) = n_mkstemp nt (ftp_tempdir c @ ''/'' @ JFTP_TEMPFILE) w in
        case f of None \<Rightarrow> Some (None, c\<lparr>ftp_resp := JFTP_WRITEERR\<rparr>, w)
        | Some (fd, tmp) \<Rightarrow> do {
          (res, c, w) \<leftarrow> ftp_port_cmd n nt c w;
          if res < 0 then Some (dir_bad_close nt fd tmp c w)
          else do {
            (res, c, w) \<leftarrow> ftp_expect n nt c
              (Some (if dir = ''.'' \<or> dir = [] then ''list '' @ flags else ''list '' @ flags @ '' '' @ dir)) 150 w;
            if res < 0 then Some (dir_bad_close nt fd tmp c w)
            else let (res, c, w) = ftp_read_data nt c w in
              if res < 0 then Some (dir_bad nt fd tmp c w)
              else do {
                r \<leftarrow> copy_loop n nt (dir_put nt fd) c w;
                case r of
                  Inl (True, c, w) \<Rightarrow>
                    (let (_, c, w) = dir_bad_close nt fd tmp (c\<lparr>ftp_resp := JFTP_WRITEERR\<rparr>) w in do {
                      (res, c, w) \<leftarrow> ftp_req n nt c None w;
                      Some (None, c, w) })
                | Inl (False, c, w) \<Rightarrow> Some (dir_bad_close nt fd tmp c w)
                | Inr (c, w) \<Rightarrow>
                  (let (c, w) = close_data nt (close_listen nt (c, n_close nt fd w)) in do {
                    (res, c, w) \<leftarrow> ftp_req n nt c None w;
                    Some (if res < 0
                      then (let (c, w) = close_com nt (c, w) in (None, c\<lparr>ftp_resp := JFTP_BROKEN\<rparr>, n_unlink nt tmp w))
                      else if ftp_resp c \<noteq> 226 then (None, c, n_unlink nt tmp w)
                      else (Some tmp, c, w)) }) } } })"

text \<open>\<open>strlcpy\<close> of a \<open>NULL\<close> \<open>ftp_remote_dir\<close> is undefined, which is \<open>None\<close> here as well.\<close>

definition ftp_dir ::
  "nat \<Rightarrow> 'w net_ops \<Rightarrow> bool \<Rightarrow> ftp_con \<Rightarrow> string \<Rightarrow> 'w \<Rightarrow> (string option \<times> ftp_con \<times> 'w) option" where
  "ftp_dir n nt ok c dir w = do {
     d \<leftarrow> ftp_remote_dir c;
     let buf = take (PATH_MAX - 1) d;
     (res, c, w) \<leftarrow> ftp_cd n nt ok c dir w;
     if res < 0 then Some (None, c, w)
     else do {
       (tmp, c, w) \<leftarrow> ftp_dir2 n nt ok c ''-lag'' [] w;
       (res, c, w) \<leftarrow> ftp_cd n nt ok c buf w;
       Some (if res < 0 then None else tmp, c, w) } }"

definition ftp_bye :: "nat \<Rightarrow> 'w net_ops \<Rightarrow> ftp_con \<Rightarrow> 'w \<Rightarrow> (int \<times> ftp_con \<times> 'w) option" where
  "ftp_bye n nt c w = do {
     (res, c, w) \<leftarrow> ftp_req n nt c (Some ''quit'') w;
     let (c, w) = close_data nt (close_listen nt (close_com nt (c, w)));
     Some (if 0 \<le> res \<and> ftp_resp c = 221 then 0 else - 1, c, w) }"

section \<open>How requests end\<close>

text \<open>
  A request leaves the data and listening descriptors as they are or closes them; it returns 0,
  or \<open>-1\<close> with one of three codes.
\<close>

definition req_end :: "ftp_con \<Rightarrow> int \<Rightarrow> ftp_con \<Rightarrow> bool" where
  "req_end c r c' \<longleftrightarrow> ftp_data c' \<in> {ftp_data c, - 1} \<and> ftp_listen c' \<in> {ftp_listen c, - 1} \<and>
     (r = 0 \<or> r = - 1 \<and> ftp_resp c' \<in> {JFTP_BROKEN, JFTP_TIMEOUT, JFTP_ERR})"

lemmas close_defs = close_com_def close_listen_def close_data_def

lemma req_end_io_err: "ftp_io_err nt c w = (r, c', w') \<Longrightarrow> req_end c r c'"
  by (auto simp: ftp_io_err_def req_end_def close_defs Let_def split: if_splits)

lemma req_end_weaken:
  "req_end c1 r c' \<Longrightarrow> ftp_data c1 = ftp_data c \<Longrightarrow> ftp_listen c1 = ftp_listen c \<Longrightarrow> req_end c r c'"
  by (simp add: req_end_def)

lemma ftp_req_loop_end: "ftp_req_loop n nt c buf l w = Some (r, c', w') \<Longrightarrow> req_end c r c'"
proof (induction n arbitrary: c buf l w)
  case (Suc n)
  obtain dn bl w1 where rd: "n_read nt (ftp_com c) 1 w = (dn, bl, w1)" by (cases "n_read nt (ftp_com c) 1 w")
  define c1 where "c1 = c\<lparr>ftp_timed_out := (dn = None \<and> bl)\<rparr>"
  have c1: "ftp_data c1 = ftp_data c" "ftp_listen c1 = ftp_listen c" by (simp_all add: c1_def)
  show ?case
  proof (cases "dn = None \<or> dn = Some []")
    case True
    then have "ftp_io_err nt c1 w1 = (r, c', w')"
      using Suc.prems rd unfolding c1_def by (elim disjE) (simp_all add: ftp_read_def)
    then show ?thesis by (rule req_end_weaken [OF req_end_io_err c1])
  next
    case False
    then obtain b bs where b: "dn = Some (b # bs)" by (cases dn; cases "the dn") auto
    define c2 where "c2 = c1\<lparr>ftp_recd := ftp_recd c1 + 1, ftp_buf := (if b \<noteq> CHR 0x0A then buf @ [b] else buf)\<rparr>"
    have c2: "ftp_data c2 = ftp_data c" "ftp_listen c2 = ftp_listen c" by (simp_all add: c1_def c2_def)
    have "(\<exists>buf l. ftp_req_loop n nt c2 buf l w1 = Some (r, c', w')) \<or>
        (r = - 1 \<and> c' = c2\<lparr>ftp_resp := JFTP_ERR\<rparr>) \<or> (\<exists>st. r = 0 \<and> c' = c2\<lparr>ftp_resp := st\<rparr>)"
      using Suc.prems rd b
      by (auto simp: ftp_read_def c2_def c1_def Let_def split: if_splits option.splits)
    then show ?thesis
      using req_end_weaken [OF Suc.IH c2] c2 by (elim disjE exE conjE) (simp_all add: req_end_def)
  qed
qed simp

lemma ftp_req_end:
  assumes "ftp_req n nt c req w = Some (r, c', w')"
  shows "req_end c r c'"
proof (cases req)
  case None
  then show ?thesis using assms ftp_req_loop_end req_end_weaken by (fastforce simp: ftp_req_def)
next
  case (Some cmd)
  obtain res bl w1 where wr: "n_write nt (ftp_com c) (take (JFTP_BUF - 1) (cmd @ [CHR 0x0D, CHR 0x0A])) w = (res, bl, w1)"
    by (cases "n_write nt (ftp_com c) (take (JFTP_BUF - 1) (cmd @ [CHR 0x0D, CHR 0x0A])) w")
  show ?thesis
    using assms Some wr req_end_weaken [OF req_end_io_err] req_end_weaken [OF ftp_req_loop_end]
    by (fastforce simp: ftp_req_def ftp_write_def Let_def split: option.splits if_splits)
qed

lemma ftp_expect_end:
  assumes "ftp_expect n nt c req code w = Some (r, c', w')"
  shows "req_end c r c' \<and> (r = 0 \<longrightarrow> ftp_resp c' = code)"
  using assms ftp_req_end [of n nt c req w]
  by (auto simp: ftp_expect_def req_end_def bind_eq_Some_conv split: if_splits prod.splits)

lemma ftp_read_data_end:
  assumes "ftp_read_data nt c w = (r, c', w')"
  shows "r = 0 \<or> r = - 1 \<and> ftp_resp c' \<in> {JFTP_BROKEN, JFTP_TIMEOUT, JFTP_ERR}"
  using assms by (auto simp: ftp_read_data_def ftp_accept_data_def close_defs Let_def
      split: if_splits prod.splits sum.splits option.splits)

lemma copy_loop_end:
  assumes "copy_loop n nt put c w = Some x"
  shows "(\<forall>c' w'. x = Inl (False, c', w') \<longrightarrow> ftp_resp c' \<in> {JFTP_BROKEN, JFTP_TIMEOUT, JFTP_ERR}) \<and>
    ((\<forall>b w. \<not> fst (put b w)) \<longrightarrow> (\<forall>c' w'. x \<noteq> Inl (True, c', w')))"
  using assms
proof (induction n arbitrary: c w)
  case (Suc n)
  obtain failed w1 where p: "put (ftp_buf c) w = (failed, w1)" by (cases "put (ftp_buf c) w")
  obtain r c2 w2 where rd: "ftp_read_data nt c w1 = (r, c2, w2)" by (cases "ftp_read_data nt c w1")
  have f: "\<exists>b w. fst (put b w)" if failed using p that by (metis fst_conv)
  show ?case
    using Suc.prems Suc.IH [of c2 w2] p rd f ftp_read_data_end [OF rd] by (cases failed) (auto split: if_splits)
qed simp

lemma get_bad_end:
  "get_bad nt fp c w = (r, c', w') \<Longrightarrow> r = - 1 \<and> ftp_data c' = - 1 \<and> ftp_listen c' = - 1 \<and> ftp_resp c' = ftp_resp c"
  by (auto simp: get_bad_def close_defs Let_def split: if_splits)

lemma close_both_end:
  "close_data nt (close_listen nt (c, w)) = (c', w') \<Longrightarrow> ftp_data c' = - 1 \<and> ftp_listen c' = - 1"
  by (auto simp: close_defs split: if_splits)

text \<open>How \<open>ftp_get\<close> ends once the file is open: both descriptors closed and a code that fits.\<close>

definition get_end :: "int \<Rightarrow> ftp_con \<Rightarrow> bool" where
  "get_end r c' \<longleftrightarrow> ftp_data c' = - 1 \<and> ftp_listen c' = - 1 \<and>
     (r = 0 \<and> ftp_resp c' = 226 \<or> r = - 1 \<and> ftp_resp c' \<in> {JFTP_BROKEN, JFTP_TIMEOUT, JFTP_ERR})"

lemma get_bad_get_end:
  "get_bad nt fp c w = (r, c', w') \<Longrightarrow> ftp_resp c \<in> {JFTP_BROKEN, JFTP_TIMEOUT, JFTP_ERR} \<Longrightarrow> get_end r c'"
  using get_bad_end [of nt fp c w r c' w'] by (simp add: get_end_def)

lemma get_put_ok: "\<not> fst (get_put nt fp b w)"
  by (simp add: get_put_def split: prod.split)

lemma ftp_final_reply_end:
  assumes "do { (res, c, w) \<leftarrow> ftp_req n nt c0 None w0;
      Some (if res < 0 then (let (c, w) = close_com nt (c, w) in get_bad nt fp (c\<lparr>ftp_resp := JFTP_BROKEN\<rparr>) w)
            else if ftp_resp c \<noteq> 226 then get_bad nt fp (c\<lparr>ftp_resp := JFTP_ERR\<rparr>) w
            else (0, c, w)) } = Some (r, c', w')"
    and "ftp_data c0 = - 1" "ftp_listen c0 = - 1"
  shows "get_end r c'"
proof -
  obtain res c1 w1 where q: "ftp_req n nt c0 None w0 = Some (res, c1, w1)"
    using assms(1) by (auto simp: bind_eq_Some_conv)
  have e: "req_end c0 res c1" by (rule ftp_req_end [OF q])
  consider "res = - 1" | "res = 0" "ftp_resp c1 \<noteq> 226" | "res = 0" "ftp_resp c1 = 226"
    using e by (auto simp: req_end_def)
  then show ?thesis
  proof cases
    case 1
    obtain c2 w2 where "close_com nt (c1, w1) = (c2, w2)" by (cases "close_com nt (c1, w1)")
    then have "get_bad nt fp (c2\<lparr>ftp_resp := JFTP_BROKEN\<rparr>) w2 = (r, c', w')" using assms(1) q 1 by simp
    then show ?thesis by (rule get_bad_get_end) simp
  next
    case 2
    then have "get_bad nt fp (c1\<lparr>ftp_resp := JFTP_ERR\<rparr>) w1 = (r, c', w')" using assms(1) q by simp
    then show ?thesis by (rule get_bad_get_end) simp
  next
    case 3
    then show ?thesis using assms q e by (auto simp: req_end_def get_end_def)
  qed
qed

lemma ftp_retrieve_end:
  assumes "ftp_retrieve n nt fp c rf w = Some (r, c', w')"
  shows "get_end r c'"
proof -
  obtain res c1 w1 where q: "ftp_expect n nt c (Some (''RETR '' @ rf)) 150 w = Some (res, c1, w1)"
    using assms by (auto simp: ftp_retrieve_def bind_eq_Some_conv)
  obtain res2 c2 w2 where rd: "ftp_read_data nt c1 w1 = (res2, c2, w2)" by (cases "ftp_read_data nt c1 w1")
  have e: "req_end c res c1" using ftp_expect_end [OF q] by simp
  show ?thesis
  proof (cases "res < 0 \<or> res2 < 0")
    case True
    then have "get_bad nt fp c1 w1 = (r, c', w') \<and> res < 0 \<or> get_bad nt fp c2 w2 = (r, c', w') \<and> res2 < 0"
      using assms q rd by (auto simp: ftp_retrieve_def split: if_splits)
    then show ?thesis
    proof (elim disjE conjE)
      assume b: "get_bad nt fp c1 w1 = (r, c', w')" and "res < 0"
      then show ?thesis using e by (intro get_bad_get_end [OF b]) (auto simp: req_end_def)
    next
      assume b: "get_bad nt fp c2 w2 = (r, c', w')" and "res2 < 0"
      then show ?thesis using ftp_read_data_end [OF rd] by (intro get_bad_get_end [OF b]) auto
    qed
  next
    case False
    then obtain x where x: "copy_loop n nt (get_put nt fp) c2 w2 = Some x"
      using assms q rd by (auto simp: ftp_retrieve_def bind_eq_Some_conv)
    have no: "x \<noteq> Inl (True, c3, w3)" for c3 w3
      using copy_loop_end [OF x] by (simp add: get_put_ok)
    show ?thesis
    proof (cases x)
      case (Inl y)
      obtain b c3 w3 where "y = (b, c3, w3)" by (cases y)
      then have y: "y = (False, c3, w3)" using no [of c3 w3] Inl by (cases b) simp_all
      then have "get_bad nt fp c3 w3 = (r, c', w')"
        using assms q rd False x Inl by (simp add: ftp_retrieve_def)
      then show ?thesis using copy_loop_end [OF x] Inl y by (intro get_bad_get_end) auto
    next
      case (Inr y)
      obtain c3 w3 where y: "y = (c3, w3)" by (cases y)
      obtain c4 w4 where cl: "close_data nt (close_listen nt (c3, n_fclose nt fp w3)) = (c4, w4)"
        by (cases "close_data nt (close_listen nt (c3, n_fclose nt fp w3))")
      show ?thesis
        by (rule ftp_final_reply_end [of n nt c4 w4 fp r c' w'])
          (use assms q rd False x Inr y cl close_both_end [OF cl] in \<open>simp_all add: ftp_retrieve_def\<close>)
    qed
  qed
qed

section \<open>Replies byte by byte\<close>

text \<open>The bytes \<open>bs\<close> arrive on \<open>fd\<close>, one per call of \<open>read\<close>.\<close>

inductive reads :: "'w net_ops \<Rightarrow> int \<Rightarrow> string \<Rightarrow> 'w \<Rightarrow> 'w \<Rightarrow> bool" for nt fd where
  reads_Nil: "reads nt fd [] w w"
| reads_Cons: "n_read nt fd 1 w = (Some [b], bl, w1) \<Longrightarrow> reads nt fd bs w1 w2 \<Longrightarrow> reads nt fd (b # bs) w w2"

inductive_simps reads_Nil_simp [simp]: "reads nt fd [] w w'"
inductive_cases reads_ConsE: "reads nt fd (b # bs) w w'"

lemma reads_append: "reads nt fd (xs @ ys) w w' \<longleftrightarrow> (\<exists>w1. reads nt fd xs w w1 \<and> reads nt fd ys w1 w')"
proof (induction xs arbitrary: w)
  case (Cons x xs)
  show ?case
  proof
    assume "reads nt fd ((x # xs) @ ys) w w'"
    then obtain bl w1 where rd: "n_read nt fd 1 w = (Some [x], bl, w1)" "reads nt fd (xs @ ys) w1 w'"
      by (auto elim: reads_ConsE)
    then obtain w2 where "reads nt fd xs w1 w2" "reads nt fd ys w2 w'" using Cons.IH by blast
    then show "\<exists>w1. reads nt fd (x # xs) w w1 \<and> reads nt fd ys w1 w'"
      using reads_Cons [OF rd(1)] by auto
  next
    assume "\<exists>w1. reads nt fd (x # xs) w w1 \<and> reads nt fd ys w1 w'"
    then obtain w1 bl w2 where "reads nt fd ys w1 w'" "n_read nt fd 1 w = (Some [x], bl, w2)" "reads nt fd xs w2 w1"
      by (auto elim: reads_ConsE)
    then show "reads nt fd ((x # xs) @ ys) w w'"
      using Cons.IH [of w2] reads_Cons [of nt fd w x bl w2 "xs @ ys" w'] by auto
  qed
qed simp

definition LF :: string where "LF = [CHR 0x0A]"

text \<open>The connection after \<open>k\<close> more bytes and with the line \<open>buf\<close> in the buffer.\<close>

definition got :: "ftp_con \<Rightarrow> nat \<Rightarrow> string \<Rightarrow> ftp_con" where
  "got c k buf = c\<lparr>ftp_timed_out := False, ftp_recd := ftp_recd c + of_nat k, ftp_buf := buf\<rparr>"

lemma got_simps [simp]: "ftp_com (got c k buf) = ftp_com c" "got (got c k buf) k' buf' = got c (k + k') buf'"
  by (simp_all add: got_def add.assoc)

definition after_line :: "nat \<Rightarrow> 'w net_ops \<Rightarrow> ftp_con \<Rightarrow> string \<Rightarrow> bool \<Rightarrow> 'w \<Rightarrow> (int \<times> ftp_con \<times> 'w) option" where
  "after_line n nt c buf l w =
     (case reply_line buf l of
        None \<Rightarrow> Some (- 1, c\<lparr>ftp_resp := JFTP_ERR\<rparr>, w)
      | Some (ftp_status, l) \<Rightarrow>
        if l then ftp_req_loop n nt c [] l w
        else if ftp_status = 0 then Some (- 1, c\<lparr>ftp_resp := JFTP_ERR\<rparr>, w)
        else Some (0, c\<lparr>ftp_resp := ftp_status\<rparr>, w))"

lemma ftp_req_loop_line:
  assumes "reads nt (ftp_com c) (line @ LF) w w'" "CHR 0x0A \<notin> set line" "length buf + length line < JFTP_BUF"
  shows "ftp_req_loop (Suc (length line) + n) nt c buf l w =
    after_line n nt (got c (Suc (length line)) (buf @ line)) (buf @ line) l w'"
  using assms
proof (induction line arbitrary: c buf w)
  case Nil
  then show ?case
    by (auto simp: LF_def ftp_read_def got_def after_line_def elim!: reads_ConsE split: option.split)
next
  case (Cons b line)
  obtain bl w1 where rd: "n_read nt (ftp_com c) 1 w = (Some [b], bl, w1)" "reads nt (ftp_com c) (line @ LF) w1 w'"
    using Cons.prems(1) by (auto elim: reads_ConsE)
  let ?c = "got c 1 (buf @ [b])"
  have "ftp_req_loop (Suc (Suc (length line) + n)) nt c buf l w = ftp_req_loop (Suc (length line) + n) nt ?c (buf @ [b]) l w1"
    using rd(1) Cons.prems(2,3)
    by (subst ftp_req_loop.simps(2)) (auto simp: ftp_read_def got_def Let_def simp del: ftp_req_loop.simps(2))
  then show ?case
    using Cons.IH [of ?c w1 "buf @ [b]"] rd(2) Cons.prems(2,3) by (simp del: ftp_req_loop.simps(2))
qed

lemma length_dec3:
  assumes "100 \<le> k" "k < 1000"
  shows "length (dec k) = 3"
proof -
  have "\<not> k < 10" "\<not> k div 10 < 10" "k div 10 div 10 < 10" using assms by auto
  then show ?thesis
    by (simp only: dec.simps [of k] dec.simps [of "k div 10"] dec.simps [of "k div 10 div 10"] if_False if_True) simp
qed

lemma reply_line_code:
  assumes "100 \<le> k" "k < 1000"
  shows "reply_line (dec k @ '' '' @ t) l = Some (int k, False)" "reply_line (dec k @ ''-'' @ t) l = Some (int k, True)"
proof -
  obtain x y z where d: "dec k = [x, y, z]" using length_dec3 [OF assms] by (auto simp: length_Suc_conv numeral_3_eq_3)
  have "isdigit x" "isdigit y" "isdigit z" using dec_digits [of _ k] d by auto
  moreover have "digits_val [x, y, z] = int k" using digits_val_dec [of k] d by simp
  ultimately show "reply_line (dec k @ '' '' @ t) l = Some (int k, False)" "reply_line (dec k @ ''-'' @ t) l = Some (int k, True)"
    using assms unfolding d by (simp_all add: reply_line_def ch_def)
qed

text \<open>A reply as the protocol describes it, with one line or with several.\<close>

definition reply_bytes :: "nat \<Rightarrow> (string \<times> string list) option \<Rightarrow> string \<Rightarrow> string" where
  "reply_bytes k intro t =
     (case intro of None \<Rightarrow> [] | Some (t0, ms) \<Rightarrow> (dec k @ ''-'' @ t0) @ LF @ concat (map (\<lambda>m. m @ LF) ms)) @
     (dec k @ '' '' @ t) @ LF"

definition text_line :: "string \<Rightarrow> bool" where
  "text_line m \<longleftrightarrow> CHR 0x0A \<notin> set m \<and> length m + 4 < JFTP_BUF"

definition plain_line :: "string \<Rightarrow> bool" where
  "plain_line m \<longleftrightarrow> text_line m \<and> \<not> (isdigit (ch m 0) \<and> isdigit (ch m 1) \<and> isdigit (ch m 2))"

lemma ftp_req_loop_plain:
  assumes "reads nt (ftp_com c) (concat (map (\<lambda>m. m @ LF) ms)) w w'" "\<forall>m \<in> set ms. plain_line m"
  shows "\<exists>buf. ftp_req_loop (length (concat (map (\<lambda>m. m @ LF) ms)) + n) nt c [] True w =
    ftp_req_loop n nt (if ms = [] then c else got c (length (concat (map (\<lambda>m. m @ LF) ms))) buf) [] True w'"
  using assms
proof (induction ms arbitrary: c w)
  case (Cons m ms)
  let ?l = "\<lambda>ms. length (concat (map (\<lambda>m. m @ LF) ms))"
  obtain w1 where w1: "reads nt (ftp_com c) (m @ LF) w w1" "reads nt (ftp_com c) (concat (map (\<lambda>m. m @ LF) ms)) w1 w'"
    using Cons.prems(1) by (auto simp: reads_append)
  let ?c = "got c (Suc (length m)) m"
  have "reply_line m True = Some (0, True)" using Cons.prems(2) by (auto simp: reply_line_def plain_line_def)
  then have step: "ftp_req_loop (Suc (length m) + (?l ms + n)) nt c [] True w = ftp_req_loop (?l ms + n) nt ?c [] True w1"
    using ftp_req_loop_line [OF w1(1), of "[]" "?l ms + n" True] Cons.prems(2)
    by (simp add: after_line_def plain_line_def text_line_def del: ftp_req_loop.simps(2))
  obtain buf where "ftp_req_loop (?l ms + n) nt ?c [] True w1 =
      ftp_req_loop n nt (if ms = [] then ?c else got ?c (?l ms) buf) [] True w'"
    using Cons.IH [of ?c w1] w1(2) Cons.prems(2) by auto
  with step show ?case
    by (intro exI [of _ "if ms = [] then m else buf"]) (simp add: LF_def add.assoc del: ftp_req_loop.simps(2))
qed simp

lemma ftp_port_cmd_end:
  assumes "ftp_port_cmd n nt c w = Some (r, c', w')"
  shows "r = 0 \<or> r = - 1"
proof -
  have act: "r = 0 \<or> r = - 1" if "ftp_port_active n nt c0 w0 = Some (r, c', w')" for c0 w0
    using that by (auto simp: ftp_port_active_def Let_def bind_eq_Some_conv split: if_splits option.splits prod.splits)
  have pas: "r = 0 \<or> r = - 1" if "ftp_port_passive n nt c0 w0 = Some (r, c', w')" for c0 w0
    using that by (auto simp: ftp_port_passive_def Let_def bind_eq_Some_conv
        split: if_splits option.splits prod.splits outcome.splits)
  show ?thesis
    using assms act pas by (auto simp: ftp_port_cmd_def Let_def split: if_splits prod.splits)
qed

lemma ftp_get_open_end:
  assumes "ftp_get n nt c lf rf seekto w = Some (r, c', w')" "n_fopen nt lf (0 < seekto) w = (Some fp, w1)"
    "(if 0 < seekto then n_fseek nt fp seekto w1 else (True, w1)) = (True, w2)"
  shows "get_end r c'"
proof -
  obtain res c1 w3 where p: "ftp_port_cmd n nt c w2 = Some (res, c1, w3)"
    using assms by (auto simp: ftp_get_def bind_eq_Some_conv Let_def)
  show ?thesis
  proof (cases "res < 0")
    case True
    let ?c = "if ftp_resp c1 \<noteq> JFTP_BROKEN \<and> ftp_resp c1 \<noteq> JFTP_TIMEOUT then c1\<lparr>ftp_resp := JFTP_ERR\<rparr> else c1"
    have "get_bad nt fp ?c w3 = (r, c', w')" using assms p True by (simp add: ftp_get_def)
    then show ?thesis by (rule get_bad_get_end) simp
  next
    case False
    obtain res2 c2 w4 where q: "(if 0 < seekto then ftp_expect n nt c1 (Some (''REST '' @ dec seekto)) 350 w3
        else Some (0, c1, w3)) = Some (res2, c2, w4)"
      using assms p False by (auto simp: ftp_get_def bind_eq_Some_conv Let_def)
    show ?thesis
    proof (cases "res2 < 0")
      case True
      then have "0 < seekto" using q by (auto split: if_splits)
      then have "req_end c1 res2 c2"
        using q ftp_expect_end [of n nt c1 "Some (''REST '' @ dec seekto)" 350 w3 res2 c2 w4] by simp
      moreover have "get_bad nt fp c2 w4 = (r, c', w')" using assms p False q True by (simp add: ftp_get_def)
      ultimately show ?thesis using True by (intro get_bad_get_end) (auto simp: req_end_def)
    next
      case False2: False
      have "ftp_retrieve n nt fp c2 rf w4 = Some (r, c', w')" using assms p False q False2 by (simp add: ftp_get_def)
      then show ?thesis by (rule ftp_retrieve_end)
    qed
  qed
qed

lemma code_line_ok:
  "100 \<le> k \<Longrightarrow> k < 1000 \<Longrightarrow> text_line t \<Longrightarrow> b \<noteq> CHR 0x0A \<Longrightarrow>
   CHR 0x0A \<notin> set (dec k @ [b] @ t) \<and> length (dec k @ [b] @ t) < JFTP_BUF"
  using dec_digits [of "CHR 0x0A" k] length_dec3 [of k] by (auto simp: text_line_def isdigit_def)

lemma ftp_req_loop_last:
  assumes "100 \<le> k" "k < 1000" "text_line t" "reads nt (ftp_com c) ((dec k @ '' '' @ t) @ LF) w w'"
  shows "ftp_req_loop (Suc (length (dec k @ '' '' @ t)) + n) nt c [] l w =
    Some (0, (got c (Suc (length (dec k @ '' '' @ t))) (dec k @ '' '' @ t))\<lparr>ftp_resp := int k\<rparr>, w')"
proof -
  have "ftp_req_loop (Suc (length (dec k @ '' '' @ t)) + n) nt c [] l w =
    after_line n nt (got c (Suc (length (dec k @ '' '' @ t))) ([] @ dec k @ '' '' @ t)) ([] @ dec k @ '' '' @ t) l w'"
    by (rule ftp_req_loop_line) (use assms code_line_ok [OF assms(1-3), of "CHR '' ''"] in auto)
  then show ?thesis
    using reply_line_code(1) [OF assms(1,2), of t l] assms(1) by (simp add: after_line_def)
qed

lemma ftp_req_loop_reply:
  assumes "100 \<le> k" "k < 1000" "text_line t"
    "case intro of None \<Rightarrow> True | Some (t0, ms) \<Rightarrow> text_line t0 \<and> (\<forall>m \<in> set ms. plain_line m)"
    "reads nt (ftp_com c) (reply_bytes k intro t) w w'"
  shows "ftp_req_loop (length (reply_bytes k intro t) + n) nt c [] False w =
    Some (0, (got c (length (reply_bytes k intro t)) (dec k @ '' '' @ t))\<lparr>ftp_resp := int k\<rparr>, w')"
proof (cases intro)
  case None
  then show ?thesis
    using ftp_req_loop_last [OF assms(1-3), of nt c w w' n False] assms(5)
    by (simp add: reply_bytes_def LF_def del: ftp_req_loop.simps(2))
next
  case (Some x)
  obtain t0 ms where x: "x = (t0, ms)" by (cases x)
  let ?first = "dec k @ ''-'' @ t0" and ?last = "dec k @ '' '' @ t" and ?mid = "concat (map (\<lambda>m. m @ LF) ms)"
  obtain w1 w2 where w: "reads nt (ftp_com c) (?first @ LF) w w1" "reads nt (ftp_com c) ?mid w1 w2"
    "reads nt (ftp_com c) (?last @ LF) w2 w'"
  proof -
    have "reply_bytes k intro t = (?first @ LF) @ ?mid @ (?last @ LF)" using Some x by (simp add: reply_bytes_def)
    then show thesis
      using assms(5) that reads_append [of nt "ftp_com c" "?first @ LF" "?mid @ (?last @ LF)" w w']
        reads_append [of nt "ftp_com c" ?mid "?last @ LF" _ w'] by metis
  qed
  let ?n1 = "Suc (length ?last) + n" and ?c1 = "got c (Suc (length ?first)) ?first"
  have tl: "text_line t0" "\<forall>m \<in> set ms. plain_line m" using assms(4) Some x by auto
  have "ftp_req_loop (Suc (length ?first) + (length ?mid + ?n1)) nt c [] False w =
    after_line (length ?mid + ?n1) nt (got c (Suc (length ?first)) ([] @ ?first)) ([] @ ?first) False w1"
    by (rule ftp_req_loop_line) (use w(1) code_line_ok [OF assms(1,2) tl(1), of "CHR ''-''"] in auto)
  then have 1: "ftp_req_loop (Suc (length ?first) + (length ?mid + ?n1)) nt c [] False w =
      ftp_req_loop (length ?mid + ?n1) nt ?c1 [] True w1"
    using reply_line_code(2) [OF assms(1,2), of t0 False] by (simp add: after_line_def del: ftp_req_loop.simps(2))
  obtain buf where 2: "ftp_req_loop (length ?mid + ?n1) nt ?c1 [] True w1 =
      ftp_req_loop ?n1 nt (if ms = [] then ?c1 else got ?c1 (length ?mid) buf) [] True w2"
    using ftp_req_loop_plain [of nt ?c1 ms w1 w2 ?n1] w(2) tl(2) by auto
  let ?c2 = "if ms = [] then ?c1 else got ?c1 (length ?mid) buf"
  have 3: "ftp_req_loop ?n1 nt ?c2 [] True w2 = Some (0, (got ?c2 (Suc (length ?last)) ?last)\<lparr>ftp_resp := int k\<rparr>, w')"
    by (rule ftp_req_loop_last [OF assms(1-3)]) (use w(3) in simp)
  have len: "length (reply_bytes k intro t) + n = Suc (length ?first) + (length ?mid + ?n1)"
    using Some x by (simp add: reply_bytes_def LF_def)
  have "got ?c2 (Suc (length ?last)) ?last = got c (length (reply_bytes k intro t)) ?last"
    using len by (cases ms) (simp_all add: reply_bytes_def Some x LF_def algebra_simps)
  then show ?thesis unfolding len using 1 2 3 by (simp only:)
qed

section \<open>A sample server\<close>

text \<open>
  A server for the examples: the world is what it still sends on the control connection
  (descriptor 3) and on any other one.
\<close>

definition sample_net :: "(string \<times> string) net_ops" where
  "sample_net = \<lparr>n_write = (\<lambda>fd s w. (Some (length s), False, w)),
     n_read = (\<lambda>fd k (cs, ds). if fd = 3 then (Some (take k cs), False, (drop k cs, ds))
                               else (Some (take k ds), False, (cs, drop k ds))),
     n_close = (\<lambda>fd w. w), n_socket = (\<lambda>w. (4, w)), n_gethost = (\<lambda>w h. Some [127, 0, 0, 1]),
     n_connect = (\<lambda>fd a p w. (True, w)), n_getsockname = (\<lambda>w fd. Some ([127, 0, 0, 1], [4, 1])),
     n_bind = (\<lambda>fd w. (True, w)), n_listen = (\<lambda>fd w. (True, w)), n_accept = (\<lambda>fd w. (5, w)),
     n_select = (\<lambda>fd t w. (1, w)), n_rcvtimeo = (\<lambda>fd t w. (True, w)),
     n_fopen = (\<lambda>f a w. (Some 6, w)), n_fseek = (\<lambda>f k w. (True, w)), n_fwrite = (\<lambda>f s w. (0, w)),
     n_fclose = (\<lambda>f w. w), n_mkstemp = (\<lambda>p w. (Some (7, p), w)), n_wrfd = (\<lambda>fd s w. (True, w)),
     n_unlink = (\<lambda>p w. w)\<rparr>"

definition sample_con :: ftp_con where
  "sample_con = \<lparr>ftp_com = 3, ftp_data = - 1, ftp_listen = - 1, ftp_remote_host = ''ftp'',
     ftp_user_name = ''ftp'', ftp_password = ''a@b'', ftp_remote_dir = Some ''/'', ftp_buf = [],
     ftp_tempdir = JFTP_DIR, ftp_retries = 20, ftp_timeout = 120, ftp_timed_out = False, ftp_port = 21,
     ftp_verbose = 0, ftp_passive = False, ftp_resp = 0, ftp_recd = 0, ftp_sent = 0, ftp_relogins = 0,
     ftp_downloads = 0, ftp_timeouts = 0\<rparr>"

lemma sample_reads: "reads sample_net 3 bs (bs @ cs, ds) (cs, ds)"
  by (induction bs) (auto simp: sample_net_def intro!: reads_Nil reads_Cons)

section \<open>Properties\<close>

text \<open>
  C23. Reading a reply: when the server's next bytes are a reply with a code from 100 to 999, of
  one line or of several with text lines between, \<open>ftp_req\<close> returns 0 with the code in
  \<open>ftp_resp\<close> and the last line in \<open>ftp_buf\<close>, has counted every byte, and has consumed the reply
  and nothing behind it. The fuel needed is the length of the reply.
\<close>

theorem ftp_req_reply:
  assumes "100 \<le> k" "k < 1000" "text_line t"
    "case intro of None \<Rightarrow> True | Some (t0, ms) \<Rightarrow> text_line t0 \<and> (\<forall>m \<in> set ms. plain_line m)"
    "reads nt (ftp_com c) (reply_bytes k intro t) w w'" "length (reply_bytes k intro t) \<le> n"
  shows "ftp_req n nt c None w =
    Some (0, (got c (length (reply_bytes k intro t)) (dec k @ '' '' @ t))\<lparr>ftp_resp := int k\<rparr>, w')"
proof -
  obtain m where n: "n = length (reply_bytes k intro t) + m" using assms(6) le_Suc_ex by blast
  have "ftp_req_loop n nt (c\<lparr>ftp_buf := []\<rparr>) [] False w =
      Some (0, (got (c\<lparr>ftp_buf := []\<rparr>) (length (reply_bytes k intro t)) (dec k @ '' '' @ t))\<lparr>ftp_resp := int k\<rparr>, w')"
    unfolding n by (rule ftp_req_loop_reply) (use assms in simp_all)
  then show ?thesis by (simp add: ftp_req_def got_def del: ftp_req_loop.simps)
qed

theorem ftp_req_reply_witness:
  "ftp_req 100 sample_net sample_con None (reply_bytes 220 (Some (''hello'', ['' world'', ''''])) ''ready'' @ ''rest'', '''') =
    Some (0, (got sample_con (length (reply_bytes 220 (Some (''hello'', ['' world'', ''''])) ''ready'')) (dec 220 @ '' '' @ ''ready''))\<lparr>ftp_resp := int 220\<rparr>,
      (''rest'', ''''))"
proof (rule ftp_req_reply)
  show "reads sample_net (ftp_com sample_con) (reply_bytes 220 (Some (''hello'', ['' world'', ''''])) ''ready'')
      (reply_bytes 220 (Some (''hello'', ['' world'', ''''])) ''ready'' @ ''rest'', '''') (''rest'', '''')"
    using sample_reads by (simp add: sample_con_def)
  show "length (reply_bytes 220 (Some (''hello'', ['' world'', ''''])) ''ready'') \<le> 100"
    by (simp add: reply_bytes_def length_dec3 LF_def)
qed (simp_all add: text_line_def plain_line_def JFTP_BUF_def isdigit_def ch_def)


text \<open>The control dialogue of a download in the examples.\<close>

definition sample_dialogue :: string where
  "sample_dialogue = reply_bytes 200 None ''ok'' @ reply_bytes 150 None ''here'' @ reply_bytes 226 None ''done''"

lemma sample_get:
  "\<exists>c' w'. ftp_get 1000 sample_net sample_con ''./a'' ''a'' 0 (sample_dialogue, ''data'') = Some (0, c', w') \<and>
     ftp_resp c' = 226"
proof -
  have "map_option (\<lambda>(r, c, w). (r, ftp_resp c))
      (ftp_get 1000 sample_net sample_con ''./a'' ''a'' 0 (sample_dialogue, ''data'')) = Some (0, 226)"
    by code_simp
  then show ?thesis by auto
qed


text \<open>
  Errors of writing the local file go unnoticed: once the file is open, \<open>ftp_get\<close> never
  reports \<open>JFTP_WRITEERR\<close>, whatever \<open>fwrite\<close> returns, because its unsigned result is tested for
  being negative.
\<close>

theorem ftp_get_write_errors_lost:
  assumes "ftp_get n nt c local_file remote_file 0 w = Some (r, c', w')"
    "n_fopen nt local_file False w = (Some fp, w1)"
  shows "ftp_resp c' \<noteq> JFTP_WRITEERR"
proof -
  have "get_end r c'" by (rule ftp_get_open_end [OF assms(1)]) (use assms(2) in simp_all)
  then show ?thesis by (auto simp: get_end_def jftp_codes)
qed

theorem ftp_get_write_errors_lost_witness:
  "\<exists>c' w'. ftp_get 1000 sample_net sample_con ''./a'' ''a'' 0 (sample_dialogue, ''data'') = Some (0, c', w') \<and>
     ftp_resp c' \<noteq> JFTP_WRITEERR"
proof -
  obtain c' w' where g: "ftp_get 1000 sample_net sample_con ''./a'' ''a'' 0 (sample_dialogue, ''data'') = Some (0, c', w')"
    using sample_get by blast
  show ?thesis using ftp_get_write_errors_lost [OF g, of 6 "(sample_dialogue, ''data'')"] g by (auto simp: sample_net_def)
qed

text \<open>
  \<open>ftp_dir\<close> hides the reason of a failed listing: when the listing fails and the change back
  to the old directory succeeds, it returns \<open>NULL\<close> with the code 250 of that change in
  \<open>ftp_resp\<close>, which the caller takes for an unexpected error.
\<close>

theorem ftp_dir_masks_error:
  assumes "ftp_remote_dir c = Some d" "ftp_cd n nt ok c dir w = Some (0, c1, w1)"
    "ftp_dir2 n nt ok c1 ''-lag'' [] w1 = Some (None, c2, w2)"
    "ftp_cd n nt ok c2 (take (PATH_MAX - 1) d) w2 = Some (0, c3, w3)"
  shows "ftp_dir n nt ok c dir w = Some (None, c3, w3) \<and> ftp_resp c3 = 250"
proof -
  have "ok" using assms(2) by (auto simp: ftp_cd_def split: if_splits)
  then have "ftp_resp c3 = 250"
    using assms(4) ftp_expect_end [of n nt _ _ 250 w2 0 c3 w3] by (auto simp: ftp_cd_def)
  then show ?thesis using assms by (simp add: ftp_dir_def)
qed

definition failed_list_dialogue :: string where
  "failed_list_dialogue = reply_bytes 250 None ''ok'' @ reply_bytes 200 None ''ok'' @
     reply_bytes 550 None ''no'' @ reply_bytes 250 None ''ok''"

theorem ftp_dir_masks_error_witness:
  "\<exists>c3 w3. ftp_dir 1000 sample_net True sample_con ''pub'' (failed_list_dialogue, '''') = Some (None, c3, w3) \<and>
     ftp_resp c3 = 250"
proof -
  let ?cd = "ftp_cd 1000 sample_net True" and ?bk = "take (PATH_MAX - 1) ''/''"
  have *: "case ?cd sample_con ''pub'' (failed_list_dialogue, '''') of None \<Rightarrow> False
    | Some (r1, c1, w1) \<Rightarrow> r1 = 0 \<and> (case ftp_dir2 1000 sample_net True c1 ''-lag'' [] w1 of None \<Rightarrow> False
      | Some (t, c2, w2) \<Rightarrow> t = None \<and> (case ?cd c2 ?bk w2 of None \<Rightarrow> False
        | Some (r3, c3, w3) \<Rightarrow> r3 = 0))"
    by code_simp
  obtain r1 c1 w1 where 1: "?cd sample_con ''pub'' (failed_list_dialogue, '''') = Some (r1, c1, w1)"
    using * by (cases "?cd sample_con ''pub'' (failed_list_dialogue, '''')"; cases "the (?cd sample_con ''pub'' (failed_list_dialogue, ''''))") simp_all
  obtain t c2 w2 where 2: "ftp_dir2 1000 sample_net True c1 ''-lag'' [] w1 = Some (t, c2, w2)"
    using * unfolding 1 by (cases "ftp_dir2 1000 sample_net True c1 ''-lag'' [] w1"; cases "the (ftp_dir2 1000 sample_net True c1 ''-lag'' [] w1)") simp_all
  obtain r3 c3 w3 where 3: "?cd c2 ?bk w2 = Some (r3, c3, w3)"
    using * unfolding 1 option.case prod.case 2 by (cases "?cd c2 ?bk w2"; cases "the (?cd c2 ?bk w2)") simp_all
  have "r1 = 0" "t = None" "r3 = 0" using * unfolding 1 option.case prod.case 2 3 by simp_all
  then show ?thesis
    using ftp_dir_masks_error [OF _ 1 [unfolded \<open>r1 = 0\<close>] 2 [unfolded \<open>t = None\<close>], of "''/''" c3 w3] 3
    by (simp add: sample_con_def)
qed

end
