(* ===== verification/Jftp6.thy ===== *)
theory Jftp6
  imports Jftp
begin

text \<open>
  The \<open>INET6\<close> configuration of jftp.c, which jftp.h sets on FreeBSD 4 and later: where it differs from Jftp,
  that is in the connection to the server and in the set up of a data connection. The rest is that of Jftp.
\<close>

section \<open>Addresses\<close>

text \<open>
  The bytes of an address; a port is two bytes or, for \<open>IPv6\<close>, a number. \<open>Other_family\<close> is what neither
  case of the switches takes.
\<close>

datatype sockaddr = In4 "int list" "int list" | In6 "int list" int | Other_family

definition v4mapped :: "int list \<Rightarrow> bool" where
  "v4mapped addr \<longleftrightarrow> length addr = 16 \<and> take 12 addr = replicate 10 0 @ [255, 255]"

definition unmappedaddr :: "sockaddr \<Rightarrow> sockaddr" where
  "unmappedaddr a =
     (case a of In6 addr port \<Rightarrow> if v4mapped addr then In4 (drop 12 addr) (port_bytes port) else a | _ \<Rightarrow> a)"

text \<open>The calls that take or give addresses; sockets are made for the family of an address.\<close>

record 'w net6_ops =
  n6_base :: "'w net_ops"
  n6_getaddrinfo :: "'w \<Rightarrow> string \<Rightarrow> string \<Rightarrow> int \<Rightarrow> sockaddr list option"
  n6_socket :: "sockaddr \<Rightarrow> 'w \<Rightarrow> int \<times> 'w"
  n6_connect :: "int \<Rightarrow> sockaddr \<Rightarrow> 'w \<Rightarrow> bool \<times> 'w"
  n6_bind :: "int \<Rightarrow> sockaddr \<Rightarrow> 'w \<Rightarrow> bool \<times> 'w"
  n6_getsockname :: "'w \<Rightarrow> int \<Rightarrow> sockaddr option"
  n6_getpeername :: "'w \<Rightarrow> int \<Rightarrow> sockaddr option"
  n6_getnameinfo :: "'w \<Rightarrow> sockaddr \<Rightarrow> string option"

section \<open>Connection to the server\<close>

text \<open>The loop over the addresses of the host; \<open>ftp_com\<close> is left negative when none of them answers.\<close>

fun connect_any :: "'w net6_ops \<Rightarrow> sockaddr list \<Rightarrow> ftp_con \<times> 'w \<Rightarrow> ftp_con \<times> 'w" where
  "connect_any nt [] (c, w) = (c, w)"
| "connect_any nt (a # as) (c, w) =
     (let (fd, w) = n6_socket nt a w; c = c\<lparr>ftp_com := fd\<rparr> in
      if fd < 0 then connect_any nt as (c, w)
      else let (connected, w) = n6_connect nt fd a w in
        if connected then (c, w)
        else let (c, w) = close_com (n6_base nt) (c, w) in connect_any nt as (c\<lparr>ftp_com := - 1\<rparr>, w))"

text \<open>\<open>family\<close> is the field \<open>ftp_family\<close>.\<close>

definition ftp_relogin6 :: "nat \<Rightarrow> 'w net6_ops \<Rightarrow> bool \<Rightarrow> int \<Rightarrow> ftp_con \<Rightarrow> 'w \<Rightarrow> (int \<times> ftp_con \<times> 'w) option" where
  "ftp_relogin6 n nt ok family c w =
     (let c = c\<lparr>ftp_relogins := ftp_relogins c + 1\<rparr>;
          (c, w) = close_data (n6_base nt) (close_listen (n6_base nt) (close_com (n6_base nt) (c, w))) in
      case n6_getaddrinfo nt w (ftp_remote_host c) (show_int (ftp_port c)) family of
        None \<Rightarrow> Some (- 1, c\<lparr>ftp_resp := JFTP_ERR\<rparr>, w)
      | Some addrs \<Rightarrow>
        (let (c, w) = connect_any nt addrs (c\<lparr>ftp_com := - 1\<rparr>, w) in
         if ftp_com c < 0 then Some (- 1, c\<lparr>ftp_resp := JFTP_ERR\<rparr>, w)
         else ftp_login_dialog n (n6_base nt) ok c w))"

definition ftp_login6 ::
  "nat \<Rightarrow> 'w net6_ops \<Rightarrow> bool \<Rightarrow> string \<Rightarrow> int \<Rightarrow> int \<Rightarrow> string \<Rightarrow> string \<Rightarrow> int \<Rightarrow> 'w \<Rightarrow> (ftp_con option \<times> 'w) option" where
  "ftp_login6 n nt ok host port family username password verbose w =
     (if \<not> ok then Some (None, w)
      else do {
        (res, c, w) \<leftarrow> ftp_relogin6 n nt ok family
          \<lparr>ftp_com = - 1, ftp_data = - 1, ftp_listen = - 1, ftp_remote_host = host,
           ftp_user_name = username, ftp_password = password, ftp_remote_dir = None, ftp_buf = [],
           ftp_tempdir = JFTP_DIR, ftp_retries = 20, ftp_timeout = JFTP_TIMEOUT_VAL,
           ftp_timed_out = False, ftp_port = port, ftp_verbose = verbose, ftp_passive = False,
           ftp_resp = 0, ftp_recd = 0, ftp_sent = 0, ftp_relogins = - 1, ftp_downloads = 0,
           ftp_timeouts = 0\<rparr> w;
        Some (if res < 0 then None else Some c, w) })"

section \<open>Data connections\<close>

definition eprt_command :: "string \<Rightarrow> int \<Rightarrow> string" where
  "eprt_command hname port = ''EPRT |2|'' @ hname @ ''|'' @ show_int port @ ''|''"

text \<open>\<open>sscanf (p, "%c%c%c%d%c", ...)\<close> on the reply to \<open>EPSV\<close>, from behind the first parenthesis on.\<close>

definition parse_epsv :: "string \<Rightarrow> int option outcome" where
  "parse_epsv buf =
     (case dropWhile (\<lambda>b. b \<noteq> CHR ''('') (takeWhile (\<lambda>b. b \<noteq> CHR 0x00) buf) of
        [] \<Rightarrow> Ret None
      | b # p \<Rightarrow>
        if length p < 3 then Ret None
        else bindO (scan_d (drop 3 p)) (\<lambda>r. case r of None \<Rightarrow> Ret None
          | Some (port, rest) \<Rightarrow> (case rest of [] \<Rightarrow> Ret None
              | d # _ \<Rightarrow> Ret (if p ! 0 = p ! 1 \<and> p ! 0 = p ! 2 \<and> p ! 0 = d then Some port else None))))"

definition no_port :: "sockaddr \<Rightarrow> sockaddr" where
  "no_port a = (case a of In4 addr _ \<Rightarrow> In4 addr [0, 0] | In6 addr _ \<Rightarrow> In6 addr 0 | Other_family \<Rightarrow> Other_family)"

text \<open>\<open>FD_CLOSE\<close> on the listening and the control connection, with \<open>JFTP_BROKEN\<close>.\<close>

definition port_broken :: "'w net_ops \<Rightarrow> ftp_con \<Rightarrow> 'w \<Rightarrow> int \<times> ftp_con \<times> 'w" where
  "port_broken nt c w = (let (c, w) = close_com nt (close_listen nt (c, w)) in (- 1, c\<lparr>ftp_resp := JFTP_BROKEN\<rparr>, w))"

text \<open>A listening socket of another family would leave the result unassigned, which is \<open>None\<close>.\<close>

definition ftp_port_active6 :: "nat \<Rightarrow> 'w net6_ops \<Rightarrow> sockaddr \<Rightarrow> ftp_con \<Rightarrow> 'w \<Rightarrow> (int \<times> ftp_con \<times> 'w) option" where
  "ftp_port_active6 n nt sin2 c w =
     (let (c, w) = close_listen (n6_base nt) (c, w); (fd, w) = n6_socket nt sin2 w; c = c\<lparr>ftp_listen := fd\<rparr> in
      if fd < 0 then Some (- 1, c\<lparr>ftp_listen := - 1, ftp_resp := JFTP_BROKEN\<rparr>, w)
      else let (bound, w) = n6_bind nt fd (no_port sin2) w in
        if \<not> bound then Some (port_broken (n6_base nt) c w)
        else case n6_getsockname nt w fd of
          None \<Rightarrow> Some (port_broken (n6_base nt) c w)
        | Some sin2 \<Rightarrow>
          (let (listening, w) = n_listen (n6_base nt) fd w in
           if \<not> listening then Some (port_broken (n6_base nt) c w)
           else if sin2 = Other_family then None
           else case (case sin2 of
                 In6 addr port \<Rightarrow> map_option (\<lambda>hname. eprt_command hname port) (n6_getnameinfo nt w sin2)
               | In4 addr port \<Rightarrow> Some (port_command addr port)) of
             None \<Rightarrow> Some (port_broken (n6_base nt) c w)
           | Some cmd \<Rightarrow> do {
               (res, c, w) \<leftarrow> ftp_expect n (n6_base nt) c (Some cmd) 200 w;
               Some (if res < 0 then (let (c, w) = close_listen (n6_base nt) (c, w) in (- 1, c, w)) else (0, c, w)) }))"

text \<open>Where the server waits for the data connection.\<close>

definition passive_addr :: "nat \<Rightarrow> 'w net6_ops \<Rightarrow> sockaddr \<Rightarrow> ftp_con \<Rightarrow> 'w \<Rightarrow> (sockaddr option \<times> ftp_con \<times> 'w) option" where
  "passive_addr n nt sin2 c w =
     (case sin2 of
        In6 _ _ \<Rightarrow> do {
          (res, c, w) \<leftarrow> ftp_expect n (n6_base nt) c (Some ''EPSV'') 229 w;
          if res < 0 then Some (None, c, w)
          else case parse_epsv (ftp_buf c) of
            Ret None \<Rightarrow> Some (None, c\<lparr>ftp_resp := JFTP_ERR\<rparr>, w)
          | Ret (Some port) \<Rightarrow>
            (case n6_getpeername nt w (ftp_com c) of
               Some (In6 addr _) \<Rightarrow> Some (Some (In6 addr (port mod 2 ^ 16)), c, w)
             | _ \<Rightarrow> Some (None, c\<lparr>ftp_resp := JFTP_BROKEN\<rparr>, w))
          | _ \<Rightarrow> None }
      | _ \<Rightarrow> do {
          (res, c, w) \<leftarrow> ftp_expect n (n6_base nt) c (Some ''PASV'') 227 w;
          if res < 0 then Some (None, c, w)
          else case parse_pasv (ftp_buf c) of
            Ret None \<Rightarrow> Some (None, c\<lparr>ftp_resp := JFTP_ERR\<rparr>, w)
          | Ret (Some (addr, port)) \<Rightarrow> Some (Some (In4 addr port), c, w)
          | _ \<Rightarrow> None })"

definition ftp_port_passive6 :: "nat \<Rightarrow> 'w net6_ops \<Rightarrow> sockaddr \<Rightarrow> ftp_con \<Rightarrow> 'w \<Rightarrow> (int \<times> ftp_con \<times> 'w) option" where
  "ftp_port_passive6 n nt sin2 c w = do {
     (a, c, w) \<leftarrow> passive_addr n nt sin2 c w;
     case a of None \<Rightarrow> Some (- 1, c, w)
     | Some sin2 \<Rightarrow>
       (let (c, w) = close_data (n6_base nt) (c, w); (fd, w) = n6_socket nt sin2 w; c = c\<lparr>ftp_data := fd\<rparr> in
        if fd < 0 then Some (- 1, c\<lparr>ftp_resp := JFTP_ERR\<rparr>, w)
        else let (connected, w) = n6_connect nt fd sin2 w in
          if \<not> connected
          then let (c, w) = close_data (n6_base nt) (c, w) in Some (- 1, c\<lparr>ftp_resp := JFTP_ERR\<rparr>, w)
          else Some (0, c, w)) }"

definition ftp_port_cmd6 :: "nat \<Rightarrow> 'w net6_ops \<Rightarrow> ftp_con \<Rightarrow> 'w \<Rightarrow> (int \<times> ftp_con \<times> 'w) option" where
  "ftp_port_cmd6 n nt c w =
     (let c = c\<lparr>ftp_downloads := ftp_downloads c + 1\<rparr> in
      case map_option unmappedaddr (n6_getsockname nt w (ftp_com c)) of
        Some sin2 \<Rightarrow>
          if sin2 = Other_family
          then let (c, w) = close_com (n6_base nt) (c, w) in Some (- 1, c\<lparr>ftp_resp := JFTP_BROKEN\<rparr>, w)
          else if \<not> ftp_passive c then ftp_port_active6 n nt sin2 c w
          else ftp_port_passive6 n nt sin2 c w
      | None \<Rightarrow> (let (c, w) = close_com (n6_base nt) (c, w) in Some (- 1, c\<lparr>ftp_resp := JFTP_BROKEN\<rparr>, w)))"

section \<open>Replies to \<open>EPSV\<close>\<close>

text \<open>
  The reply that the protocol asks of a server is read back: any text without a parenthesis, and the port
  between delimiters that are the same and no digits.
\<close>

lemma parse_epsv_roundtrip:
  assumes "CHR ''('' \<notin> set pre" "CHR 0x00 \<notin> set pre" "d \<noteq> CHR 0x00" "CHR 0x00 \<notin> set post" "\<not> isdigit d" "port < 2 ^ 16"
  shows "parse_epsv (pre @ ''('' @ [d, d, d] @ dec port @ [d] @ post) = Ret (Some (int port))"
proof -
  have dig: "CHR 0x00 \<notin> set (dec port)"
    using dec_digits [of "CHR 0x00" port] by (auto simp: isdigit_def)
  have "takeWhile (\<lambda>b. b \<noteq> CHR 0x00) (pre @ ''('' @ [d, d, d] @ dec port @ [d] @ post) = pre @ ''('' @ [d, d, d] @ dec port @ [d] @ post"
    using assms dig by (intro takeWhile_eq_all_conv [THEN iffD2]) auto
  moreover have "dropWhile (\<lambda>b. b \<noteq> CHR ''('') (pre @ ''('' @ [d, d, d] @ dec port @ [d] @ post) =
      ''('' @ [d, d, d] @ dec port @ [d] @ post"
    using assms(1) by (subst dropWhile_append2) auto
  moreover have "scan_d (dec port @ d # post) = Ret (Some (int port, d # post))"
    using assms(5,6) by (intro scan_d_dec) auto
  ultimately have e: "dropWhile (\<lambda>b. b \<noteq> CHR ''('') (takeWhile (\<lambda>b. b \<noteq> CHR 0x00) (pre @ ''('' @ [d, d, d] @ dec port @ [d] @ post)) =
      CHR ''('' # [d, d, d] @ dec port @ [d] @ post" and sc: "scan_d (dec port @ d # post) = Ret (Some (int port, d # post))"
    by (simp_all only: append_Cons append_Nil)
  show ?thesis unfolding parse_epsv_def e by (simp add: sc)
qed

lemma parse_epsv_sample: "parse_epsv ''Entering Extended Passive Mode (|||6446|)'' = Ret (Some 6446)"
proof -
  have "dec 6446 = ''6446''" by code_simp
  then show ?thesis
    using parse_epsv_roundtrip [of "''Entering Extended Passive Mode ''" "CHR ''|''" "'')''" 6446] by (simp add: isdigit_def)
qed

lemma unmappedaddr_mapped:
  "length addr = 4 \<Longrightarrow> unmappedaddr (In6 (replicate 10 0 @ [255, 255] @ addr) port) = In4 addr (port_bytes port)"
  by (simp add: unmappedaddr_def v4mapped_def eval_nat_numeral)

section \<open>IPv4\<close>

text \<open>
  What it means that the calls of the two configurations are the same network seen through \<open>IPv4\<close>
  addresses; the control connection may have an address that is mapped into \<open>IPv6\<close>.
\<close>

definition same_network :: "'w net6_ops \<Rightarrow> ftp_con \<Rightarrow> 'w \<Rightarrow> bool" where
  "same_network nt c w0 \<longleftrightarrow>
     map_option unmappedaddr (n6_getsockname nt w0 (ftp_com c)) = map_option (case_prod In4) (n_getsockname (n6_base nt) w0 (ftp_com c)) \<and>
     (\<forall>w fd. fd \<noteq> ftp_com c \<longrightarrow> n6_getsockname nt w fd = map_option (case_prod In4) (n_getsockname (n6_base nt) w fd)) \<and>
     (\<forall>addr port w. n6_socket nt (In4 addr port) w = n_socket (n6_base nt) w \<and>
        (fst (n_socket (n6_base nt) w) = ftp_com c \<longrightarrow> ftp_com c < 0)) \<and>
     (\<forall>fd addr port w. n6_bind nt fd (In4 addr port) w = n_bind (n6_base nt) fd w) \<and>
     (\<forall>fd addr port w. n6_connect nt fd (In4 addr port) w = n_connect (n6_base nt) fd addr port w)"

lemma close_com_listen: "ftp_com (fst (close_listen nt (c, w))) = ftp_com c"
  by (simp add: close_listen_def)

lemma active6_eq:
  assumes "same_network nt c w0"
  shows "ftp_port_active6 n nt (In4 addr port) c w = ftp_port_active n (n6_base nt) c w"
proof -
  let ?n = "n6_base nt"
  obtain c1 w1 where l: "close_listen ?n (c, w) = (c1, w1)" by fastforce
  then have com: "ftp_com c1 = ftp_com c" using close_com_listen [of ?n c w] by simp
  obtain fd w2 where s: "n_socket ?n w1 = (fd, w2)" by fastforce
  then have s6: "n6_socket nt (In4 addr port) w1 = (fd, w2)" using assms by (simp add: same_network_def)
  have fd: "fd = ftp_com c \<longrightarrow> fd < 0" using assms s by (metis same_network_def fst_conv)
  show ?thesis
  proof (cases "fd < 0")
    case True
    then show ?thesis by (simp add: ftp_port_active6_def ftp_port_active_def l s s6)
  next
    case False
    then have g: "n6_getsockname nt u fd = map_option (case_prod In4) (n_getsockname ?n u fd)" for u
      using assms fd by (metis same_network_def)
    have b: "n6_bind nt fd (no_port (In4 addr port)) w2 = n_bind ?n fd w2"
      using assms by (simp add: same_network_def no_port_def)
    let ?c = "c1\<lparr>ftp_listen := fd\<rparr>"
    have p: "(let (c, w) = close_com ?n (close_listen ?n (?c\<lparr>ftp_resp := JFTP_BROKEN\<rparr>, u)) in Some (- 1, c, w)) = Some (port_broken ?n ?c u)"
      "(let (c, w) = close_com ?n (close_listen ?n (?c, u)) in Some (- 1, c\<lparr>ftp_resp := JFTP_BROKEN\<rparr>, w)) = Some (port_broken ?n ?c u)" for u
      by (simp_all add: port_broken_def close_com_def close_listen_def)
    obtain bound w3 where bw: "n_bind ?n fd w2 = (bound, w3)" by fastforce
    obtain li w4 where lw: "n_listen ?n fd w3 = (li, w4)" by fastforce
    consider "\<not> bound" | "bound" "n_getsockname ?n w3 fd = None" | addr port where "bound" "n_getsockname ?n w3 fd = Some (addr, port)"
      by fastforce
    then show ?thesis
    proof cases
      case 1
      then show ?thesis using p unfolding ftp_port_active6_def ftp_port_active_def by (simp add: l s s6 b bw False)
    next
      case 2
      then show ?thesis using p unfolding ftp_port_active6_def ftp_port_active_def by (simp add: l s s6 b bw g False)
    next
      case 3
      then show ?thesis using p unfolding ftp_port_active6_def ftp_port_active_def by (cases li) (simp_all add: l s s6 b bw g lw False)
    qed
  qed
qed

lemma passive6_eq:
  assumes "same_network nt c w0"
  shows "ftp_port_passive6 n nt (In4 addr port) c w = ftp_port_passive n (n6_base nt) c w"
proof -
  have e: "n6_socket nt (In4 addr port) u = n_socket (n6_base nt) u"
    "n6_connect nt fd (In4 addr port) u = n_connect (n6_base nt) fd addr port u" for fd addr port u
    using assms by (simp_all add: same_network_def)
  show ?thesis
    by (auto simp: ftp_port_passive6_def ftp_port_passive_def passive_addr_def e Let_def
        split: option.splits outcome.splits prod.splits Option.bind_splits)
qed

text \<open>
  C25. On a network that is seen through \<open>IPv4\<close> addresses, mapped into \<open>IPv6\<close> or not, the set up of a data
  connection in the \<open>INET6\<close> configuration is the one of the configuration without it.
\<close>

theorem ftp_port_cmd6_ipv4:
  assumes "same_network nt c w"
  shows "ftp_port_cmd6 n nt c w = ftp_port_cmd n (n6_base nt) c w"
proof (cases "n_getsockname (n6_base nt) w (ftp_com c)")
  case None
  then have "n6_getsockname nt w (ftp_com c) = None" using assms by (simp add: same_network_def)
  then show ?thesis using None by (simp add: ftp_port_cmd6_def ftp_port_cmd_def Let_def)
next
  case (Some a)
  obtain addr port where a: "a = (addr, port)" by (cases a)
  let ?c = "c\<lparr>ftp_downloads := ftp_downloads c + 1\<rparr>"
  have s: "same_network nt ?c w" using assms by (simp add: same_network_def)
  obtain z where "n6_getsockname nt w (ftp_com c) = Some z" "unmappedaddr z = In4 addr port"
    using assms Some a by (auto simp: same_network_def)
  then show ?thesis
    using Some active6_eq [OF s] passive6_eq [OF s] by (simp add: ftp_port_cmd6_def ftp_port_cmd_def Let_def)
qed

definition sample_net6 :: "(string \<times> string) net6_ops" where
  "sample_net6 = \<lparr>n6_base = sample_net, n6_getaddrinfo = (\<lambda>w host port family. Some [In4 [127, 0, 0, 1] [0, 21]]),
     n6_socket = (\<lambda>a w. (4, w)), n6_connect = (\<lambda>fd a w. (True, w)), n6_bind = (\<lambda>fd a w. (True, w)),
     n6_getsockname = (\<lambda>w fd. Some (if fd = 3 then In6 (replicate 10 0 @ [255, 255, 127, 0, 0, 1]) 1025 else In4 [127, 0, 0, 1] [4, 1])),
     n6_getpeername = (\<lambda>w fd. None), n6_getnameinfo = (\<lambda>w a. None)\<rparr>"

lemma ftp_port_cmd6_ipv4_witness:
  "ftp_port_cmd6 100 sample_net6 sample_con (reply_bytes 200 None ''ok'', '''') =
     ftp_port_cmd 100 sample_net sample_con (reply_bytes 200 None ''ok'', '''') \<and>
   map_option (\<lambda>(r, c, w). (r, ftp_listen c)) (ftp_port_cmd6 100 sample_net6 sample_con (reply_bytes 200 None ''ok'', '''')) = Some (0, 4)"
proof -
  have "same_network sample_net6 sample_con (reply_bytes 200 None ''ok'', '''')"
    by (simp add: same_network_def sample_net6_def sample_net_def sample_con_def unmappedaddr_def v4mapped_def port_bytes_def
        eval_nat_numeral)
  then have "ftp_port_cmd6 100 sample_net6 sample_con (reply_bytes 200 None ''ok'', '''') =
      ftp_port_cmd 100 (n6_base sample_net6) sample_con (reply_bytes 200 None ''ok'', '''')"
    by (rule ftp_port_cmd6_ipv4)
  moreover have "n6_base sample_net6 = sample_net" by (simp add: sample_net6_def)
  moreover have "map_option (\<lambda>(r, c, w). (r, ftp_listen c)) (ftp_port_cmd 100 sample_net sample_con (reply_bytes 200 None ''ok'', '''')) = Some (0, 4)"
    by code_simp
  ultimately show ?thesis by simp
qed

section \<open>The addresses of a host\<close>

text \<open>
  After the loop over the addresses the control connection is one that an address of the list accepted, or
  none; nothing else of the connection changes.
\<close>

lemma connect_any_result:
  assumes "connect_any nt as (c, w) = (c', w')" "ftp_com c < 0"
  shows "(ftp_com c' < 0 \<or> (\<exists>a \<in> set as. \<exists>u. fst (n6_connect nt (ftp_com c') a u))) \<and> c' = c\<lparr>ftp_com := ftp_com c'\<rparr>"
  using assms
proof (induction "as" arbitrary: c w)
  case (Cons a "as")
  obtain fd w1 where s: "n6_socket nt a w = (fd, w1)" by fastforce
  obtain ok w2 where k: "n6_connect nt fd a w1 = (ok, w2)" by fastforce
  consider "fd < 0" | "\<not> fd < 0" "ok" | "\<not> fd < 0" "\<not> ok" by blast
  then show ?case
  proof cases
    case 1
    then have "connect_any nt as (c\<lparr>ftp_com := fd\<rparr>, w1) = (c', w')" using Cons.prems s by simp
    then show ?thesis using Cons.IH [of "c\<lparr>ftp_com := fd\<rparr>" w1] 1 by auto
  next
    case 2
    then have "c' = c\<lparr>ftp_com := fd\<rparr>" using Cons.prems s k by simp
    moreover have "fst (n6_connect nt fd a w1)" using 2 k by simp
    ultimately show ?thesis by auto
  next
    case 3
    then have "connect_any nt as (c\<lparr>ftp_com := - 1\<rparr>, n_close (n6_base nt) fd w2) = (c', w')"
      using Cons.prems s k by (simp add: close_com_def)
    then show ?thesis using Cons.IH [of "c\<lparr>ftp_com := - 1\<rparr>" "n_close (n6_base nt) fd w2"] by auto
  qed
qed simp

end
