(* ===== verification/Hash_Buf.thy ===== *)
theory Hash_Buf
  imports Spegla_Prelude
begin

text \<open>
  The hash table of container.c (\<open>struct hash_buf\<close>, lines 1544-1749): an array of head
  entries, each the first link of its own chain. A head whose \<open>he_data\<close> is \<open>NULL\<close> is an
  empty bucket. The chains share no links, so a chain is a datatype of nested links.
\<close>

section \<open>Model\<close>

text \<open>The pointers to data are \<open>'a option\<close>, with \<open>NULL\<close> as \<open>None\<close>.\<close>

datatype 'a hash_data_s = HE (he_data: "'a option") (he_key: nat) (he_next: "'a hash_data_s option")

record 'a hash_buf =
  hash_size :: nat
  hash_data :: "'a hash_data_s list"

definition hash_init :: "bool \<Rightarrow> bool \<Rightarrow> bool \<Rightarrow> nat \<Rightarrow> 'a hash_buf outcome" where
  "hash_init container_err_exit ok1 ok2 sz =
     (if \<not> ok1 then alloc_fail container_err_exit
      else if \<not> ok2 then alloc_fail container_err_exit
      else Ret \<lparr>hash_size = u32 sz, hash_data = replicate sz (HE None 0 None)\<rparr>)"

text \<open>
  The calls \<open>map_fun (he_key, he_data, arg_obj)\<close> along one chain. \<open>map_fun\<close> changes what
  \<open>arg_obj\<close> points to, which the model passes along.
\<close>

fun chain_map :: "(nat \<Rightarrow> 'a option \<Rightarrow> 's \<Rightarrow> 's) \<Rightarrow> 'a hash_data_s \<Rightarrow> 's \<Rightarrow> 's" where
  "chain_map mapf (HE d k None) s = mapf k d s"
| "chain_map mapf (HE d k (Some he)) s = chain_map mapf he (mapf k d s)"

fun hash_map_loop :: "(nat \<Rightarrow> 'a option \<Rightarrow> 's \<Rightarrow> 's) \<Rightarrow> 'a hash_data_s list \<Rightarrow> 's \<Rightarrow> 's" where
  "hash_map_loop mapf [] s = s"
| "hash_map_loop mapf (he # hs) s =
     hash_map_loop mapf hs (if he_data he = None then s else chain_map mapf he s)"

definition hash_map :: "'a hash_buf \<Rightarrow> (nat \<Rightarrow> 'a option \<Rightarrow> 's \<Rightarrow> 's) \<Rightarrow> 's \<Rightarrow> 's" where
  "hash_map p mapf arg_obj = hash_map_loop mapf (take (hash_size p) (hash_data p)) arg_obj"

text \<open>The walk to the last link of the chain, where the new entry is hung in.\<close>

fun chain_append :: "'a hash_data_s \<Rightarrow> 'a hash_data_s \<Rightarrow> 'a hash_data_s" where
  "chain_append (HE d k None) he = HE d k (Some he)"
| "chain_append (HE d k (Some q)) he = HE d k (Some (chain_append q he))"

definition hash_ins :: "bool \<Rightarrow> bool \<Rightarrow> 'a hash_buf \<Rightarrow> nat \<Rightarrow> 'a option \<Rightarrow> 'a hash_buf outcome" where
  "hash_ins container_err_exit ok p key data =
     (if hash_size p = 0 then Undef
      else let k = key mod hash_size p in
        if length (hash_data p) \<le> k then Undef
        else let q = hash_data p ! k in
          if he_data q = None
          then Ret (p\<lparr>hash_data := (hash_data p)[k := HE data key (he_next q)]\<rparr>)
          else if \<not> ok then alloc_fail container_err_exit
          else Ret (p\<lparr>hash_data := (hash_data p)[k := chain_append q (HE data key None)]\<rparr>))"

text \<open>
  \<open>hash_clone\<close> inserts every entry into a fresh table until an insertion fails. The helper's
  argument is the table with the error flag; a failing insertion with \<open>container_err_exit\<close>
  set ends the process. \<open>oks k d\<close> says whether the allocation for an entry succeeds.
\<close>

fun hash_clone_helper ::
  "bool \<Rightarrow> (nat \<Rightarrow> 'a option \<Rightarrow> bool) \<Rightarrow> nat \<Rightarrow> 'a option \<Rightarrow> ('a hash_buf \<times> bool) outcome \<Rightarrow> ('a hash_buf \<times> bool) outcome" where
  "hash_clone_helper container_err_exit oks key data (Ret (hb, hch_error)) =
     (if hch_error then Ret (hb, hch_error)
      else case hash_ins container_err_exit (oks key data) hb key data of
        Ret hb' \<Rightarrow> Ret (hb', False)
      | Err e \<Rightarrow> Ret (hb, True)
      | Exit n \<Rightarrow> Exit n
      | Undef \<Rightarrow> Undef)"
| "hash_clone_helper container_err_exit oks key data r = r"

definition hash_clone ::
  "bool \<Rightarrow> bool \<Rightarrow> bool \<Rightarrow> (nat \<Rightarrow> 'a option \<Rightarrow> bool) \<Rightarrow> 'a hash_buf \<Rightarrow> 'a hash_buf outcome" where
  "hash_clone container_err_exit ok1 ok2 oks p =
     bindO (hash_init container_err_exit ok1 ok2 (hash_size p)) (\<lambda>hb.
       bindO (hash_map p (hash_clone_helper container_err_exit oks) (Ret (hb, False))) (\<lambda>(hb, hch_error).
         if hch_error then Err ENOMEM else Ret hb))"

text \<open>The data \<open>hash_free\<close> passes to \<open>free_fun\<close>, in order.\<close>

fun chain_datas :: "'a hash_data_s \<Rightarrow> 'a option list" where
  "chain_datas (HE d k None) = [d]"
| "chain_datas (HE d k (Some he)) = d # chain_datas he"

definition hash_free :: "'a hash_buf \<Rightarrow> bool \<Rightarrow> 'a option list" where
  "hash_free p free_fun_given =
     (if free_fun_given
      then concat (map (\<lambda>he. if he_data he = None then [] else chain_datas he)
             (take (hash_size p) (hash_data p)))
      else [])"

fun chain_count :: "'a hash_data_s \<Rightarrow> nat" where
  "chain_count (HE d k None) = 1"
| "chain_count (HE d k (Some he)) = Suc (chain_count he)"

definition hash_count :: "'a hash_buf \<Rightarrow> nat" where
  "hash_count p = sum_list (map (\<lambda>he. if he_data he = None then 0 else chain_count he)
     (take (hash_size p) (hash_data p)))"

fun chain_find :: "nat \<Rightarrow> 'a hash_data_s \<Rightarrow> 'a option outcome" where
  "chain_find key (HE d k None) = (if k = key then Ret d else Err ENOENT)"
| "chain_find key (HE d k (Some he)) = (if k = key then Ret d else chain_find key he)"

text \<open>Looking into an empty bucket returns \<open>-1\<close> and leaves \<open>errno\<close> as it was: \<open>EOTHER\<close>.\<close>

definition hash_find :: "'a hash_buf \<Rightarrow> nat \<Rightarrow> 'a option outcome" where
  "hash_find p key =
     (if hash_size p = 0 then Undef
      else let k = key mod hash_size p in
        if length (hash_data p) \<le> k then Undef
        else if he_data (hash_data p ! k) = None then Err EOTHER
        else chain_find key (hash_data p ! k))"

text \<open>
  Removal of a link behind \<open>he_last\<close>: the rest of the chain after \<open>he_last\<close> with the first
  link of that key taken out. \<open>None\<close> says that no link has the key.
\<close>

fun chain_rem :: "nat \<Rightarrow> 'a hash_data_s \<Rightarrow> ('a option \<times> 'a hash_data_s option) option" where
  "chain_rem key (HE d k nx) =
     (if k = key then Some (d, nx)
      else case nx of None \<Rightarrow> None
        | Some he \<Rightarrow> (case chain_rem key he of None \<Rightarrow> None
            | Some (x, he') \<Rightarrow> Some (x, Some (HE d k he'))))"

text \<open>A head that has the key is overwritten by its successor; one without a successor stays.\<close>

definition hash_rem :: "'a hash_buf \<Rightarrow> nat \<Rightarrow> ('a option \<times> 'a hash_buf) outcome" where
  "hash_rem p key =
     (if hash_size p = 0 then Undef
      else let k = key mod hash_size p in
        if length (hash_data p) \<le> k then Undef
        else let he = hash_data p ! k in
          if he_data he = None then Err EOTHER
          else if he_key he = key
          then Ret (he_data he,
                 case he_next he of None \<Rightarrow> p
                 | Some q \<Rightarrow> p\<lparr>hash_data := (hash_data p)[k := HE (he_data q) (he_key q) (he_next q)]\<rparr>)
          else case he_next he of None \<Rightarrow> Err EOTHER
            | Some q \<Rightarrow> (case chain_rem key q of None \<Rightarrow> Err EOTHER
                | Some (x, q') \<Rightarrow>
                    Ret (x, p\<lparr>hash_data := (hash_data p)[k := HE (he_data he) (he_key he) q']\<rparr>)))"

section \<open>Abstraction to an association list per bucket\<close>

fun chain_entries :: "'a hash_data_s \<Rightarrow> (nat \<times> 'a option) list" where
  "chain_entries (HE d k None) = [(k, d)]"
| "chain_entries (HE d k (Some he)) = (k, d) # chain_entries he"

definition bucket :: "'a hash_data_s \<Rightarrow> (nat \<times> 'a option) list" where
  "bucket he = (if he_data he = None then [] else chain_entries he)"

text \<open>
  A table as the operations build it: a bucket for every hash value, no link behind an empty
  head, every entry in the bucket of its key and with data.
\<close>

definition hash_wf :: "'a hash_buf \<Rightarrow> bool" where
  "hash_wf p \<longleftrightarrow> 0 < hash_size p \<and> hash_size p < 2 ^ 32 \<and> length (hash_data p) = hash_size p \<and>
     (\<forall>i < hash_size p. let he = hash_data p ! i in
        (he_data he = None \<longrightarrow> he = HE None 0 None) \<and>
        (\<forall>(k, d) \<in> set (bucket he). k mod hash_size p = i \<and> d \<noteq> None))"

definition hash_lookup :: "'a hash_buf \<Rightarrow> nat \<Rightarrow> 'a option" where
  "hash_lookup p key = (case map_of (bucket (hash_data p ! (key mod hash_size p))) key of
     None \<Rightarrow> None | Some d \<Rightarrow> d)"

lemma chain_entries_append: "chain_entries (chain_append q he) = chain_entries q @ chain_entries he"
  by (induction q he rule: chain_append.induct) auto

lemma he_data_append [simp]: "he_data (chain_append q he) = he_data q"
  by (induction q he rule: chain_append.induct) auto

lemma chain_find_entries:
  "chain_find key he = (case map_of (chain_entries he) key of None \<Rightarrow> Err ENOENT | Some d \<Rightarrow> Ret d)"
  by (induction key he rule: chain_find.induct) auto

lemma chain_count_entries: "chain_count he = length (chain_entries he)"
  by (induction he rule: chain_count.induct) auto

lemma chain_map_entries: "chain_map mapf he s = fold (\<lambda>(k, d). mapf k d) (chain_entries he) s"
  by (induction mapf he s rule: chain_map.induct) auto

lemma hash_map_loop_entries:
  "hash_map_loop mapf hs s = fold (\<lambda>(k, d). mapf k d) (concat (map bucket hs)) s"
  by (induction mapf hs s rule: hash_map_loop.induct) (auto simp: bucket_def chain_map_entries)

lemma hash_count_buckets: "hash_wf p \<Longrightarrow> hash_count p = length (concat (map bucket (hash_data p)))"
  by (simp add: hash_count_def hash_wf_def length_concat bucket_def chain_count_entries comp_def if_distrib
      cong: if_cong)

lemma hash_wfD:
  assumes "hash_wf p" "i < hash_size p"
  shows "he_data (hash_data p ! i) = None \<Longrightarrow> hash_data p ! i = HE None 0 None"
    "(k, d) \<in> set (bucket (hash_data p ! i)) \<Longrightarrow> k mod hash_size p = i \<and> d \<noteq> None"
  using assms by (auto simp: hash_wf_def Let_def)

lemma hash_find_lookup:
  assumes "hash_wf p"
  shows "hash_find p key = Ret d \<longleftrightarrow> hash_lookup p key = d \<and> d \<noteq> None"
proof -
  let ?k = "key mod hash_size p"
  have k: "?k < hash_size p" "hash_size p \<noteq> 0" "length (hash_data p) = hash_size p"
    using assms by (auto simp: hash_wf_def)
  have find: "hash_find p key = (if he_data (hash_data p ! ?k) = None then Err EOTHER
      else chain_find key (hash_data p ! ?k))"
    using k unfolding hash_find_def Let_def by (simp only: not_le if_False if_not_P)
  show ?thesis
  proof (cases "map_of (bucket (hash_data p ! ?k)) key")
    case None
    then show ?thesis
      unfolding find by (simp add: hash_lookup_def bucket_def chain_find_entries split: if_splits)
  next
    case (Some d')
    then have "d' \<noteq> None" using hash_wfD(2) [OF assms k(1) map_of_SomeD [OF Some]] by simp
    then show ?thesis
      using Some unfolding find by (auto simp: hash_lookup_def bucket_def chain_find_entries split: if_splits)
  qed
qed

text \<open>An insertion appends the entry to the bucket of its key.\<close>

lemma hash_ins_bucket:
  fixes p :: "'a hash_buf" and key :: nat
  assumes wf: "hash_wf p" and d: "d \<noteq> None"
  defines "k \<equiv> key mod hash_size p"
  shows "\<exists>p'. hash_ins ee True p key d = Ret p' \<and> hash_wf p' \<and> hash_size p' = hash_size p \<and>
    (\<forall>i < hash_size p. bucket (hash_data p' ! i) =
       bucket (hash_data p ! i) @ (if k = i then [(key, d)] else []))"
proof -
  have k: "k < hash_size p" "hash_size p \<noteq> 0" "length (hash_data p) = hash_size p"
    using wf by (auto simp: hash_wf_def k_def)
  let ?q = "hash_data p ! k"
  define q' where "q' = (if he_data ?q = None then HE d key (he_next ?q) else chain_append ?q (HE d key None))"
  let ?p = "p\<lparr>hash_data := (hash_data p)[k := q']\<rparr>"
  have ins: "hash_ins ee True p key d = Ret ?p"
    using k by (simp add: hash_ins_def q'_def Let_def flip: k_def)
  have "he_data q' \<noteq> None" "bucket q' = bucket ?q @ [(key, d)]"
    using d hash_wfD(1) [OF wf k(1)] by (auto simp: q'_def bucket_def chain_entries_append)
  then have b: "bucket (hash_data ?p ! i) = bucket (hash_data p ! i) @ (if k = i then [(key, d)] else [])"
    if "i < hash_size p" for i
    using that k by (simp add: nth_list_update)
  have "hash_wf ?p"
    unfolding hash_wf_def Let_def
  proof (intro conjI allI impI)
    fix i assume i: "i < hash_size ?p"
    show "he_data (hash_data ?p ! i) = None \<Longrightarrow> hash_data ?p ! i = HE None 0 None"
      using hash_wfD(1) [OF wf] i k \<open>he_data q' \<noteq> None\<close> by (auto simp: nth_list_update split: if_splits)
    show "\<forall>(ka, d) \<in> set (bucket (hash_data ?p ! i)). ka mod hash_size ?p = i \<and> d \<noteq> None"
      using hash_wfD(2) [OF wf, of i] b [of i] i d by (auto simp: k_def split: if_splits)
  qed (use wf in \<open>auto simp: hash_wf_def\<close>)
  then show ?thesis using ins b by auto
qed

lemma hash_eqI:
  assumes "hash_wf p" "hash_wf q" "hash_size p = hash_size q"
    "\<And>i. i < hash_size p \<Longrightarrow> bucket (hash_data p ! i) = bucket (hash_data q ! i)"
  shows "p = q"
proof -
  have ne: "chain_entries x \<noteq> []" for x :: "'a hash_data_s"
    by (cases x rule: chain_entries.cases) auto
  have inj: "chain_entries x = chain_entries y \<Longrightarrow> x = y" for x y :: "'a hash_data_s"
    by (induction x arbitrary: y rule: chain_entries.induct; case_tac y rule: chain_entries.cases)
      (auto simp: ne ne [symmetric])
  have "hash_data p ! i = hash_data q ! i" if "i < hash_size p" for i
    using assms(4) [OF that] hash_wfD(1) [OF assms(1), of i] hash_wfD(1) [OF assms(2), of i] that assms(3)
      inj ne by (cases "he_data (hash_data p ! i)"; cases "he_data (hash_data q ! i)") (simp_all add: bucket_def ne [symmetric])
  then have "hash_data p = hash_data q"
    using assms by (intro nth_equalityI) (auto simp: hash_wf_def)
  then show ?thesis using assms(3) by simp
qed

lemma fold_clone_helper:
  assumes "hash_wf p" "\<forall>(k, d) \<in> set es. d \<noteq> None"
  shows "\<exists>p'. fold (\<lambda>(k, d). hash_clone_helper ee (\<lambda>_ _. True) k d) es (Ret (p, False)) = Ret (p', False) \<and>
    hash_wf p' \<and> hash_size p' = hash_size p \<and>
    (\<forall>i < hash_size p. bucket (hash_data p' ! i) =
       bucket (hash_data p ! i) @ filter (\<lambda>(k, d). k mod hash_size p = i) es)"
  using assms
proof (induction es arbitrary: p)
  case (Cons e es)
  obtain k d where e: "e = (k, d)" by (cases e)
  obtain p1 where p1: "hash_ins ee True p k d = Ret p1" "hash_wf p1" "hash_size p1 = hash_size p"
    "\<forall>i < hash_size p. bucket (hash_data p1 ! i) =
       bucket (hash_data p ! i) @ (if k mod hash_size p = i then [(k, d)] else [])"
    using hash_ins_bucket [OF Cons.prems(1), of d ee k] Cons.prems(2) e by auto
  show ?case using Cons.IH [OF p1(2)] Cons.prems(2) p1 e by auto
qed simp

lemma filter_buckets:
  assumes "hash_wf p" "i < hash_size p"
  shows "filter (\<lambda>(k, d). k mod hash_size p = i) (concat (map bucket (hash_data p))) =
    bucket (hash_data p ! i)"
proof -
  let ?n = "hash_size p" and ?b = "\<lambda>j. bucket (hash_data p ! j)"
  let ?P = "\<lambda>(k, d). k mod hash_size p = i"
  have len: "length (hash_data p) = ?n" using assms(1) by (simp add: hash_wf_def)
  have b: "filter ?P (?b j) = (if j = i then ?b j else [])" if "j < ?n" for j
    using hash_wfD(2) [OF assms(1) that] by (auto simp: filter_empty_conv intro!: filter_True)
  have "map bucket (hash_data p) = map ?b [0..<?n]"
    using len by (intro nth_equalityI) auto
  then have "filter ?P (concat (map bucket (hash_data p))) = concat (map (\<lambda>j. filter ?P (?b j)) [0..<?n])"
    by (simp add: filter_concat comp_def)
  also have "\<dots> = concat (map (\<lambda>j. if j = i then ?b j else []) [0..<?n])"
    using b by (auto intro!: arg_cong [where f = concat])
  also have "[0..<?n] = [0..<i] @ i # [Suc i..<?n]"
    using assms(2) upt_add_eq_append [of 0 i "?n - i"] upt_conv_Cons [of i ?n] by simp
  also have "concat (map (\<lambda>j. if j = i then ?b j else []) \<dots>) = ?b i"
  proof -
    have "concat (map (\<lambda>j. if j = i then ?b j else []) js) = []" if "i \<notin> set js" for js
      using that by (induction js) auto
    from this [of "[0..<i]"] this [of "[Suc i..<?n]"] show ?thesis by (simp del: concat_eq_Nil_conv)
  qed
  finally show ?thesis .
qed

lemma hash_init_wf:
  "0 < n \<Longrightarrow> n < 2 ^ 32 \<Longrightarrow> hash_init ee True True n = Ret p \<Longrightarrow>
   hash_wf p \<and> hash_size p = n \<and> (\<forall>i < n. bucket (hash_data p ! i) = [])"
  by (auto simp: hash_init_def hash_wf_def bucket_def u32_id Let_def)

lemma hash_ins_lookup:
  assumes "hash_wf p" "d \<noteq> None"
  shows "\<exists>p'. hash_ins ee True p key d = Ret p' \<and> hash_wf p' \<and> hash_count p' = Suc (hash_count p) \<and>
    (\<forall>k. hash_lookup p' k = (if k = key \<and> hash_lookup p key = None then d else hash_lookup p k))"
proof -
  let ?k = "key mod hash_size p"
  have n: "?k < hash_size p" "length (hash_data p) = hash_size p" using assms(1) by (auto simp: hash_wf_def)
  obtain p' where p': "hash_ins ee True p key d = Ret p'" "hash_wf p'" "hash_size p' = hash_size p"
    and b: "\<forall>i < hash_size p. bucket (hash_data p' ! i) =
       bucket (hash_data p ! i) @ (if ?k = i then [(key, d)] else [])"
    using hash_ins_bucket [OF assms] by blast
  have some: "y \<noteq> None" if "map_of (bucket (hash_data p ! (k mod hash_size p))) k = Some y" for k y
    using hash_wfD(2) [OF assms(1) _ map_of_SomeD [OF that]] assms(1) by (auto simp: hash_wf_def)
  have "hash_lookup p' k = (if k = key \<and> hash_lookup p key = None then d else hash_lookup p k)" for k
  proof -
    have "k mod hash_size p < hash_size p" using n by (metis mod_less_divisor neq0_conv not_less0)
    then have bk: "bucket (hash_data p' ! (k mod hash_size p)) = bucket (hash_data p ! (k mod hash_size p)) @
        (if ?k = k mod hash_size p then [(key, d)] else [])"
      using b by blast
    show ?thesis
    proof (cases "map_of (bucket (hash_data p ! (k mod hash_size p))) k")
      case None
      then show ?thesis unfolding hash_lookup_def p'(3) bk by (cases "k = key") (simp_all add: map_add_def)
    next
      case (Some y)
      then show ?thesis using some [OF Some] unfolding hash_lookup_def p'(3) bk
        by (cases "k = key") (auto simp: map_add_def)
    qed
  qed
  moreover have "hash_count p' = Suc (hash_count p)"
  proof -
    have len: "length (hash_data p') = hash_size p" using p'(2,3) by (simp add: hash_wf_def)
    have "hash_count p' = (\<Sum>i<hash_size p. length (bucket (hash_data p' ! i)))"
      using p' len by (simp add: hash_count_buckets length_concat sum_list_sum_nth atLeast0LessThan)
    also have "\<dots> = (\<Sum>i<hash_size p. length (bucket (hash_data p ! i)) + (if ?k = i then 1 else 0))"
      using b by (intro sum.cong) auto
    also have "\<dots> = hash_count p + 1"
      using n assms(1) by (simp add: sum.distrib hash_count_buckets length_concat sum_list_sum_nth atLeast0LessThan)
    finally show ?thesis by simp
  qed
  ultimately show ?thesis using p' by blast
qed

section \<open>Properties\<close>

text \<open>
  C14. \<open>hash_ins\<close> followed by \<open>hash_find\<close>: other keys are found as before, and the inserted key
  is found with the data it had first, the new one if it had none. The count grows by one.
\<close>

theorem hash_ins_find:
  assumes "hash_wf p" "d \<noteq> None"
  shows "\<exists>p'. hash_ins ee True p key d = Ret p' \<and> hash_wf p' \<and> hash_count p' = Suc (hash_count p) \<and>
    (\<forall>k x. hash_find p' k = Ret x \<longleftrightarrow>
       hash_find p k = Ret x \<or> (k = key \<and> x = d \<and> (\<nexists>y. hash_find p key = Ret y)))"
proof -
  obtain p' where p': "hash_ins ee True p key d = Ret p'" "hash_wf p'" "hash_count p' = Suc (hash_count p)"
    "\<forall>k. hash_lookup p' k = (if k = key \<and> hash_lookup p key = None then d else hash_lookup p k)"
    using hash_ins_lookup [OF assms] by blast
  then show ?thesis
    using assms(2) by (intro exI [of _ p']) (auto simp: hash_find_lookup [OF p'(2)] hash_find_lookup [OF assms(1)])
qed

theorem hash_ins_find_witness:
  "\<exists>p'. hash_ins False True \<lparr>hash_size = 2, hash_data = [HE (Some ''a'') 4 None, HE None 0 None]\<rparr> 6 (Some ''b'') = Ret p' \<and>
     hash_wf p' \<and> hash_count p' = 2 \<and> hash_find p' 4 = Ret (Some ''a'') \<and> hash_find p' 6 = Ret (Some ''b'')"
proof -
  let ?p = "\<lparr>hash_size = 2, hash_data = [HE (Some ''a'') 4 None, HE None 0 None]\<rparr>"
  have "hash_wf ?p" by (simp add: hash_wf_def bucket_def less_2_cases_iff)
  then obtain p' where p': "hash_ins False True ?p 6 (Some ''b'') = Ret p'" "hash_wf p'"
    "hash_count p' = Suc (hash_count ?p)"
    "\<And>k x. hash_find p' k = Ret x \<longleftrightarrow>
       hash_find ?p k = Ret x \<or> (k = 6 \<and> x = Some ''b'' \<and> (\<nexists>y. hash_find ?p 6 = Ret y))"
    using hash_ins_find [of ?p "Some ''b''" False 6] by auto
  then show ?thesis by (auto simp: hash_find_def hash_count_def)
qed

text \<open>
  \<open>hash_clone\<close> builds a table equal to its argument, chain by chain in the same order, when
  the allocations succeed.
\<close>

theorem hash_clone_same:
  assumes "hash_wf p"
  shows "hash_clone ee True True (\<lambda>_ _. True) p = Ret p"
proof -
  let ?n = "hash_size p" and ?es = "concat (map bucket (hash_data p))"
  have n: "0 < ?n" "?n < 2 ^ 32" "length (hash_data p) = ?n" using assms by (auto simp: hash_wf_def)
  obtain q :: "'a hash_buf" where init: "hash_init ee True True ?n = Ret q" by (simp add: hash_init_def)
  then have q: "hash_wf q" "hash_size q = ?n" "\<forall>i < ?n. bucket (hash_data q ! i) = []"
    using hash_init_wf [OF n(1,2)] by auto
  have "d \<noteq> None" if kd: "(k, d) \<in> set ?es" for k d
  proof -
    obtain i where "i < ?n" "(k, d) \<in> set (bucket (hash_data p ! i))"
      using kd n(3) by (auto simp: in_set_conv_nth [of _ "hash_data p"])
    then show ?thesis using hash_wfD(2) [OF assms] by blast
  qed
  then have "\<forall>(k, d) \<in> set ?es. d \<noteq> None" by blast
  then obtain p' where p': "hash_map p (hash_clone_helper ee (\<lambda>_ _. True)) (Ret (q, False)) = Ret (p', False)"
    "hash_wf p'" "hash_size p' = ?n"
    "\<forall>i < ?n. bucket (hash_data p' ! i) = filter (\<lambda>(k, d). k mod ?n = i) ?es"
    using fold_clone_helper [OF q(1), of ?es ee] q(2,3) n(3)
    unfolding hash_map_def hash_map_loop_entries by (simp only: take_all order_refl) fastforce
  have "p' = p"
    by (rule hash_eqI) (use p' filter_buckets [OF assms] assms in simp_all)
  then show ?thesis using init p'(1) by (simp add: hash_clone_def)
qed

theorem hash_clone_same_witness:
  "hash_clone False True True (\<lambda>_ _. True)
     \<lparr>hash_size = 2, hash_data = [HE (Some ''a'') 4 (Some (HE (Some ''b'') 6 None)), HE None 0 None]\<rparr> =
   Ret \<lparr>hash_size = 2, hash_data = [HE (Some ''a'') 4 (Some (HE (Some ''b'') 6 None)), HE None 0 None]\<rparr>"
  by (rule hash_clone_same) (simp add: hash_wf_def bucket_def less_2_cases_iff)

text \<open>
  Removing the only entry of a bucket hands its data out and leaves it in the table, so the
  same key can be found and removed again.
\<close>

theorem hash_rem_sole_stays:
  assumes "hash_wf p" "hash_data p ! (key mod hash_size p) = HE (Some d) key None"
  shows "hash_rem p key = Ret (Some d, p)"
  using assms by (auto simp: hash_rem_def hash_wf_def Let_def not_le)

theorem hash_rem_sole_stays_witness:
  "hash_rem \<lparr>hash_size = 2, hash_data = [HE (Some ''a'') 4 None, HE None 0 None]\<rparr> 4 =
   Ret (Some ''a'', \<lparr>hash_size = 2, hash_data = [HE (Some ''a'') 4 None, HE None 0 None]\<rparr>)"
  by (rule hash_rem_sole_stays) (simp_all add: hash_wf_def bucket_def less_2_cases_iff)

end
