(* ===== verification/Cl_Que.thy ===== *)
theory Cl_Que
  imports Spegla_Prelude "HOL-Library.Multiset"
begin

text \<open>
  The circular doubly linked lists \<open>cl_que\<close> of container.c (51-378), on an explicit store of
  cells, and their refinement to lists. A list is its header cell; \<open>insque\<close> and \<open>remque\<close> are
  those of the standard library.
\<close>

section \<open>The store\<close>

type_synonym addr = nat

record 'a cl_que =
  q_forw :: addr
  q_back :: addr
  q_data :: "'a option"

text \<open>
  \<open>malloc\<close> takes the next address; freed cells are gone. The links of a new cell, which every
  caller sets before it reads them, point to the cell itself.
\<close>

record 'a cl_mem =
  cm_cell :: "addr \<rightharpoonup> 'a cl_que"
  cm_next :: addr

definition look :: "'a cl_mem \<Rightarrow> addr \<Rightarrow> 'a cl_que outcome" where
  "look m p = (case cm_cell m p of Some c \<Rightarrow> Ret c | None \<Rightarrow> Undef)"

definition put :: "addr \<Rightarrow> 'a cl_que \<Rightarrow> 'a cl_mem \<Rightarrow> 'a cl_mem" where
  "put p c m = m\<lparr>cm_cell := (cm_cell m)(p \<mapsto> c)\<rparr>"

definition set_forw :: "addr \<Rightarrow> addr \<Rightarrow> 'a cl_mem \<Rightarrow> 'a cl_mem outcome" where
  "set_forw p v m = bindO (look m p) (\<lambda>c. Ret (put p (c\<lparr>q_forw := v\<rparr>) m))"

definition set_back :: "addr \<Rightarrow> addr \<Rightarrow> 'a cl_mem \<Rightarrow> 'a cl_mem outcome" where
  "set_back p v m = bindO (look m p) (\<lambda>c. Ret (put p (c\<lparr>q_back := v\<rparr>) m))"

definition CL_NEXT :: "'a cl_mem \<Rightarrow> addr \<Rightarrow> addr outcome" where
  "CL_NEXT m q = bindO (look m q) (\<lambda>c. Ret (q_forw c))"

definition CL_PREV :: "'a cl_mem \<Rightarrow> addr \<Rightarrow> addr outcome" where
  "CL_PREV m q = bindO (look m q) (\<lambda>c. Ret (q_back c))"

text \<open>The data of a list element; the header has none.\<close>

definition CL_DATA :: "'a cl_mem \<Rightarrow> addr \<Rightarrow> 'a outcome" where
  "CL_DATA m q = bindO (look m q) (\<lambda>c. case q_data c of Some x \<Rightarrow> Ret x | None \<Rightarrow> Undef)"

definition cl_malloc :: "bool \<Rightarrow> bool \<Rightarrow> 'a option \<Rightarrow> 'a cl_mem \<Rightarrow> (addr \<times> 'a cl_mem) outcome" where
  "cl_malloc container_err_exit ok x m =
     (if \<not> ok then alloc_fail container_err_exit
      else let p = cm_next m in
        Ret (p, (put p \<lparr>q_forw = p, q_back = p, q_data = x\<rparr> m)\<lparr>cm_next := Suc p\<rparr>))"

definition cl_dealloc :: "addr \<Rightarrow> 'a cl_mem \<Rightarrow> 'a cl_mem" where
  "cl_dealloc p m = m\<lparr>cm_cell := (cm_cell m)(p := None)\<rparr>"

definition insque :: "addr \<Rightarrow> addr \<Rightarrow> 'a cl_mem \<Rightarrow> 'a cl_mem outcome" where
  "insque e p m =
     bindO (CL_NEXT m p) (\<lambda>n.
       bindO (set_forw e n m) (\<lambda>m. bindO (set_back e p m) (\<lambda>m.
         bindO (set_back n e m) (\<lambda>m. set_forw p e m))))"

definition remque :: "addr \<Rightarrow> 'a cl_mem \<Rightarrow> 'a cl_mem outcome" where
  "remque e m =
     bindO (CL_NEXT m e) (\<lambda>n. bindO (CL_PREV m e) (\<lambda>p.
       bindO (set_back n p m) (\<lambda>m. set_forw p n m)))"

section \<open>Operations\<close>

definition cl_init :: "bool \<Rightarrow> bool \<Rightarrow> 'a cl_mem \<Rightarrow> (addr \<times> 'a cl_mem) outcome" where
  "cl_init container_err_exit ok m = cl_malloc container_err_exit ok None m"

text \<open>
  The loops have fuel; running out of it is \<open>Undef\<close>. \<open>cl_free\<close> also returns the data in the order in
  which \<open>free_fun\<close> is called on them, if it is not \<open>NULL\<close>.
\<close>

fun cl_free_loop :: "nat \<Rightarrow> addr \<Rightarrow> 'a cl_mem \<Rightarrow> ('a list \<times> 'a cl_mem) outcome" where
  "cl_free_loop 0 headp m = Undef"
| "cl_free_loop (Suc n) headp m =
     bindO (CL_NEXT m headp) (\<lambda>p.
       if p = headp then Ret ([], cl_dealloc headp m)
       else bindO (CL_DATA m p) (\<lambda>x. bindO (remque p m) (\<lambda>m.
         bindO (cl_free_loop n headp (cl_dealloc p m)) (\<lambda>(xs, m). Ret (x # xs, m)))))"

definition cl_free :: "nat \<Rightarrow> addr option \<Rightarrow> 'a cl_mem \<Rightarrow> ('a list \<times> 'a cl_mem) outcome" where
  "cl_free n headp m = (case headp of None \<Rightarrow> Ret ([], m) | Some h \<Rightarrow> cl_free_loop n h m)"

definition cl_peek_pos :: "addr option \<Rightarrow> 'a cl_mem \<Rightarrow> addr outcome" where
  "cl_peek_pos headp m =
     (case headp of None \<Rightarrow> Err ENOENT
      | Some h \<Rightarrow> bindO (CL_NEXT m h) (\<lambda>p. if p = h then Err ENOENT else Ret p))"

definition cl_peek :: "addr option \<Rightarrow> 'a cl_mem \<Rightarrow> 'a outcome" where
  "cl_peek headp m = bindO (cl_peek_pos headp m) (CL_DATA m)"

definition cl_tail_peek_pos :: "addr option \<Rightarrow> 'a cl_mem \<Rightarrow> addr outcome" where
  "cl_tail_peek_pos headp m =
     (case headp of None \<Rightarrow> Err ENOENT
      | Some h \<Rightarrow> bindO (CL_PREV m h) (\<lambda>p. if p = h then Err ENOENT else Ret p))"

definition cl_tail_peek :: "addr option \<Rightarrow> 'a cl_mem \<Rightarrow> 'a outcome" where
  "cl_tail_peek headp m = bindO (cl_tail_peek_pos headp m) (CL_DATA m)"

text \<open>The walks take \<open>*pos\<close>, \<open>None\<close> at the start; at the end they return \<open>-1\<close> without setting \<open>errno\<close>.\<close>

definition cl_walk :: "addr \<Rightarrow> addr option \<Rightarrow> 'a cl_mem \<Rightarrow> (addr \<times> 'a) outcome" where
  "cl_walk headp pos m =
     (case pos of
        None \<Rightarrow> bindO (cl_peek_pos (Some headp) m) (\<lambda>p. bindO (CL_DATA m p) (\<lambda>x. Ret (p, x)))
      | Some p \<Rightarrow>
        if p = headp then Err EOTHER
        else bindO (CL_NEXT m p) (\<lambda>p. if p = headp then Err EOTHER else bindO (CL_DATA m p) (\<lambda>x. Ret (p, x))))"

definition cl_walk_back :: "addr \<Rightarrow> addr option \<Rightarrow> 'a cl_mem \<Rightarrow> (addr \<times> 'a) outcome" where
  "cl_walk_back headp pos m =
     (case pos of
        None \<Rightarrow> bindO (cl_tail_peek_pos (Some headp) m) (\<lambda>p. bindO (CL_DATA m p) (\<lambda>x. Ret (p, x)))
      | Some p \<Rightarrow>
        if p = headp then Err EOTHER
        else bindO (CL_PREV m p) (\<lambda>p. if p = headp then Err EOTHER else bindO (CL_DATA m p) (\<lambda>x. Ret (p, x))))"

fun cl_count_loop :: "nat \<Rightarrow> addr \<Rightarrow> addr \<Rightarrow> nat \<Rightarrow> 'a cl_mem \<Rightarrow> nat outcome" where
  "cl_count_loop 0 cl p num m = Undef"
| "cl_count_loop (Suc n) cl p num m =
     (if p = cl then Ret num else bindO (CL_NEXT m p) (\<lambda>p. cl_count_loop n cl p (u32 (num + 1)) m))"

definition cl_count :: "nat \<Rightarrow> addr \<Rightarrow> 'a cl_mem \<Rightarrow> nat outcome" where
  "cl_count n cl m = bindO (CL_NEXT m cl) (\<lambda>p. cl_count_loop n cl p 0 m)"

definition cl_push :: "bool \<Rightarrow> bool \<Rightarrow> addr \<Rightarrow> 'a \<Rightarrow> 'a cl_mem \<Rightarrow> 'a cl_mem outcome" where
  "cl_push container_err_exit ok headp x m =
     bindO (cl_malloc container_err_exit ok (Some x) m) (\<lambda>(p, m). insque p headp m)"

definition cl_tail_push :: "bool \<Rightarrow> bool \<Rightarrow> addr \<Rightarrow> 'a \<Rightarrow> 'a cl_mem \<Rightarrow> 'a cl_mem outcome" where
  "cl_tail_push container_err_exit ok headp x m =
     bindO (cl_malloc container_err_exit ok (Some x) m) (\<lambda>(p, m).
       bindO (CL_PREV m headp) (\<lambda>b. insque p b m))"

definition cl_take :: "addr \<Rightarrow> 'a cl_mem \<Rightarrow> ('a \<times> 'a cl_mem) outcome" where
  "cl_take p m = bindO (remque p m) (\<lambda>m. bindO (CL_DATA m p) (\<lambda>x. Ret (x, cl_dealloc p m)))"

definition cl_pop :: "addr option \<Rightarrow> 'a cl_mem \<Rightarrow> ('a \<times> 'a cl_mem) outcome" where
  "cl_pop headp m = bindO (cl_peek_pos headp m) (\<lambda>p. cl_take p m)"

definition cl_tail_pop :: "addr option \<Rightarrow> 'a cl_mem \<Rightarrow> ('a \<times> 'a cl_mem) outcome" where
  "cl_tail_pop headp m = bindO (cl_tail_peek_pos headp m) (\<lambda>p. cl_take p m)"

text \<open>The search for the place of \<open>x\<close>: the first cell that is greater, or the header.\<close>

fun cl_ins_place :: "nat \<Rightarrow> ('a \<Rightarrow> 'a \<Rightarrow> int) \<Rightarrow> addr \<Rightarrow> 'a \<Rightarrow> addr \<Rightarrow> 'a cl_mem \<Rightarrow> addr outcome" where
  "cl_ins_place 0 comp_fun headp x q m = Undef"
| "cl_ins_place (Suc n) comp_fun headp x q m =
     (if q = headp then Ret q
      else bindO (CL_DATA m q) (\<lambda>y.
        if 0 < comp_fun y x then Ret q
        else bindO (CL_NEXT m q) (\<lambda>q. cl_ins_place n comp_fun headp x q m)))"

definition cl_ins_sort_nomalloc :: "nat \<Rightarrow> addr \<Rightarrow> addr \<Rightarrow> ('a \<Rightarrow> 'a \<Rightarrow> int) \<Rightarrow> 'a cl_mem \<Rightarrow> 'a cl_mem outcome" where
  "cl_ins_sort_nomalloc n headp p comp_fun m =
     bindO (CL_DATA m p) (\<lambda>x. bindO (CL_NEXT m headp) (\<lambda>q.
       bindO (cl_ins_place n comp_fun headp x q m) (\<lambda>q. bindO (CL_PREV m q) (\<lambda>b. insque p b m))))"

definition cl_ins_sort ::
  "nat \<Rightarrow> bool \<Rightarrow> bool \<Rightarrow> addr \<Rightarrow> 'a \<Rightarrow> ('a \<Rightarrow> 'a \<Rightarrow> int) \<Rightarrow> 'a cl_mem \<Rightarrow> 'a cl_mem outcome" where
  "cl_ins_sort n container_err_exit ok headp x comp_fun m =
     bindO (cl_malloc container_err_exit ok (Some x) m) (\<lambda>(p, m).
       bindO (CL_NEXT m headp) (\<lambda>q.
         if q = headp then insque p headp m else cl_ins_sort_nomalloc n headp p comp_fun m))"

text \<open>The new position is \<open>None\<close> where the push failed.\<close>

definition cl_ins_after_pos :: "bool \<Rightarrow> bool \<Rightarrow> addr \<Rightarrow> 'a \<Rightarrow> 'a cl_mem \<Rightarrow> (addr option \<times> 'a cl_mem) outcome" where
  "cl_ins_after_pos container_err_exit ok pos x m =
     (case cl_push container_err_exit ok pos x m of
        Ret m \<Rightarrow> bindO (CL_NEXT m pos) (\<lambda>p. Ret (Some p, m))
      | Err e \<Rightarrow> Ret (None, m)
      | Exit n \<Rightarrow> Exit n
      | Undef \<Rightarrow> Undef)"

fun cl_find_loop :: "nat \<Rightarrow> addr \<Rightarrow> addr \<Rightarrow> ('a \<Rightarrow> bool) \<Rightarrow> 'a cl_mem \<Rightarrow> (addr \<times> 'a) outcome" where
  "cl_find_loop 0 headp q is_data m = Undef"
| "cl_find_loop (Suc n) headp q is_data m =
     (if q = headp then Err ENOENT
      else bindO (CL_DATA m q) (\<lambda>x.
        if is_data x then Ret (q, x)
        else bindO (CL_NEXT m q) (\<lambda>q. cl_find_loop n headp q is_data m)))"

definition cl_find_pos :: "nat \<Rightarrow> addr \<Rightarrow> ('a \<Rightarrow> bool) \<Rightarrow> 'a cl_mem \<Rightarrow> (addr \<times> 'a) outcome" where
  "cl_find_pos n headp is_data m = bindO (CL_NEXT m headp) (\<lambda>q. cl_find_loop n headp q is_data m)"

definition cl_find :: "nat \<Rightarrow> addr \<Rightarrow> ('a \<Rightarrow> bool) \<Rightarrow> 'a cl_mem \<Rightarrow> 'a outcome" where
  "cl_find n headp is_data m = bindO (cl_find_pos n headp is_data m) (\<lambda>(q, x). Ret x)"

text \<open>The data in the order in which \<open>map_fun\<close> is called on them.\<close>

fun cl_map_loop :: "nat \<Rightarrow> addr \<Rightarrow> addr \<Rightarrow> 'a cl_mem \<Rightarrow> 'a list outcome" where
  "cl_map_loop 0 headp q m = Undef"
| "cl_map_loop (Suc n) headp q m =
     (if q = headp then Ret []
      else bindO (CL_DATA m q) (\<lambda>x. bindO (CL_NEXT m q) (\<lambda>q.
        bindO (cl_map_loop n headp q m) (\<lambda>xs. Ret (x # xs)))))"

definition cl_map :: "nat \<Rightarrow> addr \<Rightarrow> 'a cl_mem \<Rightarrow> 'a list outcome" where
  "cl_map n headp m = bindO (CL_NEXT m headp) (\<lambda>q. cl_map_loop n headp q m)"

fun cl_sort_loop :: "nat \<Rightarrow> nat \<Rightarrow> addr \<Rightarrow> addr \<Rightarrow> ('a \<Rightarrow> 'a \<Rightarrow> int) \<Rightarrow> 'a cl_mem \<Rightarrow> 'a cl_mem outcome" where
  "cl_sort_loop 0 k headp q comp_fun m = Undef"
| "cl_sort_loop (Suc n) k headp q comp_fun m =
     bindO (CL_NEXT m q) (\<lambda>p.
       if p = q then cl_ins_sort_nomalloc k headp q comp_fun m
       else bindO (remque q m) (\<lambda>m. bindO (cl_ins_sort_nomalloc k headp q comp_fun m) (\<lambda>m.
         cl_sort_loop n k headp p comp_fun m)))"

definition cl_sort :: "nat \<Rightarrow> addr \<Rightarrow> ('a \<Rightarrow> 'a \<Rightarrow> int) \<Rightarrow> 'a cl_mem \<Rightarrow> 'a cl_mem outcome" where
  "cl_sort n headp comp_fun m =
     bindO (CL_NEXT m headp) (\<lambda>q.
       if q = headp then Ret m
       else bindO (remque headp m) (\<lambda>m. bindO (set_forw headp headp m) (\<lambda>m.
         bindO (set_back headp headp m) (\<lambda>m. cl_sort_loop n n headp q comp_fun m))))"

definition cl_rem_pos :: "addr \<Rightarrow> 'a cl_mem \<Rightarrow> 'a cl_mem outcome" where
  "cl_rem_pos q m =
     bindO (CL_NEXT m q) (\<lambda>p. if q = p then Err ENOENT else bindO (remque q m) (\<lambda>m. Ret (cl_dealloc q m)))"

definition cl_rem :: "nat \<Rightarrow> addr \<Rightarrow> ('a \<Rightarrow> bool) \<Rightarrow> 'a cl_mem \<Rightarrow> ('a \<times> 'a cl_mem) outcome" where
  "cl_rem n headp is_data m =
     bindO (cl_find_pos n headp is_data m) (\<lambda>(p, x). bindO (cl_rem_pos p m) (\<lambda>m. Ret (x, m)))"

section \<open>Rings\<close>

text \<open>
  \<open>a\<close> and \<open>b\<close> are neighbours; a ring is a header \<open>h\<close> and the elements, addresses with their data,
  linked in both directions.
\<close>

definition fw :: "'a cl_mem \<Rightarrow> addr \<Rightarrow> addr option" where
  "fw m a = map_option q_forw (cm_cell m a)"

definition bk :: "'a cl_mem \<Rightarrow> addr \<Rightarrow> addr option" where
  "bk m a = map_option q_back (cm_cell m a)"

definition dat :: "'a cl_mem \<Rightarrow> addr \<Rightarrow> 'a option" where
  "dat m a = (case cm_cell m a of Some c \<Rightarrow> q_data c | None \<Rightarrow> None)"

definition lnk :: "'a cl_mem \<Rightarrow> addr \<Rightarrow> addr \<Rightarrow> bool" where
  "lnk m a b \<longleftrightarrow> fw m a = Some b \<and> bk m b = Some a"

definition cycle :: "'a cl_mem \<Rightarrow> addr list \<Rightarrow> bool" where
  "cycle m as \<longleftrightarrow> distinct as \<and> successively (lnk m) (as @ [hd as])"

definition ring :: "'a cl_mem \<Rightarrow> addr \<Rightarrow> (addr \<times> 'a) list \<Rightarrow> bool" where
  "ring m h ps \<longleftrightarrow> cycle m (h # map fst ps) \<and> list_all (\<lambda>(a, x). dat m a = Some x) ps"

text \<open>Addresses that are in use lie below the next one.\<close>

definition mem_ok :: "'a cl_mem \<Rightarrow> bool" where
  "mem_ok m \<longleftrightarrow> (\<forall>a. cm_next m \<le> a \<longrightarrow> cm_cell m a = None)"

lemma fw_cell: "fw m a = Some b \<Longrightarrow> \<exists>c. cm_cell m a = Some c \<and> q_forw c = b"
  and bk_cell: "bk m a = Some b \<Longrightarrow> \<exists>c. cm_cell m a = Some c \<and> q_back c = b"
  by (auto simp: fw_def bk_def)

lemma CL_NEXT_fw: "fw m a = Some b \<Longrightarrow> CL_NEXT m a = Ret b"
  by (auto simp: CL_NEXT_def look_def dest!: fw_cell)

lemma CL_PREV_bk: "bk m a = Some b \<Longrightarrow> CL_PREV m a = Ret b"
  by (auto simp: CL_PREV_def look_def dest!: bk_cell)

lemma CL_DATA_dat: "dat m a = Some x \<Longrightarrow> CL_DATA m a = Ret x"
  by (auto simp: CL_DATA_def dat_def look_def split: option.splits)

text \<open>What the writes do to links and data.\<close>

definition same_shape :: "'a cl_mem \<Rightarrow> 'a cl_mem \<Rightarrow> bool" where
  "same_shape m m' \<longleftrightarrow> dom (cm_cell m') = dom (cm_cell m) \<and> dat m' = dat m \<and> cm_next m' = cm_next m"

lemma set_forw_ok:
  assumes "p \<in> dom (cm_cell m)"
  obtains m' where "set_forw p v m = Ret m'" "fw m' = (fw m)(p \<mapsto> v)" "bk m' = bk m" "same_shape m m'"
proof -
  obtain c where c: "cm_cell m p = Some c" using assms by auto
  let ?m = "put p (c\<lparr>q_forw := v\<rparr>) m"
  have "set_forw p v m = Ret ?m" using c by (simp add: set_forw_def look_def)
  moreover have "fw ?m = (fw m)(p \<mapsto> v)" "bk ?m = bk m" "same_shape m ?m"
    using c by (auto simp: fw_def bk_def put_def same_shape_def dat_def fun_eq_iff dom_def)
  ultimately show thesis using that by blast
qed

lemma set_back_ok:
  assumes "p \<in> dom (cm_cell m)"
  obtains m' where "set_back p v m = Ret m'" "bk m' = (bk m)(p \<mapsto> v)" "fw m' = fw m" "same_shape m m'"
proof -
  obtain c where c: "cm_cell m p = Some c" using assms by auto
  let ?m = "put p (c\<lparr>q_back := v\<rparr>) m"
  have "set_back p v m = Ret ?m" using c by (simp add: set_back_def look_def)
  moreover have "bk ?m = (bk m)(p \<mapsto> v)" "fw ?m = fw m" "same_shape m ?m"
    using c by (auto simp: fw_def bk_def put_def same_shape_def dat_def fun_eq_iff dom_def)
  ultimately show thesis using that by blast
qed

lemma same_shape_trans: "same_shape m m1 \<Longrightarrow> same_shape m1 m2 \<Longrightarrow> same_shape m m2"
  by (simp add: same_shape_def)

lemma dom_fw: "dom (fw m) = dom (cm_cell m)" and dom_bk: "dom (bk m) = dom (cm_cell m)"
  by (auto simp: fw_def bk_def dom_def)

lemma insque_ok:
  assumes "fw m p = Some n" "n \<in> dom (cm_cell m)" "e \<in> dom (cm_cell m)" "e \<noteq> p" "e \<noteq> n"
  obtains m' where "insque e p m = Ret m'" "fw m' = (fw m)(p \<mapsto> e, e \<mapsto> n)" "bk m' = (bk m)(n \<mapsto> e, e \<mapsto> p)"
    "same_shape m m'"
proof -
  have p: "p \<in> dom (cm_cell m)" using assms(1) dom_fw by blast
  obtain m1 where 1: "set_forw e n m = Ret m1" "fw m1 = (fw m)(e \<mapsto> n)" "bk m1 = bk m" "same_shape m m1"
    using set_forw_ok [OF assms(3)] by blast
  obtain m2 where 2: "set_back e p m1 = Ret m2" "bk m2 = (bk m1)(e \<mapsto> p)" "fw m2 = fw m1" "same_shape m1 m2"
    using set_back_ok [of e m1] assms(3) 1(4) by (auto simp: same_shape_def)
  obtain m3 where 3: "set_back n e m2 = Ret m3" "bk m3 = (bk m2)(n \<mapsto> e)" "fw m3 = fw m2" "same_shape m2 m3"
    using set_back_ok [of n m2] assms(2) 1(4) 2(4) by (auto simp: same_shape_def)
  obtain m4 where 4: "set_forw p e m3 = Ret m4" "fw m4 = (fw m3)(p \<mapsto> e)" "bk m4 = bk m3" "same_shape m3 m4"
    using set_forw_ok [of p m3] p 1(4) 2(4) 3(4) by (auto simp: same_shape_def)
  show thesis
  proof (rule that)
    show "insque e p m = Ret m4" using CL_NEXT_fw [OF assms(1)] 1(1) 2(1) 3(1) 4(1) by (simp add: insque_def)
    show "same_shape m m4" using 1(4) 2(4) 3(4) 4(4) same_shape_trans by blast
    show "fw m4 = (fw m)(p \<mapsto> e, e \<mapsto> n)" "bk m4 = (bk m)(n \<mapsto> e, e \<mapsto> p)"
      using 1(2,3) 2(2,3) 3(2,3) 4(2,3) assms(4,5) by (auto simp: fun_eq_iff)
  qed
qed

lemma remque_ok:
  assumes "fw m e = Some n" "bk m e = Some p" "n \<in> dom (cm_cell m)" "p \<in> dom (cm_cell m)"
  obtains m' where "remque e m = Ret m'" "fw m' = (fw m)(p \<mapsto> n)" "bk m' = (bk m)(n \<mapsto> p)" "same_shape m m'"
proof -
  obtain m1 where 1: "set_back n p m = Ret m1" "bk m1 = (bk m)(n \<mapsto> p)" "fw m1 = fw m" "same_shape m m1"
    using set_back_ok [OF assms(3)] by blast
  obtain m2 where 2: "set_forw p n m1 = Ret m2" "fw m2 = (fw m1)(p \<mapsto> n)" "bk m2 = bk m1" "same_shape m1 m2"
    using set_forw_ok [of p m1] assms(4) 1(4) by (auto simp: same_shape_def)
  show thesis
    using that [of m2] 1 2 CL_NEXT_fw [OF assms(1)] CL_PREV_bk [OF assms(2)] same_shape_trans [of m m1 m2]
    by (simp add: remque_def)
qed

text \<open>Links that are not written stay.\<close>

lemma successively_lnk_eq:
  "successively (lnk m) L \<Longrightarrow> (\<And>x. x \<in> set (butlast L) \<Longrightarrow> fw m' x = fw m x) \<Longrightarrow>
   (\<And>x. x \<in> set (tl L) \<Longrightarrow> bk m' x = bk m x) \<Longrightarrow> successively (lnk m') L"
proof (induction L rule: induct_list012)
  case (3 x y zs)
  have "lnk m' x y" using 3(3-5) by (auto simp: lnk_def)
  moreover have "successively (lnk m') (y # zs)"
    using 3(3-5) by (intro 3(2)) auto
  ultimately show ?case by simp
qed auto

lemma cycle_rotate: "cycle m (as @ bs) \<Longrightarrow> cycle m (bs @ as)"
  by (cases "as = [] \<or> bs = []") (auto simp: cycle_def successively_append_iff)

lemma cycle_frame:
  assumes "cycle m as" "as \<noteq> []" "\<And>x. x \<in> set as \<Longrightarrow> fw m' x = fw m x \<and> bk m' x = bk m x"
  shows "cycle m' as"
  using assms successively_lnk_eq [of m "as @ [hd as]" m'] by (cases as) (auto simp: cycle_def)

lemma seam_facts:
  assumes "distinct (as @ bs)" "as \<noteq> []"
  shows "last as \<notin> set (butlast as)" "hd (bs @ [hd as]) \<notin> set (tl as)" "last as \<notin> set bs"
    "hd (bs @ [hd as]) \<notin> set (tl (bs @ [hd as]))" "hd (bs @ [hd as]) \<in> set (as @ bs)" "last as \<in> set (as @ bs)"
proof -
  have "distinct (butlast as @ [last as])" using assms by simp
  then show "last as \<notin> set (butlast as)" by simp
  obtain a as' where a: "as = a # as'" using assms(2) by (cases as) auto
  show "hd (bs @ [hd as]) \<notin> set (tl as)" "hd (bs @ [hd as]) \<notin> set (tl (bs @ [hd as]))" "hd (bs @ [hd as]) \<in> set (as @ bs)"
    using assms(1) a by (cases bs; auto)+
  have l: "last as \<in> set as" using assms(2) by simp
  show "last as \<notin> set bs" "last as \<in> set (as @ bs)" using l assms(1) by auto
qed

lemma cycle_insert:
  assumes "cycle m (as @ bs)" "as \<noteq> []" "e \<notin> set (as @ bs)"
    "fw m' = (fw m)(last as \<mapsto> e, e \<mapsto> hd (bs @ [hd as]))" "bk m' = (bk m)(hd (bs @ [hd as]) \<mapsto> e, e \<mapsto> last as)"
  shows "cycle m' (as @ e # bs)"
proof -
  let ?n = "hd (bs @ [hd as])"
  have d: "distinct (as @ bs)" and s: "successively (lnk m) as" "successively (lnk m) (bs @ [hd as])"
    using assms(1,2) by (auto simp: cycle_def successively_append_iff)
  note seam = seam_facts [OF d assms(2)]
  have e: "e \<notin> set as" "e \<notin> set (bs @ [hd as])" using assms(2,3) by auto
  have tl_sub: "set (tl (bs @ [hd as])) \<subseteq> set (bs @ [hd as])" by (cases bs) auto
  have "successively (lnk m') as"
    by (rule successively_lnk_eq [OF s(1)])
      (use seam(1,2) e(1) in \<open>auto simp: assms(4,5) dest: in_set_butlastD list.set_sel(2) [OF assms(2)]\<close>)
  moreover have "successively (lnk m') (bs @ [hd as])"
    by (rule successively_lnk_eq [OF s(2)])
      (use seam(3,4) e(2) tl_sub in \<open>auto simp: assms(4,5)\<close>)
  moreover have "lnk m' (last as) e" "lnk m' e ?n"
    using e seam(5,6) assms(2,3) by (auto simp: lnk_def assms(4,5))
  ultimately show ?thesis
    using d assms(2,3) by (simp add: cycle_def successively_append_iff successively_Cons)
qed

lemma cycle_remove:
  assumes "cycle m (as @ e # bs)" "as \<noteq> []"
    "fw m' = (fw m)(last as \<mapsto> hd (bs @ [hd as]))" "bk m' = (bk m)(hd (bs @ [hd as]) \<mapsto> last as)"
  shows "cycle m' (as @ bs)"
proof -
  let ?n = "hd (bs @ [hd as])"
  have d: "distinct (as @ bs)" and s: "successively (lnk m) as" "successively (lnk m) (bs @ [hd as])"
    using assms(1,2) by (auto simp: cycle_def successively_append_iff successively_Cons)
  note seam = seam_facts [OF d assms(2)]
  have "successively (lnk m') as"
    by (rule successively_lnk_eq [OF s(1)]) (use seam(1,2) in \<open>auto simp: assms(3,4)\<close>)
  moreover have "successively (lnk m') (bs @ [hd as])"
    by (rule successively_lnk_eq [OF s(2)]) (use seam(3,4) in \<open>auto simp: assms(3,4)\<close>)
  moreover have "lnk m' (last as) ?n" by (auto simp: lnk_def assms(3,4))
  ultimately show ?thesis using d assms(2) by (simp add: cycle_def successively_append_iff)
qed

text \<open>The neighbours of a member of a cycle.\<close>

lemma cycle_next: "cycle m (as @ bs) \<Longrightarrow> as \<noteq> [] \<Longrightarrow> fw m (last as) = Some (hd (bs @ [hd as]))"
  and cycle_prev: "cycle m (as @ bs) \<Longrightarrow> as \<noteq> [] \<Longrightarrow> bk m (hd (bs @ [hd as])) = Some (last as)"
  by (auto simp: cycle_def successively_append_iff lnk_def)

lemma cycle_dom: "cycle m as \<Longrightarrow> set as \<subseteq> dom (cm_cell m)"
proof
  fix x assume c: "cycle m as" and "x \<in> set as"
  then obtain us vs where "as = us @ x # vs" by (meson split_list)
  then have "fw m x = Some (hd (vs @ [hd (us @ [x])]))" using cycle_next [of m "us @ [x]" vs] c by simp
  then show "x \<in> dom (cm_cell m)" using dom_fw by blast
qed

section \<open>Operations on rings\<close>

text \<open>The two structural steps: a fresh cell after a member, and the removal of an element.\<close>

lemma ring_insque:
  assumes "cycle m (as @ bs)" "as \<noteq> []" "e \<in> dom (cm_cell m)" "e \<notin> set (as @ bs)"
  obtains m' where "insque e (last as) m = Ret m'" "cycle m' (as @ e # bs)" "same_shape m m'"
    "\<And>x. x \<notin> set (e # as @ bs) \<Longrightarrow> fw m' x = fw m x \<and> bk m' x = bk m x"
proof -
  let ?n = "hd (bs @ [hd as])"
  have d: "distinct (as @ bs)" using assms(1) by (simp add: cycle_def)
  have n: "?n \<in> set (as @ bs)" and l: "last as \<in> set (as @ bs)" using seam_facts [OF d assms(2)] by blast+
  have e: "e \<noteq> last as" "e \<noteq> ?n" using assms(4) n l by blast+
  obtain m' where m': "insque e (last as) m = Ret m'" "fw m' = (fw m)(last as \<mapsto> e, e \<mapsto> ?n)"
    "bk m' = (bk m)(?n \<mapsto> e, e \<mapsto> last as)" "same_shape m m'"
    using insque_ok [OF cycle_next [OF assms(1,2)] _ assms(3) e] cycle_dom [OF assms(1)] n by blast
  show thesis
  proof (rule that [OF m'(1) cycle_insert [OF assms(1,2,4) m'(2,3)] m'(4)])
    fix x assume "x \<notin> set (e # as @ bs)"
    moreover from this have "x \<noteq> last as" "x \<noteq> ?n" using n l by auto
    ultimately show "fw m' x = fw m x \<and> bk m' x = bk m x" by (simp add: m'(2,3))
  qed
qed

lemma ring_remque:
  assumes "cycle m (as @ e # bs)" "as \<noteq> []"
  obtains m' where "remque e m = Ret m'" "cycle m' (as @ bs)" "same_shape m m'"
    "\<And>x. x \<notin> set (as @ bs) \<Longrightarrow> fw m' x = fw m x \<and> bk m' x = bk m x"
proof -
  let ?n = "hd (bs @ [hd as])"
  have d: "distinct (as @ bs)" using assms(1) by (simp add: cycle_def)
  have n: "?n \<in> set (as @ bs)" and l: "last as \<in> set (as @ bs)" using seam_facts [OF d assms(2)] by blast+
  then have dm: "?n \<in> dom (cm_cell m)" "last as \<in> dom (cm_cell m)" using cycle_dom [OF assms(1)] by auto
  have "fw m e = Some ?n" using cycle_next [of m "as @ [e]" bs] assms by simp
  moreover have "bk m e = Some (last as)" using cycle_prev [of m as "e # bs"] assms by simp
  ultimately obtain m' where m': "remque e m = Ret m'" "fw m' = (fw m)(last as \<mapsto> ?n)" "bk m' = (bk m)(?n \<mapsto> last as)"
    "same_shape m m'"
    using remque_ok [OF _ _ dm, of e] by blast
  show thesis
  proof (rule that [OF m'(1) cycle_remove [OF assms m'(2,3)] m'(4)])
    fix x assume "x \<notin> set (as @ bs)"
    moreover from this have "x \<noteq> last as" "x \<noteq> ?n" using n l by auto
    ultimately show "fw m' x = fw m x \<and> bk m' x = bk m x" by (simp add: m'(2,3))
  qed
qed

text \<open>What a list operation leaves alone.\<close>

definition agree :: "addr set \<Rightarrow> 'a cl_mem \<Rightarrow> 'a cl_mem \<Rightarrow> bool" where
  "agree S m m' \<longleftrightarrow> (\<forall>a \<in> S. fw m' a = fw m a \<and> bk m' a = bk m a \<and> dat m' a = dat m a)"

lemma agree_trans: "agree S m m1 \<Longrightarrow> agree S m1 m2 \<Longrightarrow> agree S m m2"
  by (simp add: agree_def)

lemma agree_subset: "agree S m m' \<Longrightarrow> T \<subseteq> S \<Longrightarrow> agree T m m'"
  by (auto simp: agree_def)

lemma ring_agree: "ring m h ps \<Longrightarrow> agree (set (h # map fst ps)) m m' \<Longrightarrow> ring m' h ps"
  using cycle_frame [of m "h # map fst ps" m'] by (fastforce simp: ring_def agree_def list_all_iff)

lemma cl_malloc_ok:
  assumes "mem_ok m"
  obtains m' where "cl_malloc ee True x m = Ret (cm_next m, m')" "mem_ok m'" "agree (- {cm_next m}) m m'"
    "cm_next m \<in> dom (cm_cell m')" "dat m' (cm_next m) = x" "fw m' (cm_next m) = Some (cm_next m)"
    "bk m' (cm_next m) = Some (cm_next m)" "dom (cm_cell m') = insert (cm_next m) (dom (cm_cell m))"
proof -
  let ?p = "cm_next m"
  let ?m = "(put ?p \<lparr>q_forw = ?p, q_back = ?p, q_data = x\<rparr> m)\<lparr>cm_next := Suc ?p\<rparr>"
  show thesis
    by (rule that [of ?m])
      (use assms in \<open>auto simp: cl_malloc_def Let_def mem_ok_def put_def agree_def fw_def bk_def dat_def\<close>)
qed

lemma ring_fresh: "mem_ok m \<Longrightarrow> cycle m as \<Longrightarrow> cm_next m \<notin> set as"
  using cycle_dom [of m as] by (auto simp: mem_ok_def)

lemma mem_ok_shape: "mem_ok m \<Longrightarrow> same_shape m m' \<Longrightarrow> mem_ok m'"
  unfolding mem_ok_def same_shape_def by (metis domIff)

text \<open>A fresh cell with \<open>x\<close> between \<open>us\<close> and \<open>vs\<close>.\<close>

lemma ring_insert:
  assumes "ring m h (us @ vs)" "p \<in> dom (cm_cell m)" "p \<notin> set (h # map fst (us @ vs))" "dat m p = Some x"
  obtains m' where "insque p (last (h # map fst us)) m = Ret m'" "ring m' h (us @ (p, x) # vs)" "same_shape m m'"
    "agree (- set (p # h # map fst (us @ vs))) m m'"
proof -
  have c: "cycle m ((h # map fst us) @ map fst vs)" using assms(1) by (simp add: ring_def)
  obtain m' where m': "insque p (last (h # map fst us)) m = Ret m'" "cycle m' ((h # map fst us) @ p # map fst vs)"
    "same_shape m m'" "\<And>a. a \<notin> set (p # (h # map fst us) @ map fst vs) \<Longrightarrow> fw m' a = fw m a \<and> bk m' a = bk m a"
    using ring_insque [OF c _ assms(2)] assms(3) by auto
  show thesis
  proof (rule that [OF m'(1) _ m'(3)])
    show "ring m' h (us @ (p, x) # vs)"
      using m'(2,3) assms(1,4) by (auto simp: ring_def same_shape_def list_all_iff)
    show "agree (- set (p # h # map fst (us @ vs))) m m'"
      using m'(3,4) by (auto simp: agree_def same_shape_def)
  qed
qed

text \<open>The removal of an element, its cell not yet freed.\<close>

lemma ring_remove:
  assumes "ring m h (us @ (p, x) # vs)"
  obtains m' where "remque p m = Ret m'" "ring m' h (us @ vs)" "same_shape m m'"
    "agree (- set (h # map fst (us @ vs))) m m'"
proof -
  have c: "cycle m ((h # map fst us) @ p # map fst vs)" using assms by (simp add: ring_def)
  obtain m' where m': "remque p m = Ret m'" "cycle m' ((h # map fst us) @ map fst vs)"
    "same_shape m m'" "\<And>a. a \<notin> set ((h # map fst us) @ map fst vs) \<Longrightarrow> fw m' a = fw m a \<and> bk m' a = bk m a"
    using ring_remque [OF c] by blast
  show thesis
  proof (rule that [OF m'(1) _ m'(3)])
    show "ring m' h (us @ vs)" using m'(2,3) assms by (auto simp: ring_def same_shape_def list_all_iff)
    show "agree (- set (h # map fst (us @ vs))) m m'" using m'(3,4) by (auto simp: agree_def same_shape_def)
  qed
qed

lemma ring_head: "ring m h ps \<Longrightarrow> CL_NEXT m h = Ret (hd (map fst ps @ [h])) \<and> CL_PREV m h = Ret (last (h # map fst ps))"
  using cycle_next [of m "[h]" "map fst ps"] cycle_prev [of m "h # map fst ps" "[]"]
  by (simp add: ring_def CL_NEXT_fw CL_PREV_bk)

lemma ring_elem:
  assumes "ring m h (us @ (p, x) # vs)"
  shows "CL_NEXT m p = Ret (hd (map fst vs @ [h]))" "CL_PREV m p = Ret (last (h # map fst us))" "CL_DATA m p = Ret x" "p \<noteq> h"
proof -
  have c: "cycle m ((h # map fst us @ [p]) @ map fst vs)" "cycle m ((h # map fst us) @ p # map fst vs)"
    using assms by (auto simp: ring_def)
  show "CL_NEXT m p = Ret (hd (map fst vs @ [h]))" "CL_PREV m p = Ret (last (h # map fst us))"
    using cycle_next [OF c(1)] cycle_prev [OF c(2)] by (simp_all add: CL_NEXT_fw CL_PREV_bk)
  show "CL_DATA m p = Ret x" using assms by (simp add: ring_def CL_DATA_dat)
  show "p \<noteq> h" using assms by (auto simp: ring_def cycle_def)
qed

lemma dealloc_agree: "agree (- {p}) m (cl_dealloc p m)"
  by (simp add: agree_def cl_dealloc_def fw_def bk_def dat_def)

lemma dealloc_mem_ok: "mem_ok m \<Longrightarrow> mem_ok (cl_dealloc p m)"
  by (simp add: mem_ok_def cl_dealloc_def)

section \<open>Refinement to lists\<close>

text \<open>The list with header \<open>h\<close> holds the data \<open>xs\<close>.\<close>

definition cl_holds :: "'a cl_mem \<Rightarrow> addr \<Rightarrow> 'a list \<Rightarrow> bool" where
  "cl_holds m h xs \<longleftrightarrow> mem_ok m \<and> (\<exists>ps. ring m h ps \<and> map snd ps = xs)"

lemma cl_init_holds:
  assumes "mem_ok m"
  shows "\<exists>h m'. cl_init ee True m = Ret (h, m') \<and> cl_holds m' h []"
proof -
  obtain m' where m': "cl_malloc ee True None m = Ret (cm_next m, m')" "mem_ok m'"
    "fw m' (cm_next m) = Some (cm_next m)" "bk m' (cm_next m) = Some (cm_next m)"
    by (rule cl_malloc_ok [OF assms, of ee None]) blast
  have "ring m' (cm_next m) []" using m'(3,4) by (simp add: ring_def cycle_def lnk_def)
  then show ?thesis using m'(1,2) by (auto simp: cl_init_def cl_holds_def)
qed

lemma malloc_ring:
  assumes "mem_ok m" "ring m h ps" "cl_malloc ee True (Some x) m = Ret (p, m1)"
  shows "p \<notin> set (h # map fst ps) \<and> p \<in> dom (cm_cell m1) \<and> dat m1 p = Some x \<and> ring m1 h ps \<and> mem_ok m1"
proof -
  obtain m' where m': "cl_malloc ee True (Some x) m = Ret (cm_next m, m')" "mem_ok m'" "agree (- {cm_next m}) m m'"
    "cm_next m \<in> dom (cm_cell m')" "dat m' (cm_next m) = Some x"
    by (rule cl_malloc_ok [OF assms(1), of ee "Some x"]) blast
  have eq: "p = cm_next m" "m1 = m'" using m'(1) assms(3) by auto
  have fresh: "p \<notin> set (h # map fst ps)"
    using ring_fresh [OF assms(1), of "h # map fst ps"] assms(2) eq(1) by (simp add: ring_def)
  have "ring m1 h ps"
  proof (rule ring_agree [OF assms(2)])
    show "agree (set (h # map fst ps)) m m1" unfolding eq
      by (rule agree_subset [OF m'(3)]) (use fresh eq in auto)
  qed
  then show ?thesis using fresh m'(2,4,5) eq by simp
qed

lemma push_between:
  assumes "mem_ok m" "ring m h (us @ vs)" "cl_malloc ee True (Some x) m = Ret (p, m1)"
  shows "\<exists>m2. insque p (last (h # map fst us)) m1 = Ret m2 \<and> ring m1 h (us @ vs) \<and> ring m2 h (us @ (p, x) # vs) \<and> mem_ok m2"
proof -
  have p: "p \<notin> set (h # map fst (us @ vs))" "p \<in> dom (cm_cell m1)" "dat m1 p = Some x" "ring m1 h (us @ vs)" "mem_ok m1"
    using malloc_ring [OF assms] by blast+
  obtain m2 where "insque p (last (h # map fst us)) m1 = Ret m2" "ring m2 h (us @ (p, x) # vs)" "same_shape m1 m2"
    using ring_insert [OF p(4,2,1,3)] by blast
  then show ?thesis using p(4) mem_ok_shape [OF p(5)] by blast
qed

lemma cl_push_holds:
  assumes "cl_holds m h xs"
  shows "\<exists>m'. cl_push ee True h x m = Ret m' \<and> cl_holds m' h (x # xs)"
proof -
  obtain ps where ps: "mem_ok m" "ring m h ps" "map snd ps = xs" using assms by (auto simp: cl_holds_def)
  obtain p m1 where a: "cl_malloc ee True (Some x) m = Ret (p, m1)" by (simp add: cl_malloc_def Let_def)
  obtain m2 where m2: "insque p h m1 = Ret m2" "ring m2 h ((p, x) # ps)" "mem_ok m2"
    using push_between [of m h "[]" ps ee x p m1] ps(1,2) a by auto
  have "cl_holds m2 h (x # xs)"
    unfolding cl_holds_def using m2(2,3) ps(3) by (intro conjI exI [of _ "(p, x) # ps"]) simp_all
  then show ?thesis using a m2(1) by (simp add: cl_push_def)
qed

lemma cl_tail_push_holds:
  assumes "cl_holds m h xs"
  shows "\<exists>m'. cl_tail_push ee True h x m = Ret m' \<and> cl_holds m' h (xs @ [x])"
proof -
  obtain ps where ps: "mem_ok m" "ring m h ps" "map snd ps = xs" using assms by (auto simp: cl_holds_def)
  obtain p m1 where a: "cl_malloc ee True (Some x) m = Ret (p, m1)" by (simp add: cl_malloc_def Let_def)
  obtain m2 where m2: "insque p (last (h # map fst ps)) m1 = Ret m2" "ring m1 h ps" "ring m2 h (ps @ [(p, x)])" "mem_ok m2"
    using push_between [of m h ps "[]" ee x p m1] ps(1,2) a by auto
  have "CL_PREV m1 h = Ret (last (h # map fst ps))" using ring_head [OF m2(2)] by simp
  then have "cl_tail_push ee True h x m = Ret m2" using a m2(1) by (simp add: cl_tail_push_def)
  moreover have "cl_holds m2 h (xs @ [x])" using m2(3,4) ps(3) by (auto simp: cl_holds_def intro!: exI [of _ "ps @ [(p, x)]"])
  ultimately show ?thesis by blast
qed

lemma cl_take_ring:
  assumes "mem_ok m" "ring m h (us @ (p, x) # vs)"
  shows "\<exists>m'. remque p m = Ret m' \<and> CL_DATA m' p = Ret x \<and> ring (cl_dealloc p m') h (us @ vs) \<and> mem_ok (cl_dealloc p m')"
proof -
  obtain m' where m': "remque p m = Ret m'" "ring m' h (us @ vs)" "same_shape m m'"
    using ring_remove [OF assms(2)] by blast
  have "dat m' p = Some x" using assms(2) m'(3) by (simp add: ring_def same_shape_def)
  moreover have "p \<notin> set (h # map fst (us @ vs))" using assms(2) by (auto simp: ring_def cycle_def)
  then have "agree (set (h # map fst (us @ vs))) m' (cl_dealloc p m')"
    by (intro agree_subset [OF dealloc_agree [of p m']]) auto
  then have "ring (cl_dealloc p m') h (us @ vs)" by (rule ring_agree [OF m'(2)])
  moreover have "mem_ok (cl_dealloc p m')"
    by (rule dealloc_mem_ok [OF mem_ok_shape [OF assms(1) m'(3)]])
  ultimately show ?thesis using m'(1) by (simp add: CL_DATA_dat)
qed

lemma cl_pop_holds:
  assumes "cl_holds m h xs"
  shows "case xs of [] \<Rightarrow> cl_pop (Some h) m = Err ENOENT | x # xs' \<Rightarrow> \<exists>m'. cl_pop (Some h) m = Ret (x, m') \<and> cl_holds m' h xs'"
proof -
  obtain ps where ps: "mem_ok m" "ring m h ps" "map snd ps = xs" using assms by (auto simp: cl_holds_def)
  show ?thesis
  proof (cases ps)
    case Nil
    then show ?thesis using ps ring_head [OF ps(2)] by (simp add: cl_pop_def cl_peek_pos_def)
  next
    case (Cons q qs)
    obtain p x where q: "q = (p, x)" by (cases q)
    have "ring m h ([] @ (p, x) # qs)" using ps(2) Cons q by simp
    from cl_take_ring [OF ps(1) this] ring_elem(4) [OF this] show ?thesis
      using ps(3) Cons q ring_head [OF ps(2)]
      by (auto simp: cl_pop_def cl_peek_pos_def cl_take_def cl_holds_def)
  qed
qed

lemma cl_tail_pop_holds:
  assumes "cl_holds m h xs"
  shows "if xs = [] then cl_tail_pop (Some h) m = Err ENOENT
    else \<exists>m'. cl_tail_pop (Some h) m = Ret (last xs, m') \<and> cl_holds m' h (butlast xs)"
proof -
  obtain ps where ps: "mem_ok m" "ring m h ps" "map snd ps = xs" using assms by (auto simp: cl_holds_def)
  show ?thesis
  proof (cases ps rule: rev_cases)
    case Nil
    then show ?thesis using ps ring_head [OF ps(2)] by (simp add: cl_tail_pop_def cl_tail_peek_pos_def)
  next
    case (snoc qs q)
    obtain p x where q: "q = (p, x)" by (cases q)
    have "ring m h (qs @ (p, x) # [])" using ps(2) snoc q by simp
    from cl_take_ring [OF ps(1) this] ring_elem(4) [OF this] show ?thesis
      using ps(3) snoc q ring_head [OF ps(2)]
      by (auto simp: cl_tail_pop_def cl_tail_peek_pos_def cl_take_def cl_holds_def)
  qed
qed

text \<open>The loops, at the element where \<open>vs\<close> starts.\<close>

lemma cl_find_loop_ring:
  "ring m h (us @ vs) \<Longrightarrow> length vs < n \<Longrightarrow>
   cl_find_loop n h (hd (map fst vs @ [h])) P m =
     (case find (\<lambda>(a, x). P x) vs of None \<Rightarrow> Err ENOENT | Some ax \<Rightarrow> Ret ax)"
proof (induction vs arbitrary: us n)
  case Nil
  then show ?case by (cases n) auto
next
  case (Cons v vs)
  obtain p x where v: "v = (p, x)" by (cases v)
  note el = ring_elem [OF Cons.prems(1) [unfolded v]]
  have "cl_find_loop (n - 1) h (hd (map fst vs @ [h])) P m =
      (case find (\<lambda>(a, x). P x) vs of None \<Rightarrow> Err ENOENT | Some ax \<Rightarrow> Ret ax)"
    using Cons.prems by (intro Cons.IH [of "us @ [v]"]) auto
  then show ?case using el Cons.prems(2) v by (cases n) auto
qed

lemma cl_find_pos_ring:
  "ring m h ps \<Longrightarrow> length ps < n \<Longrightarrow>
   cl_find_pos n h P m = (case find (\<lambda>(a, x). P x) ps of None \<Rightarrow> Err ENOENT | Some ax \<Rightarrow> Ret ax)"
  using cl_find_loop_ring [of m h "[]" ps n P] ring_head [of m h ps] by (simp add: cl_find_pos_def)

lemma find_snd: "find P (map snd ps) = map_option snd (find (\<lambda>(a, x). P x) ps)"
  by (induction ps) auto

lemma cl_find_holds:
  assumes "cl_holds m h xs" "length xs < n"
  shows "cl_find n h P m = (case find P xs of None \<Rightarrow> Err ENOENT | Some x \<Rightarrow> Ret x)"
proof -
  obtain ps where ps: "ring m h ps" "map snd ps = xs" using assms by (auto simp: cl_holds_def)
  have "length ps < n" using assms(2) ps(2) by auto
  then show ?thesis
    using cl_find_pos_ring [OF ps(1), of n P] find_snd [of P ps] ps(2)
    by (auto simp: cl_find_def split: option.splits)
qed

lemma find_split:
  "find (\<lambda>(a, x). P x) ps = Some (p, x) \<Longrightarrow>
   \<exists>us vs. ps = us @ (p, x) # vs \<and> map snd us = takeWhile (\<lambda>y. \<not> P y) (map snd ps) \<and>
     map snd vs = tl (dropWhile (\<lambda>y. \<not> P y) (map snd ps))"
proof (induction ps)
  case (Cons q ps)
  show ?case
  proof (cases "P (snd q)")
    case True
    then show ?thesis using Cons.prems by (intro exI [of _ "[]"] exI [of _ ps]) (auto split: prod.splits)
  next
    case False
    then have "find (\<lambda>(a, x). P x) ps = Some (p, x)" using Cons.prems by (simp split: prod.splits)
    then obtain us vs where us: "ps = us @ (p, x) # vs" "map snd us = takeWhile (\<lambda>y. \<not> P y) (map snd ps)"
      "map snd vs = tl (dropWhile (\<lambda>y. \<not> P y) (map snd ps))"
      using Cons.IH by blast
    have "q # ps = (q # us) @ (p, x) # vs" by (simp add: us(1))
    moreover have "map snd (q # us) = takeWhile (\<lambda>y. \<not> P y) (map snd (q # ps))"
      "map snd vs = tl (dropWhile (\<lambda>y. \<not> P y) (map snd (q # ps)))"
      using False us(2,3) by simp_all
    ultimately show ?thesis by blast
  qed
qed simp

lemma cl_rem_holds:
  assumes "cl_holds m h xs" "length xs < n"
  shows "case find P xs of None \<Rightarrow> cl_rem n h P m = Err ENOENT
    | Some x \<Rightarrow> \<exists>m'. cl_rem n h P m = Ret (x, m') \<and> cl_holds m' h (takeWhile (\<lambda>y. \<not> P y) xs @ tl (dropWhile (\<lambda>y. \<not> P y) xs))"
proof -
  obtain ps where ps: "mem_ok m" "ring m h ps" "map snd ps = xs" using assms by (auto simp: cl_holds_def)
  have n: "length ps < n" using assms(2) ps(3) by auto
  show ?thesis
  proof (cases "find (\<lambda>(a, x). P x) ps")
    case None
    then show ?thesis using cl_find_pos_ring [OF ps(2) n, of P] find_snd [of P ps] ps(3) by (simp add: cl_rem_def)
  next
    case (Some ax)
    obtain p x where ax: "ax = (p, x)" by (cases ax)
    obtain us vs where sp: "ps = us @ (p, x) # vs" and us: "map snd us = takeWhile (\<lambda>y. \<not> P y) xs"
      and vs: "map snd vs = tl (dropWhile (\<lambda>y. \<not> P y) xs)"
      using find_split [OF Some [unfolded ax]] ps(3) by blast
    have r: "ring m h (us @ (p, x) # vs)" using ps(2) sp by simp
    obtain m' where "remque p m = Ret m'" "ring (cl_dealloc p m') h (us @ vs)" "mem_ok (cl_dealloc p m')"
      using cl_take_ring [OF ps(1) r] by blast
    moreover have "p \<noteq> hd (map fst vs @ [h])"
      using r by (cases vs) (auto simp: ring_def cycle_def)
    ultimately show ?thesis
      using cl_find_pos_ring [OF ps(2) n, of P] find_snd [of P ps] ps(3) Some ax ring_elem(1) [OF r]
      by (auto simp: cl_rem_def cl_rem_pos_def cl_holds_def us [symmetric] vs [symmetric])
  qed
qed


text \<open>The insertion of \<open>x\<close> before the first element that is greater.\<close>

definition ins_by :: "('a \<Rightarrow> 'a \<Rightarrow> int) \<Rightarrow> 'a \<Rightarrow> 'a list \<Rightarrow> 'a list" where
  "ins_by c x ys = takeWhile (\<lambda>y. c y x \<le> 0) ys @ x # dropWhile (\<lambda>y. c y x \<le> 0) ys"

definition ins_cell :: "('a \<Rightarrow> 'a \<Rightarrow> int) \<Rightarrow> addr \<times> 'a \<Rightarrow> (addr \<times> 'a) list \<Rightarrow> (addr \<times> 'a) list" where
  "ins_cell c px ps =
     takeWhile (\<lambda>q. c (snd q) (snd px) \<le> 0) ps @ px # dropWhile (\<lambda>q. c (snd q) (snd px) \<le> 0) ps"

lemma map_snd_ins_cell: "map snd (ins_cell c px ps) = ins_by c (snd px) (map snd ps)"
  by (simp add: ins_cell_def ins_by_def takeWhile_map dropWhile_map comp_def)

lemma set_ins_cell: "set (ins_cell c px ps) = insert px (set ps)"
  using arg_cong [OF takeWhile_dropWhile_id [of "\<lambda>q. c (snd q) (snd px) \<le> 0" ps], of set]
  by (auto simp: ins_cell_def simp del: takeWhile_dropWhile_id)

lemma length_ins_cell: "length (ins_cell c px ps) = Suc (length ps)"
  using arg_cong [OF takeWhile_dropWhile_id [of "\<lambda>q. c (snd q) (snd px) \<le> 0" ps], of length]
  by (simp add: ins_cell_def del: takeWhile_dropWhile_id)

lemma cl_ins_place_ring:
  "ring m h (us @ vs) \<Longrightarrow> length vs < n \<Longrightarrow>
   cl_ins_place n c h x (hd (map fst vs @ [h])) m = Ret (hd (map fst (dropWhile (\<lambda>q. c (snd q) x \<le> 0) vs) @ [h]))"
proof (induction vs arbitrary: us n)
  case Nil
  then show ?case by (cases n) auto
next
  case (Cons v vs)
  obtain p y where v: "v = (p, y)" by (cases v)
  note el = ring_elem [OF Cons.prems(1) [unfolded v]]
  have "cl_ins_place (n - 1) c h x (hd (map fst vs @ [h])) m = Ret (hd (map fst (dropWhile (\<lambda>q. c (snd q) x \<le> 0) vs) @ [h]))"
    using Cons.prems by (intro Cons.IH [of "us @ [v]"]) auto
  then show ?case using el Cons.prems(2) v by (cases n) auto
qed

lemma ring_prev: "ring m h (us @ vs) \<Longrightarrow> CL_PREV m (hd (map fst vs @ [h])) = Ret (last (h # map fst us))"
  using ring_elem(2) [of m h us] ring_head [of m h us] by (cases vs) auto

lemma cl_ins_sort_nomalloc_ring:
  assumes "ring m h ps" "length ps < n" "p \<in> dom (cm_cell m)" "p \<notin> set (h # map fst ps)" "dat m p = Some x"
  obtains m' where "cl_ins_sort_nomalloc n h p c m = Ret m'" "ring m' h (ins_cell c (p, x) ps)" "same_shape m m'"
    "agree (- set (p # h # map fst ps)) m m'"
proof -
  let ?us = "takeWhile (\<lambda>q. c (snd q) x \<le> 0) ps" and ?vs = "dropWhile (\<lambda>q. c (snd q) x \<le> 0) ps"
  have ps: "?us @ ?vs = ps" by simp
  have r: "ring m h (?us @ ?vs)" and fr: "p \<notin> set (h # map fst (?us @ ?vs))" using assms(1,4) by simp_all
  obtain m' where m': "insque p (last (h # map fst ?us)) m = Ret m'" "ring m' h (?us @ (p, x) # ?vs)" "same_shape m m'"
    "agree (- set (p # h # map fst (?us @ ?vs))) m m'"
    using ring_insert [OF r assms(3) fr assms(5)] by blast
  have "cl_ins_sort_nomalloc n h p c m = Ret m'"
    using m'(1) CL_DATA_dat [OF assms(5)] ring_head [OF assms(1)] ring_prev [OF r]
      cl_ins_place_ring [of m h "[]" ps n c x] assms(1,2)
    by (simp add: cl_ins_sort_nomalloc_def)
  then show thesis using that m'(2-4) by (simp add: ins_cell_def)
qed

lemma cl_ins_sort_holds:
  assumes "cl_holds m h xs" "length xs < n"
  shows "\<exists>m'. cl_ins_sort n ee True h x c m = Ret m' \<and> cl_holds m' h (ins_by c x xs)"
proof -
  obtain ps where ps: "mem_ok m" "ring m h ps" "map snd ps = xs" using assms by (auto simp: cl_holds_def)
  obtain p m1 where a: "cl_malloc ee True (Some x) m = Ret (p, m1)" by (simp add: cl_malloc_def Let_def)
  have fr: "p \<notin> set (h # map fst ps)" and d: "p \<in> dom (cm_cell m1)" "dat m1 p = Some x" "ring m1 h ps" "mem_ok m1"
    using malloc_ring [OF ps(1,2) a] by blast+
  have len: "length ps < n" using assms(2) ps(3) by auto
  obtain m2 where m2: "cl_ins_sort_nomalloc n h p c m1 = Ret m2" "ring m2 h (ins_cell c (p, x) ps)" "same_shape m1 m2"
    using cl_ins_sort_nomalloc_ring [OF d(3) len d(1) fr d(2)] by blast
  have "cl_ins_sort n ee True h x c m = Ret m2"
  proof (cases ps)
    case Nil
    have nx: "CL_NEXT m1 h = Ret h" "CL_PREV m1 h = Ret h" using ring_head [OF d(3)] Nil by simp_all
    have "insque p h m1 = Ret m2"
      using m2(1) nx CL_DATA_dat [OF d(2)] len by (cases n) (simp_all add: cl_ins_sort_nomalloc_def)
    then show ?thesis using a nx(1) by (simp add: cl_ins_sort_def)
  next
    case (Cons q qs)
    then have "CL_NEXT m1 h = Ret (fst q)" "fst q \<noteq> h"
      using ring_head [OF d(3)] d(3) by (auto simp: ring_def cycle_def)
    then show ?thesis using a m2(1) by (simp add: cl_ins_sort_def)
  qed
  moreover have "cl_holds m2 h (ins_by c x xs)"
    using m2(2) mem_ok_shape [OF d(4) m2(3)] map_snd_ins_cell [of c "(p, x)" ps] ps(3) by (auto simp: cl_holds_def)
  ultimately show ?thesis by blast
qed

text \<open>
  The sort takes the header out of the ring, so that the elements are a ring without one, and
  moves them, first to last, into the header's own.
\<close>

lemma cl_sort_loop_ring:
  "ring m h us \<Longrightarrow> cycle m (map fst vs) \<Longrightarrow> vs \<noteq> [] \<Longrightarrow> list_all (\<lambda>(a, x). dat m a = Some x) vs \<Longrightarrow>
   set (map fst vs) \<inter> set (h # map fst us) = {} \<Longrightarrow> length vs \<le> n \<Longrightarrow> length us + length vs \<le> k \<Longrightarrow>
   \<exists>m'. cl_sort_loop n k h (fst (hd vs)) c m = Ret m' \<and> same_shape m m' \<and> ring m' h (fold (ins_cell c) vs us)"
proof (induction vs arbitrary: us n m)
  case (Cons v vs)
  obtain p x where v: "v = (p, x)" by (cases v)
  obtain n' where n: "n = Suc n'" using Cons.prems(6) by (cases n) auto
  have nx: "CL_NEXT m p = Ret (hd (map fst vs @ [p]))"
    using cycle_next [of m "[p]" "map fst vs"] Cons.prems(2) v by (simp add: CL_NEXT_fw)
  have dom: "p \<in> dom (cm_cell m)" using cycle_dom [OF Cons.prems(2)] v by auto
  have fr: "p \<notin> set (h # map fst us)" and k: "length us < k" and dp: "dat m p = Some x"
    using Cons.prems(4,5,7) v by auto
  show ?case
  proof (cases vs)
    case Nil
    obtain m' where "cl_ins_sort_nomalloc k h p c m = Ret m'" "ring m' h (ins_cell c (p, x) us)" "same_shape m m'"
      using cl_ins_sort_nomalloc_ring [OF Cons.prems(1) k dom fr dp] by blast
    then show ?thesis using n v nx Nil by simp
  next
    case (Cons w ws)
    have cr: "cycle m (map fst vs @ p # [])"
      using Cons.prems(2) cycle_rotate [of m "[p]" "map fst vs"] v by simp
    obtain m1 where m1: "remque p m = Ret m1" "cycle m1 (map fst vs @ [])" "same_shape m m1"
      "\<And>a. a \<notin> set (map fst vs @ []) \<Longrightarrow> fw m1 a = fw m a \<and> bk m1 a = bk m a"
      by (rule ring_remque [OF cr]) (use Cons in auto)
    have "agree (set (h # map fst us)) m m1"
      unfolding agree_def using Cons.prems(5) m1(3,4) by (auto simp: same_shape_def disjoint_iff simp del: set_map)
    then have r1: "ring m1 h us" by (rule ring_agree [OF Cons.prems(1)])
    have d1: "p \<in> dom (cm_cell m1)" "dat m1 p = Some x" using m1(3) dom dp by (simp_all add: same_shape_def)
    obtain m2 where m2: "cl_ins_sort_nomalloc k h p c m1 = Ret m2" "ring m2 h (ins_cell c (p, x) us)" "same_shape m1 m2"
      "agree (- set (p # h # map fst us)) m1 m2"
      using cl_ins_sort_nomalloc_ring [OF r1 k d1(1) fr d1(2)] by blast
    have dis: "p \<notin> set (map fst vs)" "set (map fst vs) \<inter> set (h # map fst us) = {}"
      using Cons.prems(2,5) v by (auto simp: cycle_def)
    have "agree (set (map fst vs)) m1 m2"
      by (rule agree_subset [OF m2(4)]) (use dis in \<open>auto simp: disjoint_iff simp del: set_map\<close>)
    then have "fw m2 a = fw m1 a \<and> bk m2 a = bk m1 a" if "a \<in> set (map fst vs)" for a
      using that unfolding agree_def by blast
    with m1(2) Cons have c2: "cycle m2 (map fst vs)" by (intro cycle_frame [of m1 _ m2]) simp_all
    have "\<exists>m'. cl_sort_loop n' k h (fst (hd vs)) c m2 = Ret m' \<and> same_shape m2 m' \<and> ring m' h (fold (ins_cell c) vs (ins_cell c v us))"
    proof (rule Cons.IH [OF _ c2])
      show "list_all (\<lambda>(a, x). dat m2 a = Some x) vs"
        using Cons.prems(4) m1(3) m2(3) by (simp add: same_shape_def)
      show "set (map fst vs) \<inter> set (h # map fst (ins_cell c v us)) = {}"
        using dis v by (auto simp: set_ins_cell)
    qed (use Cons v m2(2) Cons.prems(6,7) n in \<open>simp_all add: length_ins_cell\<close>)
    moreover have "fst (hd vs) \<noteq> p" "hd (map fst vs @ [p]) = fst (hd vs)" using dis(1) Cons by auto
    ultimately show ?thesis
      using n v nx m1(1,3) m2(1,3) same_shape_trans by auto blast
  qed
qed simp


lemma fold_ins_cell: "map snd (fold (ins_cell c) vs us) = fold (ins_by c) (map snd vs) (map snd us)"
  by (induction vs arbitrary: us) (simp_all add: map_snd_ins_cell)

text \<open>The ring of the elements after the header is taken out, and the header's own.\<close>

lemma split_off_header:
  assumes "ring m h ps" "ps \<noteq> []"
  obtains m1 m2 m3 where "remque h m = Ret m1" "set_forw h h m1 = Ret m2" "set_back h h m2 = Ret m3"
    "ring m3 h []" "cycle m3 (map fst ps)" "same_shape m m3"
proof -
  have d: "h \<notin> set (map fst ps)" and c: "cycle m (map fst ps @ h # [])"
    using assms(1) cycle_rotate [of m "[h]" "map fst ps"] by (auto simp: ring_def cycle_def)
  obtain m1 where m1: "remque h m = Ret m1" "cycle m1 (map fst ps @ [])" "same_shape m m1"
    by (rule ring_remque [OF c]) (use assms(2) in auto)
  have h: "h \<in> dom (cm_cell m1)" using cycle_dom [OF c] m1(3) by (simp add: same_shape_def)
  obtain m2 where m2: "set_forw h h m1 = Ret m2" "fw m2 = (fw m1)(h \<mapsto> h)" "bk m2 = bk m1" "same_shape m1 m2"
    using set_forw_ok [OF h] by blast
  obtain m3 where m3: "set_back h h m2 = Ret m3" "bk m3 = (bk m2)(h \<mapsto> h)" "fw m3 = fw m2" "same_shape m2 m3"
    using set_back_ok [of h m2] h m2(4) by (auto simp: same_shape_def)
  have "cycle m3 (map fst ps)"
    by (rule cycle_frame [of m1]) (use m1(2) assms(2) d m2(2,3) m3(2,3) in auto)
  moreover have "ring m3 h []" using m2(2) m3(2,3) by (simp add: ring_def cycle_def lnk_def)
  moreover have "same_shape m m3" using m1(3) m2(4) m3(4) same_shape_trans by blast
  ultimately show thesis using that m1(1) m2(1) m3(1) by blast
qed

lemma cl_sort_holds:
  assumes "cl_holds m h xs" "length xs \<le> n"
  shows "\<exists>m'. cl_sort n h c m = Ret m' \<and> cl_holds m' h (fold (ins_by c) xs [])"
proof -
  obtain ps where ps: "mem_ok m" "ring m h ps" "map snd ps = xs" using assms by (auto simp: cl_holds_def)
  show ?thesis
  proof (cases "ps = []")
    case True
    then show ?thesis using ring_head [OF ps(2)] assms(1) ps(3) by (simp add: cl_sort_def)
  next
    case False
    obtain m1 m2 m3 where s: "remque h m = Ret m1" "set_forw h h m1 = Ret m2" "set_back h h m2 = Ret m3"
      "ring m3 h []" "cycle m3 (map fst ps)" "same_shape m m3"
      by (rule split_off_header [OF ps(2) False])
    obtain m' where m': "cl_sort_loop n n h (fst (hd ps)) c m3 = Ret m'" "same_shape m3 m'" "ring m' h (fold (ins_cell c) ps [])"
      using cl_sort_loop_ring [OF s(4,5) False, of n n c] ps(2,3) s(6) assms(2)
      by (auto simp: ring_def cycle_def same_shape_def)
    have "hd (map fst ps @ [h]) = fst (hd ps)" "fst (hd ps) \<noteq> h"
      using False ps(2) by (cases ps; auto simp: ring_def cycle_def)+
    then have "cl_sort n h c m = Ret m'" using ring_head [OF ps(2)] s(1-3) m'(1) by (simp add: cl_sort_def)
    moreover have "mem_ok m'" using ps(1) s(6) m'(2) mem_ok_shape by blast
    then have "cl_holds m' h (fold (ins_by c) xs [])"
      using m'(3) fold_ins_cell [of c ps "[]"] ps(3) by (auto simp: cl_holds_def)
    ultimately show ?thesis by blast
  qed
qed

lemma cl_count_loop_ring:
  "ring m h (us @ vs) \<Longrightarrow> length vs < n \<Longrightarrow> k + length vs < 2 ^ 32 \<Longrightarrow>
   cl_count_loop n h (hd (map fst vs @ [h])) k m = Ret (k + length vs)"
proof (induction vs arbitrary: us n k)
  case Nil
  then show ?case by (cases n) auto
next
  case (Cons v vs)
  obtain p x where v: "v = (p, x)" by (cases v)
  note el = ring_elem [OF Cons.prems(1) [unfolded v]]
  have "cl_count_loop (n - 1) h (hd (map fst vs @ [h])) (k + 1) m = Ret (k + 1 + length vs)"
    using Cons.prems by (intro Cons.IH [of "us @ [v]"]) auto
  then show ?case using el Cons.prems(2,3) v by (cases n) (auto simp: u32_def)
qed

lemma cl_count_holds:
  assumes "cl_holds m h xs" "length xs < n" "length xs < 2 ^ 32"
  shows "cl_count n h m = Ret (length xs)"
proof -
  obtain ps where ps: "ring m h ps" "map snd ps = xs" using assms by (auto simp: cl_holds_def)
  have "length ps = length xs" using ps(2) by auto
  then show ?thesis
    using cl_count_loop_ring [of m h "[]" ps n 0] ps(1) ring_head [OF ps(1)] assms(2,3) by (simp add: cl_count_def)
qed

lemma cl_map_loop_ring:
  "ring m h (us @ vs) \<Longrightarrow> length vs < n \<Longrightarrow> cl_map_loop n h (hd (map fst vs @ [h])) m = Ret (map snd vs)"
proof (induction vs arbitrary: us n)
  case Nil
  then show ?case by (cases n) auto
next
  case (Cons v vs)
  obtain p x where v: "v = (p, x)" by (cases v)
  note el = ring_elem [OF Cons.prems(1) [unfolded v]]
  have "cl_map_loop (n - 1) h (hd (map fst vs @ [h])) m = Ret (map snd vs)"
    using Cons.prems by (intro Cons.IH [of "us @ [v]"]) auto
  then show ?case using el Cons.prems(2) v by (cases n) auto
qed

lemma cl_map_holds:
  assumes "cl_holds m h xs" "length xs < n"
  shows "cl_map n h m = Ret xs"
proof -
  obtain ps where ps: "ring m h ps" "map snd ps = xs" using assms by (auto simp: cl_holds_def)
  have "length ps < n" using assms(2) ps(2) by auto
  then show ?thesis
    using cl_map_loop_ring [of m h "[]" ps n] ps ring_head [OF ps(1)] by (simp add: cl_map_def)
qed

text \<open>Freeing a list hands out its data from the front and leaves none of its cells.\<close>

lemma cl_free_loop_ring:
  "mem_ok m \<Longrightarrow> ring m h ps \<Longrightarrow> length ps < n \<Longrightarrow>
   \<exists>m'. cl_free_loop n h m = Ret (map snd ps, m') \<and> mem_ok m' \<and> cm_cell m' h = None"
proof (induction ps arbitrary: m n)
  case Nil
  then obtain n' where "n = Suc n'" by (cases n) auto
  then show ?case using ring_head [OF Nil.prems(2)] dealloc_mem_ok [OF Nil.prems(1)] by (simp add: cl_dealloc_def)
next
  case (Cons q ps)
  obtain p x where q: "q = (p, x)" by (cases q)
  obtain n' where n: "n = Suc n'" using Cons.prems(3) by (cases n) auto
  have r: "ring m h ([] @ (p, x) # ps)" using Cons.prems(2) q by simp
  obtain m1 where m1: "remque p m = Ret m1" "ring (cl_dealloc p m1) h ps" "mem_ok (cl_dealloc p m1)"
    using cl_take_ring [OF Cons.prems(1) r] by auto
  obtain m' where "cl_free_loop n' h (cl_dealloc p m1) = Ret (map snd ps, m')" "mem_ok m'" "cm_cell m' h = None"
    using Cons.IH [OF m1(3,2), of n'] Cons.prems(3) n by auto
  then show ?case using n q m1(1) ring_head [OF Cons.prems(2)] ring_elem(3,4) [OF r] by simp
qed

lemma cl_free_holds:
  assumes "cl_holds m h xs" "length xs < n"
  shows "\<exists>m'. cl_free n (Some h) m = Ret (xs, m') \<and> mem_ok m' \<and> cm_cell m' h = None"
proof -
  obtain ps where ps: "mem_ok m" "ring m h ps" "map snd ps = xs" using assms by (auto simp: cl_holds_def)
  moreover have "length ps < n" using ps(3) assms(2) by auto
  ultimately show ?thesis using cl_free_loop_ring by (fastforce simp: cl_free_def)
qed

section \<open>Stable sorting\<close>

context comparator
begin

lemma le_not_gt: "cmp y x \<le> 0 \<longleftrightarrow> \<not> 0 < cmp y x"
  by auto

lemma sorted_ins_by:
  assumes "sorted_wrt (\<lambda>x y. cmp x y \<le> 0) ys"
  shows "sorted_wrt (\<lambda>x y. cmp x y \<le> 0) (ins_by cmp x ys)"
  using assms
proof (induction ys)
  case (Cons y ys)
  have tr: "cmp x z \<le> 0" if "0 < cmp y x" "cmp y z \<le> 0" for z
    using that cmp_trans [of z y x] cmp_le_flip by (meson cmp_gt_imp_ge)
  have "set (ins_by cmp x ys) = insert x (set ys)"
    using arg_cong [OF takeWhile_dropWhile_id [of "\<lambda>y. cmp y x \<le> 0" ys], of set]
    by (auto simp: ins_by_def simp del: takeWhile_dropWhile_id)
  then show ?case using Cons tr cmp_le_flip [of x y] by (auto simp: ins_by_def)
qed (simp add: ins_by_def)

lemma mset_ins_by: "mset (ins_by cmp x ys) = add_mset x (mset ys)"
  using arg_cong [OF takeWhile_dropWhile_id [of "\<lambda>y. cmp y x \<le> 0" ys], of mset]
  by (simp add: ins_by_def del: takeWhile_dropWhile_id)

text \<open>Equal elements stay in the order in which they were inserted.\<close>

lemma filter_ins_by:
  assumes "sorted_wrt (\<lambda>x y. cmp x y \<le> 0) ys"
  shows "filter (\<lambda>y. cmp y z = 0) (ins_by cmp x ys) = filter (\<lambda>y. cmp y z = 0) ys @ (if cmp x z = 0 then [x] else [])"
  using assms
proof (induction ys)
  case (Cons y ys)
  have no: "cmp w z \<noteq> 0" if g: "0 < cmp y x" "cmp x z = 0" "cmp y w \<le> 0" for w
  proof
    assume "cmp w z = 0"
    then have "0 \<le> cmp z w" using cmp_le_flip [of w z] by simp
    then have "0 \<le> cmp x w" using cmp_trans [of x z w] g(2) by simp
    then have "0 \<le> cmp x y" using cmp_trans [of x w y] cmp_le_flip [of y w] g(3) by simp
    then show False using cmp_flip [of y x] g(1) by simp
  qed
  show ?case
  proof (cases "cmp y x \<le> 0")
    case True
    then have "ins_by cmp x (y # ys) = y # ins_by cmp x ys" by (simp add: ins_by_def)
    then show ?thesis using Cons by simp
  next
    case False
    then have i: "ins_by cmp x (y # ys) = x # y # ys" by (simp add: ins_by_def)
    show ?thesis
    proof (cases "cmp x z = 0")
      case True
      then have "\<forall>w \<in> set (y # ys). cmp w z \<noteq> 0" using no False Cons.prems cmp_refl [of y] by auto
      then have "filter (\<lambda>y. cmp y z = 0) (y # ys) = []" by (simp add: filter_empty_conv)
      then show ?thesis using True unfolding i by simp
    next
      case False
      then show ?thesis unfolding i by simp
    qed
  qed
qed (simp add: ins_by_def)

lemma fold_ins_by:
  "sorted_wrt (\<lambda>x y. cmp x y \<le> 0) ys \<Longrightarrow>
   sorted_wrt (\<lambda>x y. cmp x y \<le> 0) (fold (ins_by cmp) xs ys) \<and>
   mset (fold (ins_by cmp) xs ys) = mset xs + mset ys \<and>
   filter (\<lambda>y. cmp y z = 0) (fold (ins_by cmp) xs ys) = filter (\<lambda>y. cmp y z = 0) ys @ filter (\<lambda>y. cmp y z = 0) xs"
proof (induction xs arbitrary: ys)
  case (Cons x xs)
  show ?case
    using Cons.IH [OF sorted_ins_by [OF Cons.prems, of x]]
    by (simp add: mset_ins_by filter_ins_by [OF Cons.prems])
qed simp

end


section \<open>Double ended queues\<close>

text \<open>Requests at either end, and what they do to a list.\<close>

datatype 'a deq_op = Push_Front 'a | Push_Back 'a | Pop_Front | Pop_Back

fun deq_spec :: "'a deq_op \<Rightarrow> 'a list \<Rightarrow> 'a option \<times> 'a list" where
  "deq_spec (Push_Front x) xs = (None, x # xs)"
| "deq_spec (Push_Back x) xs = (None, xs @ [x])"
| "deq_spec Pop_Front xs = (case xs of [] \<Rightarrow> (None, []) | x # xs \<Rightarrow> (Some x, xs))"
| "deq_spec Pop_Back xs = (if xs = [] then (None, []) else (Some (last xs), butlast xs))"

fun deq_spec_run :: "'a deq_op list \<Rightarrow> 'a list \<Rightarrow> 'a option list \<times> 'a list" where
  "deq_spec_run [] xs = ([], xs)"
| "deq_spec_run (r # rs) xs =
     (let (y, xs) = deq_spec r xs; (ys, xs) = deq_spec_run rs xs in (y # ys, xs))"

text \<open>A pop that ends in \<open>ENOENT\<close> leaves the queue as it was.\<close>

definition pop_or_none :: "'q \<Rightarrow> ('a \<times> 'q) outcome \<Rightarrow> ('a option \<times> 'q) outcome" where
  "pop_or_none q r =
     (case r of Ret (x, q') \<Rightarrow> Ret (Some x, q') | Err e \<Rightarrow> (if e = ENOENT then Ret (None, q) else Err e)
      | Exit n \<Rightarrow> Exit n | Undef \<Rightarrow> Undef)"

fun deq_run ::
  "('a \<Rightarrow> 'q \<Rightarrow> 'q outcome) \<Rightarrow> ('a \<Rightarrow> 'q \<Rightarrow> 'q outcome) \<Rightarrow> ('q \<Rightarrow> ('a \<times> 'q) outcome) \<Rightarrow> ('q \<Rightarrow> ('a \<times> 'q) outcome) \<Rightarrow>
   'a deq_op list \<Rightarrow> 'q \<Rightarrow> ('a option list \<times> 'q) outcome" where
  "deq_run push tail_push pop tail_pop [] q = Ret ([], q)"
| "deq_run push tail_push pop tail_pop (r # rs) q =
     bindO (case r of
         Push_Front x \<Rightarrow> bindO (push x q) (\<lambda>q. Ret (None, q))
       | Push_Back x \<Rightarrow> bindO (tail_push x q) (\<lambda>q. Ret (None, q))
       | Pop_Front \<Rightarrow> pop_or_none q (pop q)
       | Pop_Back \<Rightarrow> pop_or_none q (tail_pop q))
     (\<lambda>(y, q). bindO (deq_run push tail_push pop tail_pop rs q) (\<lambda>(ys, q). Ret (y # ys, q)))"

locale deque =
  fixes holds :: "'q \<Rightarrow> 'a list \<Rightarrow> bool"
    and push tail_push :: "'a \<Rightarrow> 'q \<Rightarrow> 'q outcome"
    and pop tail_pop :: "'q \<Rightarrow> ('a \<times> 'q) outcome"
  assumes push: "holds q xs \<Longrightarrow> \<exists>q'. push x q = Ret q' \<and> holds q' (x # xs)"
    and tail_push: "holds q xs \<Longrightarrow> \<exists>q'. tail_push x q = Ret q' \<and> holds q' (xs @ [x])"
    and pop: "holds q (x # xs) \<Longrightarrow> \<exists>q'. pop q = Ret (x, q') \<and> holds q' xs"
    and tail_pop: "holds q (xs @ [x]) \<Longrightarrow> \<exists>q'. tail_pop q = Ret (x, q') \<and> holds q' xs"
    and empty: "holds q [] \<Longrightarrow> pop q = Err ENOENT \<and> tail_pop q = Err ENOENT"
begin

lemma pop_front_step:
  "holds q xs \<Longrightarrow> \<exists>q'. pop_or_none q (pop q) = Ret (fst (deq_spec Pop_Front xs), q') \<and> holds q' (snd (deq_spec Pop_Front xs))"
  using pop [of q] empty [of q] by (cases xs) (fastforce simp: pop_or_none_def)+

lemma pop_back_step:
  "holds q xs \<Longrightarrow> \<exists>q'. pop_or_none q (tail_pop q) = Ret (fst (deq_spec Pop_Back xs), q') \<and> holds q' (snd (deq_spec Pop_Back xs))"
  using tail_pop [of q] empty [of q] by (cases xs rule: rev_cases) (fastforce simp: pop_or_none_def)+

lemma run:
  "holds q xs \<Longrightarrow> \<exists>q'. deq_run push tail_push pop tail_pop rs q = Ret (fst (deq_spec_run rs xs), q') \<and>
     holds q' (snd (deq_spec_run rs xs))"
proof (induction rs arbitrary: q xs)
  case (Cons r rs)
  have "\<exists>q'. (case r of Push_Front x \<Rightarrow> bindO (push x q) (\<lambda>q. Ret (None, q))
       | Push_Back x \<Rightarrow> bindO (tail_push x q) (\<lambda>q. Ret (None, q))
       | Pop_Front \<Rightarrow> pop_or_none q (pop q)
       | Pop_Back \<Rightarrow> pop_or_none q (tail_pop q)) = Ret (fst (deq_spec r xs), q') \<and> holds q' (snd (deq_spec r xs))"
  proof (cases r)
    case (Push_Front x)
    then show ?thesis using push [OF Cons.prems, of x] by auto
  next
    case (Push_Back x)
    then show ?thesis using tail_push [OF Cons.prems, of x] by auto
  next
    case Pop_Front
    then show ?thesis using pop_front_step [OF Cons.prems] by simp
  next
    case Pop_Back
    then show ?thesis using pop_back_step [OF Cons.prems] by simp
  qed
  then obtain q1 where q1: "(case r of Push_Front x \<Rightarrow> bindO (push x q) (\<lambda>q. Ret (None, q))
       | Push_Back x \<Rightarrow> bindO (tail_push x q) (\<lambda>q. Ret (None, q))
       | Pop_Front \<Rightarrow> pop_or_none q (pop q)
       | Pop_Back \<Rightarrow> pop_or_none q (tail_pop q)) = Ret (fst (deq_spec r xs), q1)" "holds q1 (snd (deq_spec r xs))"
    by blast
  show ?case using Cons.IH [OF q1(2)] q1(1) by (auto simp: Let_def split: prod.splits)
qed simp

end

text \<open>The circular list is such a queue; its pushes are those whose allocation succeeds.\<close>

interpretation cl: deque "\<lambda>m xs. cl_holds m h xs" "cl_push ee True h" "cl_tail_push ee True h"
  "cl_pop (Some h)" "cl_tail_pop (Some h)" for ee h
proof unfold_locales
  fix m :: "'a cl_mem" and xs x
  show "cl_holds m h xs \<Longrightarrow> \<exists>m'. cl_push ee True h x m = Ret m' \<and> cl_holds m' h (x # xs)"
    by (rule cl_push_holds)
  show "cl_holds m h xs \<Longrightarrow> \<exists>m'. cl_tail_push ee True h x m = Ret m' \<and> cl_holds m' h (xs @ [x])"
    by (rule cl_tail_push_holds)
  show "cl_holds m h (x # xs) \<Longrightarrow> \<exists>m'. cl_pop (Some h) m = Ret (x, m') \<and> cl_holds m' h xs"
    using cl_pop_holds [of m h "x # xs"] by simp
  show "cl_holds m h (xs @ [x]) \<Longrightarrow> \<exists>m'. cl_tail_pop (Some h) m = Ret (x, m') \<and> cl_holds m' h xs"
    using cl_tail_pop_holds [of m h "xs @ [x]"] by simp
  show "cl_holds m h [] \<Longrightarrow> cl_pop (Some h) m = Err ENOENT \<and> cl_tail_pop (Some h) m = Err ENOENT"
    using cl_pop_holds [of m h "[]"] cl_tail_pop_holds [of m h "[]"] by simp
qed

text \<open>A store without cells, and the first list in it.\<close>

definition cl_mem_empty :: "'a cl_mem" where
  "cl_mem_empty = \<lparr>cm_cell = Map.empty, cm_next = 0\<rparr>"

definition cl_mem_init :: "'a cl_mem" where
  "cl_mem_init = \<lparr>cm_cell = [0 \<mapsto> \<lparr>q_forw = 0, q_back = 0, q_data = None\<rparr>], cm_next = 1\<rparr>"

lemma cl_init_empty: "cl_init False True cl_mem_empty = Ret (0, cl_mem_init)"
  by (simp add: cl_init_def cl_malloc_def cl_mem_empty_def cl_mem_init_def put_def Let_def)

lemma cl_mem_init_holds: "cl_holds (cl_mem_init :: 'a cl_mem) 0 []"
proof -
  have "mem_ok (cl_mem_empty :: 'a cl_mem)" by (simp add: mem_ok_def cl_mem_empty_def)
  then obtain h and m :: "'a cl_mem" where m: "cl_init False True cl_mem_empty = Ret (h, m)" "cl_holds m h []"
    using cl_init_holds by blast
  then show ?thesis unfolding cl_init_empty by simp
qed

section \<open>Properties\<close>

text \<open>
  C29. Any sequence of \<open>cl_push\<close>, \<open>cl_tail_push\<close>, \<open>cl_pop\<close> and \<open>cl_tail_pop\<close> on a circular list
  returns what the same sequence returns on the list of its data, \<open>ENOENT\<close> exactly where that
  list is empty, and leaves a circular list of the resulting data. No freed cell is touched.
\<close>

theorem cl_que_refines_list:
  assumes "cl_holds m h xs"
  shows "\<exists>m'. deq_run (cl_push ee True h) (cl_tail_push ee True h) (cl_pop (Some h)) (cl_tail_pop (Some h)) rs m =
      Ret (fst (deq_spec_run rs xs), m') \<and> cl_holds m' h (snd (deq_spec_run rs xs))"
  using assms by (rule cl.run)

theorem cl_que_refines_list_witness:
  "\<exists>m'. deq_run (cl_push False True 0) (cl_tail_push False True 0) (cl_pop (Some 0)) (cl_tail_pop (Some 0))
      [Push_Front (1::int), Push_Back 2, Pop_Back, Pop_Front, Pop_Front] cl_mem_init =
      Ret ([None, None, Some 2, Some 1, None], m') \<and> cl_holds m' 0 []"
  using cl_que_refines_list [OF cl_mem_init_holds, where ee = False and
      rs = "[Push_Front (1::int), Push_Back 2, Pop_Back, Pop_Front, Pop_Front]"] by simp

text \<open>
  C30. \<open>cl_sort\<close> ends and leaves the list sorted by the comparison function: the same data, and
  data that compare equal in the order they had.
\<close>

theorem cl_sort_correct:
  assumes "comparator cmp" "cl_holds m h xs" "length xs \<le> n"
  shows "\<exists>m' ys. cl_sort n h cmp m = Ret m' \<and> cl_holds m' h ys \<and> mset ys = mset xs \<and>
    sorted_wrt (\<lambda>x y. cmp x y \<le> 0) ys \<and> (\<forall>z. filter (\<lambda>y. cmp y z = 0) ys = filter (\<lambda>y. cmp y z = 0) xs)"
  using cl_sort_holds [OF assms(2,3), of cmp] comparator.fold_ins_by [OF assms(1), of "[]" xs] by auto

theorem cl_sort_correct_witness:
  "\<exists>m m' ys. deq_run (cl_push False True 0) (cl_tail_push False True 0) (cl_pop (Some 0)) (cl_tail_pop (Some 0))
      [Push_Back (7::int), Push_Back 3, Push_Back 5] cl_mem_init = Ret ([None, None, None], m) \<and>
    cl_sort 3 0 (\<lambda>a b. a - b) m = Ret m' \<and> cl_holds m' 0 ys \<and> mset ys = mset [7, 3, 5] \<and>
    sorted_wrt (\<lambda>x y. x - y \<le> 0) ys"
proof -
  obtain m where m: "deq_run (cl_push False True 0) (cl_tail_push False True 0) (cl_pop (Some 0)) (cl_tail_pop (Some 0))
      [Push_Back (7::int), Push_Back 3, Push_Back 5] cl_mem_init = Ret ([None, None, None], m)" "cl_holds m 0 [7, 3, 5]"
    using cl.run [OF cl_mem_init_holds, where ee = False and rs = "[Push_Back (7::int), Push_Back 3, Push_Back 5]"] by auto
  have "comparator (\<lambda>a b :: int. a - b)" by unfold_locales auto
  from cl_sort_correct [OF this m(2), of 3] m(1) show ?thesis by auto
qed

text \<open>
  \<open>cl_find\<close> returns the first element that satisfies the predicate and \<open>cl_rem\<close> takes just
  that one out; both give \<open>ENOENT\<close> where there is none. \<open>cl_count\<close> and \<open>cl_map\<close> see every element
  once; \<open>cl_free\<close> hands each to \<open>free_fun\<close>. A fuel above the length is enough for all of them.
\<close>

theorem cl_find_rem_count_map:
  assumes "cl_holds m h xs" "length xs < n" "length xs < 2 ^ 32"
  shows "cl_find n h P m = (case find P xs of None \<Rightarrow> Err ENOENT | Some x \<Rightarrow> Ret x) \<and>
    (case find P xs of None \<Rightarrow> cl_rem n h P m = Err ENOENT
     | Some x \<Rightarrow> \<exists>m'. cl_rem n h P m = Ret (x, m') \<and> cl_holds m' h (takeWhile (\<lambda>y. \<not> P y) xs @ tl (dropWhile (\<lambda>y. \<not> P y) xs))) \<and>
    cl_count n h m = Ret (length xs) \<and> cl_map n h m = Ret xs \<and> (\<exists>m'. cl_free n (Some h) m = Ret (xs, m') \<and> cm_cell m' h = None)"
  using cl_free_holds [OF assms(1,2)] cl_find_holds [OF assms(1,2)] cl_rem_holds [OF assms(1,2)] cl_count_holds [OF assms] cl_map_holds [OF assms(1,2)]
  by blast

theorem cl_find_rem_count_map_witness:
  "\<exists>m m'. deq_run (cl_push False True 0) (cl_tail_push False True 0) (cl_pop (Some 0)) (cl_tail_pop (Some 0))
      [Push_Back (7::int), Push_Back 3, Push_Back 5] cl_mem_init = Ret ([None, None, None], m) \<and>
    cl_rem 4 0 (\<lambda>x. x < 6) m = Ret (3, m') \<and> cl_holds m' 0 [7, 5] \<and> cl_count 4 0 m = Ret 3"
proof -
  obtain m where m: "deq_run (cl_push False True 0) (cl_tail_push False True 0) (cl_pop (Some 0)) (cl_tail_pop (Some 0))
      [Push_Back (7::int), Push_Back 3, Push_Back 5] cl_mem_init = Ret ([None, None, None], m)" "cl_holds m 0 [7, 3, 5]"
    using cl.run [OF cl_mem_init_holds, where ee = False and rs = "[Push_Back (7::int), Push_Back 3, Push_Back 5]"] by auto
  from cl_find_rem_count_map [OF m(2), of 4 "\<lambda>x. x < 6"] m(1) show ?thesis by auto
qed

end
