(* ===== verification/Skip_List.thy ===== *)
theory Skip_List
  imports Spegla_Prelude "HOL-Library.Word"
begin

unbundle bit_operations_syntax

text \<open>
  The skip lists of container.c (1755-1986). Nodes are shared between the levels of the list, so they
  live in a store of cells: \<open>malloc\<close> adds a cell, \<open>free\<close> empties one, and an access to an empty cell or
  to a pointer that was never written is \<open>Undef\<close>. A pointer to a node is its index in the store.
\<close>

section \<open>State\<close>

definition SL_MAX_LEVELS :: nat where "SL_MAX_LEVELS = 16"
definition SL_MAX_LEVEL :: int where "SL_MAX_LEVEL = 15"
definition SL_BITS_IN_RANDOM :: int where "SL_BITS_IN_RANDOM = 31"

text \<open>\<open>sl_NIL\<close> is a static node with the greatest key, no data, and \<open>NULL\<close> as its only pointer.\<close>

datatype sl_ptr = SL_NIL | SL_NODE nat

record 'a skip_list_node =
  sln_data :: "'a option"
  sln_key :: "32 word"
  sln_forw :: "sl_ptr arr"

text \<open>The last two fields are the store and the values that \<open>random\<close> returns next.\<close>

record 'a skip_list =
  sl_head :: nat
  sl_level :: "32 word"
  sl_random_bits :: "32 word"
  sl_randoms_left :: "32 word"
  sl_mem :: "'a skip_list_node arr"
  sl_random :: "nat \<Rightarrow> 32 word"

text \<open>\<open>p->sln_forw[i]\<close> read and written, \<open>p->sln_key\<close> and \<open>p->sln_data\<close>.\<close>

definition sl_get_forw :: "'a skip_list \<Rightarrow> nat \<Rightarrow> nat \<Rightarrow> sl_ptr outcome" where
  "sl_get_forw sl p i = bindO (arr_get (sl_mem sl) p) (\<lambda>node. arr_get (sln_forw node) i)"

definition sl_set_forw :: "'a skip_list \<Rightarrow> nat \<Rightarrow> nat \<Rightarrow> sl_ptr \<Rightarrow> 'a skip_list outcome" where
  "sl_set_forw sl p i q =
     bindO (arr_get (sl_mem sl) p) (\<lambda>node.
       bindO (arr_set (sln_forw node) i q) (\<lambda>forw.
         bindO (arr_set (sl_mem sl) p (node\<lparr>sln_forw := forw\<rparr>)) (\<lambda>mem. Ret (sl\<lparr>sl_mem := mem\<rparr>))))"

definition sl_key_of :: "'a skip_list \<Rightarrow> sl_ptr \<Rightarrow> 32 word outcome" where
  "sl_key_of sl q = (case q of SL_NIL \<Rightarrow> Ret 0xffffffff | SL_NODE p \<Rightarrow> bindO (arr_get (sl_mem sl) p) (\<lambda>node. Ret (sln_key node)))"

definition sl_data_of :: "'a skip_list \<Rightarrow> sl_ptr \<Rightarrow> 'a option outcome" where
  "sl_data_of sl q = (case q of SL_NIL \<Rightarrow> Ret None | SL_NODE p \<Rightarrow> bindO (arr_get (sl_mem sl) p) (\<lambda>node. Ret (sln_data node)))"

section \<open>New lists and nodes\<close>

text \<open>A node has room for \<open>level + 1\<close> pointers, none of them set.\<close>

definition sl_new_node :: "bool \<Rightarrow> nat \<Rightarrow> 32 word \<Rightarrow> 'a option \<Rightarrow> 'a skip_list \<Rightarrow> (nat \<times> 'a skip_list) option" where
  "sl_new_node ok level key data sl =
     (if ok then Some (length (sl_mem sl),
        sl\<lparr>sl_mem := sl_mem sl @ [Some \<lparr>sln_data = data, sln_key = key, sln_forw = arr_alloc (level + 1)\<rparr>]\<rparr>)
      else None)"

fun sl_init_loop :: "'a skip_list \<Rightarrow> nat \<Rightarrow> nat \<Rightarrow> 'a skip_list outcome" where
  "sl_init_loop sl i 0 = Ret sl"
| "sl_init_loop sl i (Suc n) = bindO (sl_set_forw sl (sl_head sl) i SL_NIL) (\<lambda>sl. sl_init_loop sl (Suc i) n)"

text \<open>The flags say whether the two allocations succeed.\<close>

definition sl_init :: "bool \<Rightarrow> bool \<Rightarrow> bool \<Rightarrow> (nat \<Rightarrow> 32 word) \<Rightarrow> 'a skip_list outcome" where
  "sl_init ok1 ok2 container_err_exit random =
     (if \<not> ok1 then alloc_fail container_err_exit
      else let sl = \<lparr>sl_head = 0, sl_level = 0, sl_random_bits = random 0,
          sl_randoms_left = word_of_int (SL_BITS_IN_RANDOM div 2), sl_mem = [], sl_random = (\<lambda>n. random (Suc n))\<rparr> in
        case sl_new_node ok2 SL_MAX_LEVELS 0 None sl of None \<Rightarrow> alloc_fail container_err_exit
        | Some (p, sl) \<Rightarrow> sl_init_loop (sl\<lparr>sl_head := p\<rparr>) 0 SL_MAX_LEVELS)"

text \<open>The data handed to \<open>free_fun\<close>, in order; the fuel counts the nodes.\<close>

fun sl_free_loop :: "nat \<Rightarrow> 'a skip_list \<Rightarrow> nat \<Rightarrow> ('a list \<times> 'a skip_list) outcome" where
  "sl_free_loop 0 sl p = Undef"
| "sl_free_loop (Suc n) sl p =
     bindO (sl_get_forw sl p 0) (\<lambda>q.
       bindO (sl_data_of sl (SL_NODE p)) (\<lambda>data.
         let sl = sl\<lparr>sl_mem := (sl_mem sl)[p := None]\<rparr>; freed = (case data of None \<Rightarrow> [] | Some d \<Rightarrow> [d]) in
         case q of SL_NIL \<Rightarrow> Ret (freed, sl)
         | SL_NODE p \<Rightarrow> bindO (sl_free_loop n sl p) (\<lambda>(ds, sl). Ret (freed @ ds, sl))))"

definition sl_free :: "'a skip_list \<Rightarrow> ('a list \<times> 'a skip_list) outcome" where
  "sl_free sl = sl_free_loop (length (sl_mem sl)) sl (sl_head sl)"

section \<open>Walking and finding\<close>

definition sl_find_first_pos :: "'a skip_list \<Rightarrow> (sl_ptr \<times> 'a option) outcome" where
  "sl_find_first_pos sl =
     bindO (sl_get_forw sl (sl_head sl) 0) (\<lambda>q. bindO (sl_data_of sl q) (\<lambda>data. Ret (q, data)))"

text \<open>
  A position of \<open>NULL\<close> is \<open>None\<close>, and stays one. From the position \<open>sl_NIL\<close>, which the first position of
  an empty list is, the walk goes on to \<open>NULL\<close> and reads its data.
\<close>

definition sl_walk :: "'a skip_list \<Rightarrow> sl_ptr option \<Rightarrow> (sl_ptr \<times> 'a option) option outcome" where
  "sl_walk sl pos =
     (case pos of None \<Rightarrow> Ret None
      | Some SL_NIL \<Rightarrow> Undef
      | Some (SL_NODE p) \<Rightarrow>
        bindO (sl_get_forw sl p 0) (\<lambda>q.
          if q = SL_NIL then Err ENOENT else bindO (sl_data_of sl q) (\<lambda>data. Ret (Some (q, data)))))"

text \<open>
  The search for the last node with a smaller key: along one level, then on all levels down. The fuel of
  a level is the number of cells. Behind \<open>sl_NIL\<close> there would be no way on, but no key is greater than
  its.
\<close>

fun sl_forward :: "nat \<Rightarrow> 'a skip_list \<Rightarrow> nat \<Rightarrow> 32 word \<Rightarrow> nat \<Rightarrow> nat outcome" where
  "sl_forward 0 sl i key p = Undef"
| "sl_forward (Suc n) sl i key p =
     bindO (sl_get_forw sl p i) (\<lambda>q.
       bindO (sl_key_of sl q) (\<lambda>k.
         if k < key then (case q of SL_NIL \<Rightarrow> Undef | SL_NODE p \<Rightarrow> sl_forward n sl i key p) else Ret p))"

fun sl_descend :: "'a skip_list \<Rightarrow> 32 word \<Rightarrow> nat \<Rightarrow> nat \<Rightarrow> nat outcome" where
  "sl_descend sl key p 0 = Ret p"
| "sl_descend sl key p (Suc i) =
     bindO (sl_forward (length (sl_mem sl)) sl i key p) (\<lambda>p. sl_descend sl key p i)"

text \<open>\<open>sl_level\<close> is read into a signed variable; the loop visits this many levels.\<close>

definition levels :: "32 word \<Rightarrow> nat" where
  "levels l = nat (sint l + 1)"

definition sl_find_pos :: "'a skip_list \<Rightarrow> 32 word \<Rightarrow> (sl_ptr \<times> 'a option) outcome" where
  "sl_find_pos sl key =
     bindO (sl_descend sl key (sl_head sl) (levels (sl_level sl))) (\<lambda>p.
       bindO (sl_get_forw sl p 0) (\<lambda>q.
         bindO (sl_key_of sl q) (\<lambda>k.
           if k \<noteq> key then Err ENOENT else bindO (sl_data_of sl q) (\<lambda>data. Ret (q, data)))))"

definition sl_find :: "'a skip_list \<Rightarrow> 32 word \<Rightarrow> 'a option outcome" where
  "sl_find sl key = bindO (sl_find_pos sl key) (\<lambda>(p, data). Ret data)"

section \<open>Insertion and removal\<close>

text \<open>
  The loop goes on while the two bits are not zero. Its fuel is an argument: values of \<open>random\<close>
  without a pair of zero bits can keep it going for any length of time.
\<close>

fun sl_random_loop :: "nat \<Rightarrow> 'a skip_list \<Rightarrow> int \<Rightarrow> (int \<times> 'a skip_list) outcome" where
  "sl_random_loop 0 sl level = Undef"
| "sl_random_loop (Suc n) sl level =
     (let b = sl_random_bits sl AND 3;
          level = (if b = 0 then level + 1 else level);
          sl = sl\<lparr>sl_random_bits := drop_bit 2 (sl_random_bits sl), sl_randoms_left := sl_randoms_left sl - 1\<rparr>;
          sl = (if sl_randoms_left sl = 0
                then sl\<lparr>sl_random_bits := sl_random sl 0, sl_randoms_left := word_of_int (SL_BITS_IN_RANDOM div 2),
                  sl_random := (\<lambda>n. sl_random sl (Suc n))\<rparr>
                else sl) in
      if b \<noteq> 0 then sl_random_loop n sl level else Ret (level, sl))"

definition sl_random_level :: "nat \<Rightarrow> 'a skip_list \<Rightarrow> (int \<times> 'a skip_list) outcome" where
  "sl_random_level fuel sl =
     bindO (sl_random_loop fuel sl 0) (\<lambda>(level, sl). Ret (if level > SL_MAX_LEVEL then SL_MAX_LEVEL else level, sl))"

fun sl_descend_update :: "'a skip_list \<Rightarrow> 32 word \<Rightarrow> nat \<Rightarrow> nat arr \<Rightarrow> nat \<Rightarrow> (nat \<times> nat arr) outcome" where
  "sl_descend_update sl key p update 0 = Ret (p, update)"
| "sl_descend_update sl key p update (Suc i) =
     bindO (sl_forward (length (sl_mem sl)) sl i key p) (\<lambda>p.
       bindO (arr_set update i p) (\<lambda>update. sl_descend_update sl key p update i))"

fun sl_update_fill :: "nat arr \<Rightarrow> nat \<Rightarrow> nat \<Rightarrow> nat \<Rightarrow> nat arr outcome" where
  "sl_update_fill update p i 0 = Ret update"
| "sl_update_fill update p i (Suc n) = bindO (arr_set update i p) (\<lambda>update. sl_update_fill update p (Suc i) n)"

fun sl_link :: "nat \<Rightarrow> nat arr \<Rightarrow> 'a skip_list \<Rightarrow> nat \<Rightarrow> nat \<Rightarrow> 'a skip_list outcome" where
  "sl_link p update sl i 0 = Ret sl"
| "sl_link p update sl i (Suc n) =
     bindO (arr_get update i) (\<lambda>u.
       bindO (sl_get_forw sl u i) (\<lambda>q.
         bindO (sl_set_forw sl p i q) (\<lambda>sl.
           bindO (sl_set_forw sl u i (SL_NODE p)) (\<lambda>sl. sl_link p update sl (Suc i) n))))"

text \<open>The result is \<open>False\<close> for -1; the level of the list has grown even then.\<close>

definition sl_ins :: "nat \<Rightarrow> bool \<Rightarrow> bool \<Rightarrow> 'a skip_list \<Rightarrow> 32 word \<Rightarrow> 'a option \<Rightarrow> (bool \<times> 'a skip_list) outcome" where
  "sl_ins fuel ok container_err_exit sl key data =
     (let level = sint (sl_level sl) in
      bindO (sl_descend_update sl key (sl_head sl) (arr_alloc SL_MAX_LEVELS) (levels (sl_level sl))) (\<lambda>(p, update).
        bindO (sl_random_level fuel sl) (\<lambda>(new_level, sl).
          bindO (if new_level > level
                 then bindO (sl_update_fill update (sl_head sl) (nat (level + 1)) (nat (new_level - level)))
                   (\<lambda>update. Ret (update, sl\<lparr>sl_level := word_of_int new_level\<rparr>))
                 else Ret (update, sl)) (\<lambda>(update, sl).
            case sl_new_node ok (nat new_level) key data sl of
              None \<Rightarrow> if container_err_exit then Exit 1 else Ret (False, sl)
            | Some (p, sl) \<Rightarrow> bindO (sl_link p update sl 0 (nat (new_level + 1))) (\<lambda>sl. Ret (True, sl))))))"

fun sl_unlink :: "nat \<Rightarrow> nat arr \<Rightarrow> 'a skip_list \<Rightarrow> nat \<Rightarrow> nat \<Rightarrow> 'a skip_list outcome" where
  "sl_unlink p update sl i 0 = Ret sl"
| "sl_unlink p update sl i (Suc n) =
     bindO (arr_get update i) (\<lambda>u.
       bindO (sl_get_forw sl u i) (\<lambda>q.
         if q \<noteq> SL_NODE p then Ret sl
         else bindO (sl_get_forw sl p i) (\<lambda>r. bindO (sl_set_forw sl u i r) (\<lambda>sl. sl_unlink p update sl (Suc i) n))))"

fun sl_lower :: "'a skip_list \<Rightarrow> nat \<Rightarrow> nat outcome" where
  "sl_lower sl 0 = Ret 0"
| "sl_lower sl (Suc level) =
     bindO (sl_get_forw sl (sl_head sl) level) (\<lambda>q. if q = SL_NIL then sl_lower sl level else Ret (Suc level))"

text \<open>
  A search for the greatest key may find \<open>sl_NIL\<close>, which is then unlinked with pointers it does not have
  and freed though it is static.
\<close>

definition sl_rem :: "'a skip_list \<Rightarrow> 32 word \<Rightarrow> ('a option \<times> 'a skip_list) outcome" where
  "sl_rem sl key =
     bindO (sl_descend_update sl key (sl_head sl) (arr_alloc SL_MAX_LEVELS) (levels (sl_level sl))) (\<lambda>(p, update).
       bindO (sl_get_forw sl p 0) (\<lambda>q.
         bindO (sl_key_of sl q) (\<lambda>k.
           if k \<noteq> key then Err EOTHER
           else case q of SL_NIL \<Rightarrow> Undef
           | SL_NODE p \<Rightarrow>
             bindO (sl_unlink p update sl 0 (levels (sl_level sl))) (\<lambda>sl.
               bindO (sl_data_of sl q) (\<lambda>data.
                 let sl' = sl\<lparr>sl_mem := (sl_mem sl)[p := None]\<rparr> in
                 bindO (sl_lower sl' (levels (sl_level sl))) (\<lambda>n. Ret (data, sl'\<lparr>sl_level := word_of_int (int n - 1)\<rparr>)))))))"

section \<open>Paths along one level\<close>

text \<open>
  The pointers of one level are a function \<open>G\<close> from a node to the pointer in it; a path from \<open>p\<close> visits
  the nodes of a list and ends at \<open>sl_NIL\<close>.
\<close>

fun sl_path :: "(nat \<Rightarrow> sl_ptr outcome) \<Rightarrow> nat \<Rightarrow> nat list \<Rightarrow> bool" where
  "sl_path G p [] \<longleftrightarrow> G p = Ret SL_NIL"
| "sl_path G p (a # as) \<longleftrightarrow> G p = Ret (SL_NODE a) \<and> sl_path G a as"

lemma sl_path_cong: "(\<And>x. x \<in> set (p # as) \<Longrightarrow> G' x = G x) \<Longrightarrow> sl_path G' p as = sl_path G p as"
  by (induction as arbitrary: p) auto

lemma sl_path_suffix: "sl_path G p (xs @ ys) \<Longrightarrow> sl_path G (last (p # xs)) ys"
  by (induction xs arbitrary: p) auto

lemma sl_path_start: "sl_path G p as \<Longrightarrow> \<exists>q. G p = Ret q"
  by (cases as) auto

lemma sl_path_splice_in:
  assumes "sl_path G p (xs @ ys)" "distinct (p # xs @ ys)" "new \<notin> set (p # xs @ ys)"
  shows "sl_path (G(new := G (last (p # xs)), last (p # xs) := Ret (SL_NODE new))) p (xs @ new # ys)"
  using assms
proof (induction xs arbitrary: p)
  case Nil
  let ?G = "G(new := G p, p := Ret (SL_NODE new))"
  have "sl_path ?G new ys"
  proof (cases ys)
    case (Cons a as)
    then have "sl_path ?G a as = sl_path G a as" using Nil by (intro sl_path_cong) auto
    then show ?thesis using Nil Cons by simp
  qed (use Nil in simp)
  then show ?case by (simp add: fun_upd_def)
qed auto

lemma sl_path_splice_out:
  assumes "sl_path G p (xs @ d # ys)" "distinct (p # xs @ d # ys)"
  shows "sl_path (G(last (p # xs) := G d)) p (xs @ ys)"
  using assms
proof (induction xs arbitrary: p)
  case Nil
  let ?G = "G(p := G d)"
  show ?case
  proof (cases ys)
    case (Cons a as)
    then have "sl_path ?G a as = sl_path G a as" using Nil by (intro sl_path_cong) auto
    moreover have "G d = Ret (SL_NODE a)" "sl_path G a as" using Nil Cons by simp_all
    ultimately show ?thesis using Cons by (simp add: fun_upd_def)
  qed (use Nil in simp)
qed auto

section \<open>Cells of the store\<close>

definition sl_alive :: "'a skip_list \<Rightarrow> nat \<Rightarrow> bool" where
  "sl_alive sl a \<longleftrightarrow> a < length (sl_mem sl) \<and> sl_mem sl ! a \<noteq> None"

definition sl_node :: "'a skip_list \<Rightarrow> nat \<Rightarrow> 'a skip_list_node" where
  "sl_node sl a = the (sl_mem sl ! a)"

abbreviation nkey :: "'a skip_list \<Rightarrow> nat \<Rightarrow> 32 word" where "nkey sl a \<equiv> sln_key (sl_node sl a)"
abbreviation ndata :: "'a skip_list \<Rightarrow> nat \<Rightarrow> 'a option" where "ndata sl a \<equiv> sln_data (sl_node sl a)"
abbreviation slots :: "'a skip_list \<Rightarrow> nat \<Rightarrow> nat" where "slots sl a \<equiv> length (sln_forw (sl_node sl a))"

lemma arr_get_alive: "sl_alive sl a \<Longrightarrow> arr_get (sl_mem sl) a = Ret (sl_node sl a)"
  by (auto simp: sl_alive_def sl_node_def arr_get_def)

lemma sl_key_of_alive: "sl_alive sl a \<Longrightarrow> sl_key_of sl (SL_NODE a) = Ret (nkey sl a)"
  by (simp add: sl_key_of_def arr_get_alive)

lemma sl_key_of_NIL: "sl_key_of sl SL_NIL = Ret 0xffffffff"
  by (simp add: sl_key_of_def)

lemma sl_data_of_alive: "sl_alive sl a \<Longrightarrow> sl_data_of sl (SL_NODE a) = Ret (ndata sl a)"
  by (simp add: sl_data_of_def arr_get_alive)

text \<open>Stores that differ in pointers only.\<close>

definition sl_same :: "'a skip_list \<Rightarrow> 'a skip_list \<Rightarrow> bool" where
  "sl_same sl sl' \<longleftrightarrow> length (sl_mem sl') = length (sl_mem sl) \<and> sl_head sl' = sl_head sl \<and> sl_level sl' = sl_level sl \<and>
     sl_random_bits sl' = sl_random_bits sl \<and> sl_randoms_left sl' = sl_randoms_left sl \<and> sl_random sl' = sl_random sl \<and>
     (\<forall>a. sl_alive sl' a = sl_alive sl a \<and> nkey sl' a = nkey sl a \<and> ndata sl' a = ndata sl a \<and> slots sl' a = slots sl a)"

lemma sl_same_refl: "sl_same sl sl"
  by (simp add: sl_same_def)

lemma sl_same_trans: "sl_same a b \<Longrightarrow> sl_same b c \<Longrightarrow> sl_same a c"
  by (simp add: sl_same_def)

lemma sl_set_forw_ok:
  assumes "sl_alive sl p" "i < slots sl p"
  shows "\<exists>sl'. sl_set_forw sl p i q = Ret sl' \<and> sl_same sl sl' \<and>
    (\<forall>a j. sl_get_forw sl' a j = (if a = p \<and> j = i then Ret q else sl_get_forw sl a j))"
proof -
  let ?node = "sl_node sl p"
  let ?node' = "?node\<lparr>sln_forw := (sln_forw ?node)[i := Some q]\<rparr>"
  let ?sl' = "sl\<lparr>sl_mem := (sl_mem sl)[p := Some ?node']\<rparr>"
  have p: "p < length (sl_mem sl)" "sl_mem sl ! p = Some ?node" using assms(1) by (auto simp: sl_alive_def sl_node_def)
  have "sl_set_forw sl p i q = Ret ?sl'"
    using assms p(1) by (simp add: sl_set_forw_def arr_get_alive arr_set_def)
  moreover have "sl_same sl ?sl'"
    using p by (auto simp: sl_same_def sl_alive_def sl_node_def nth_list_update)
  moreover have "sl_get_forw ?sl' a j = (if a = p \<and> j = i then Ret q else sl_get_forw sl a j)" for a j
    using p assms(2) by (auto simp: sl_get_forw_def arr_get_def nth_list_update split: option.splits)
  ultimately show ?thesis by blast
qed

lemma sl_link_ok:
  assumes "\<And>j. i \<le> j \<Longrightarrow> j < i + n \<Longrightarrow> arr_get update j = Ret (u j) \<and> u j \<noteq> p \<and> sl_alive sl (u j) \<and> j < slots sl (u j) \<and>
      j < slots sl p \<and> (\<exists>q. sl_get_forw sl (u j) j = Ret q)"
    and "sl_alive sl p"
  shows "\<exists>sl'. sl_link p update sl i n = Ret sl' \<and> sl_same sl sl' \<and>
    (\<forall>j. (\<lambda>a. sl_get_forw sl' a j) =
      (if i \<le> j \<and> j < i + n then (\<lambda>a. sl_get_forw sl a j)(p := sl_get_forw sl (u j) j, u j := Ret (SL_NODE p)) else (\<lambda>a. sl_get_forw sl a j)))"
  using assms
proof (induction n arbitrary: i sl)
  case 0
  then show ?case by (auto simp: sl_same_refl)
next
  case (Suc n)
  have here: "arr_get update i = Ret (u i)" "u i \<noteq> p" "sl_alive sl (u i)" "i < slots sl (u i)" "i < slots sl p"
    using Suc.prems(1) [of i] by simp_all
  obtain q where q: "sl_get_forw sl (u i) i = Ret q" using Suc.prems(1) [of i] by auto
  obtain s1 where s1: "sl_set_forw sl p i q = Ret s1" "sl_same sl s1"
    "\<And>a j. sl_get_forw s1 a j = (if a = p \<and> j = i then Ret q else sl_get_forw sl a j)"
    using sl_set_forw_ok [OF Suc.prems(2) here(5), of q] by blast
  have "sl_alive s1 (u i)" "i < slots s1 (u i)" using here s1(2) by (simp_all add: sl_same_def)
  then obtain s2 where s2: "sl_set_forw s1 (u i) i (SL_NODE p) = Ret s2" "sl_same s1 s2"
    "\<And>a j. sl_get_forw s2 a j = (if a = u i \<and> j = i then Ret (SL_NODE p) else sl_get_forw s1 a j)"
    using sl_set_forw_ok [of s1 "u i" i "SL_NODE p"] by blast
  have same: "sl_same sl s2" using s1(2) s2(2) by (rule sl_same_trans)
  have g2: "sl_get_forw s2 a j = sl_get_forw sl a j" if "j \<noteq> i" for a j using that s1(3) s2(3) by simp
  have "\<exists>sl'. sl_link p update s2 (Suc i) n = Ret sl' \<and> sl_same s2 sl' \<and>
    (\<forall>j. (\<lambda>a. sl_get_forw sl' a j) =
      (if Suc i \<le> j \<and> j < Suc i + n then (\<lambda>a. sl_get_forw s2 a j)(p := sl_get_forw s2 (u j) j, u j := Ret (SL_NODE p))
       else (\<lambda>a. sl_get_forw s2 a j)))"
  proof (rule Suc.IH)
    show "sl_alive s2 p" using Suc.prems(2) same by (simp add: sl_same_def)
  next
    fix j assume j: "Suc i \<le> j" "j < Suc i + n"
    show "arr_get update j = Ret (u j) \<and> u j \<noteq> p \<and> sl_alive s2 (u j) \<and> j < slots s2 (u j) \<and> j < slots s2 p \<and>
        (\<exists>q. sl_get_forw s2 (u j) j = Ret q)"
      using Suc.prems(1) [of j] j same g2 by (simp add: sl_same_def)
  qed
  then obtain sl' where sl': "sl_link p update s2 (Suc i) n = Ret sl'" "sl_same s2 sl'"
    "\<And>j. (\<lambda>a. sl_get_forw sl' a j) =
      (if Suc i \<le> j \<and> j < Suc i + n then (\<lambda>a. sl_get_forw s2 a j)(p := sl_get_forw s2 (u j) j, u j := Ret (SL_NODE p))
       else (\<lambda>a. sl_get_forw s2 a j))"
    by blast
  have "sl_link p update sl i (Suc n) = Ret sl'" by (simp add: here(1) q s1(1) s2(1) sl'(1))
  moreover have "(\<lambda>a. sl_get_forw sl' a j) =
      (if i \<le> j \<and> j < i + Suc n then (\<lambda>a. sl_get_forw sl a j)(p := sl_get_forw sl (u j) j, u j := Ret (SL_NODE p)) else (\<lambda>a. sl_get_forw sl a j))"
    for j
  proof (cases "j = i")
    case True
    have "(\<lambda>a. sl_get_forw sl' a i) = (\<lambda>a. sl_get_forw s2 a i)" using sl'(3) [of i] by simp
    then show ?thesis using True s1(3) s2(3) q by (auto simp: fun_eq_iff)
  next
    case False
    then have eq: "(\<lambda>a. sl_get_forw s2 a j) = (\<lambda>a. sl_get_forw sl a j)" "sl_get_forw s2 (u j) j = sl_get_forw sl (u j) j"
      using g2 by auto
    have "Suc i \<le> j \<and> j < Suc i + n \<longleftrightarrow> i \<le> j \<and> j < i + Suc n" using False by auto
    then show ?thesis unfolding sl'(3) eq by (simp only:)
  qed
  ultimately show ?case using sl_same_trans [OF same sl'(2)] by blast
qed

lemma sl_unlink_ok:
  assumes "\<And>j. i \<le> j \<Longrightarrow> j < m \<Longrightarrow> arr_get update j = Ret (u j) \<and> u j \<noteq> p \<and> sl_alive sl (u j) \<and> j < slots sl (u j) \<and>
      sl_get_forw sl (u j) j = Ret (SL_NODE p) \<and> (\<exists>q. sl_get_forw sl p j = Ret q)"
    and "i \<le> m" "m \<le> i + n"
    and "m < i + n \<Longrightarrow> arr_get update m = Ret (u m) \<and> (\<exists>q. sl_get_forw sl (u m) m = Ret q \<and> q \<noteq> SL_NODE p)"
  shows "\<exists>sl'. sl_unlink p update sl i n = Ret sl' \<and> sl_same sl sl' \<and>
    (\<forall>j. (\<lambda>a. sl_get_forw sl' a j) =
      (if i \<le> j \<and> j < m then (\<lambda>a. sl_get_forw sl a j)(u j := sl_get_forw sl p j) else (\<lambda>a. sl_get_forw sl a j)))"
  using assms
proof (induction n arbitrary: i sl)
  case 0
  then show ?case by (auto simp: sl_same_refl)
next
  case (Suc n)
  show ?case
  proof (cases "i = m")
    case True
    then obtain q where "arr_get update i = Ret (u i)" "sl_get_forw sl (u i) i = Ret q" "q \<noteq> SL_NODE p"
      using Suc.prems(4) by auto
    then show ?thesis using True by (auto simp: sl_same_refl)
  next
    case False
    then have im: "i < m" using Suc.prems(2) by simp
    then have here: "arr_get update i = Ret (u i)" "u i \<noteq> p" "sl_alive sl (u i)" "i < slots sl (u i)"
      "sl_get_forw sl (u i) i = Ret (SL_NODE p)"
      using Suc.prems(1) [of i] by simp_all
    obtain q where q: "sl_get_forw sl p i = Ret q" using Suc.prems(1) [of i] im by auto
    obtain s1 where s1: "sl_set_forw sl (u i) i q = Ret s1" "sl_same sl s1"
      "\<And>a j. sl_get_forw s1 a j = (if a = u i \<and> j = i then Ret q else sl_get_forw sl a j)"
      using sl_set_forw_ok [OF here(3,4), of q] by blast
    have g1: "sl_get_forw s1 a j = sl_get_forw sl a j" if "j \<noteq> i" for a j using that s1(3) by simp
    have "\<exists>sl'. sl_unlink p update s1 (Suc i) n = Ret sl' \<and> sl_same s1 sl' \<and>
      (\<forall>j. (\<lambda>a. sl_get_forw sl' a j) =
        (if Suc i \<le> j \<and> j < m then (\<lambda>a. sl_get_forw s1 a j)(u j := sl_get_forw s1 p j) else (\<lambda>a. sl_get_forw s1 a j)))"
    proof (rule Suc.IH)
      fix j assume j: "Suc i \<le> j" "j < m"
      show "arr_get update j = Ret (u j) \<and> u j \<noteq> p \<and> sl_alive s1 (u j) \<and> j < slots s1 (u j) \<and>
          sl_get_forw s1 (u j) j = Ret (SL_NODE p) \<and> (\<exists>q. sl_get_forw s1 p j = Ret q)"
        using Suc.prems(1) [of j] j s1(2) g1 by (simp add: sl_same_def)
    next
      assume "m < Suc i + n"
      then show "arr_get update m = Ret (u m) \<and> (\<exists>q. sl_get_forw s1 (u m) m = Ret q \<and> q \<noteq> SL_NODE p)"
        using Suc.prems(4) g1 im by simp
    qed (use im Suc.prems(3) in simp_all)
    then obtain sl' where sl': "sl_unlink p update s1 (Suc i) n = Ret sl'" "sl_same s1 sl'"
      "\<And>j. (\<lambda>a. sl_get_forw sl' a j) =
        (if Suc i \<le> j \<and> j < m then (\<lambda>a. sl_get_forw s1 a j)(u j := sl_get_forw s1 p j) else (\<lambda>a. sl_get_forw s1 a j))"
      by blast
    have "sl_unlink p update sl i (Suc n) = Ret sl'" by (simp add: here(1,5) q s1(1) sl'(1))
    moreover have "(\<lambda>a. sl_get_forw sl' a j) =
        (if i \<le> j \<and> j < m then (\<lambda>a. sl_get_forw sl a j)(u j := sl_get_forw sl p j) else (\<lambda>a. sl_get_forw sl a j))" for j
    proof (cases "j = i")
      case True
      have "(\<lambda>a. sl_get_forw sl' a i) = (\<lambda>a. sl_get_forw s1 a i)" using sl'(3) [of i] by simp
      then show ?thesis using True s1(3) q im by (auto simp: fun_eq_iff)
    next
      case False
      then have eq: "(\<lambda>a. sl_get_forw s1 a j) = (\<lambda>a. sl_get_forw sl a j)" "sl_get_forw s1 p j = sl_get_forw sl p j"
        using g1 by auto
      have "Suc i \<le> j \<and> j < m \<longleftrightarrow> i \<le> j \<and> j < m" using False by auto
      then show ?thesis unfolding sl'(3) eq by (simp only:)
    qed
    ultimately show ?thesis using sl_same_trans [OF s1(2) sl'(2)] by blast
  qed
qed

lemma sl_lower_ok:
  assumes "\<And>i. i < n \<Longrightarrow> \<exists>q. sl_get_forw sl (sl_head sl) i = Ret q"
  shows "\<exists>m \<le> n. sl_lower sl n = Ret m \<and> (\<forall>i. m \<le> i \<and> i < n \<longrightarrow> sl_get_forw sl (sl_head sl) i = Ret SL_NIL)"
  using assms
proof (induction n)
  case (Suc n)
  then obtain m where m: "m \<le> n" "sl_lower sl n = Ret m" "\<forall>i. m \<le> i \<and> i < n \<longrightarrow> sl_get_forw sl (sl_head sl) i = Ret SL_NIL"
    by (metis less_Suc_eq)
  obtain q where q: "sl_get_forw sl (sl_head sl) n = Ret q" using Suc.prems by blast
  show ?case
  proof (cases "q = SL_NIL")
    case True
    then have "\<forall>i. m \<le> i \<and> i < Suc n \<longrightarrow> sl_get_forw sl (sl_head sl) i = Ret SL_NIL" using m q by (auto simp: less_Suc_eq)
    then show ?thesis using True m q by (intro exI [of _ m]) simp
  next
    case False
    then show ?thesis using q by (intro exI [of _ "Suc n"]) auto
  qed
qed simp

section \<open>The list a store represents\<close>

definition sl_rep :: "'a skip_list \<Rightarrow> nat list \<Rightarrow> bool" where
  "sl_rep sl ns \<longleftrightarrow>
     (\<forall>a \<in> set (sl_head sl # ns). sl_alive sl a) \<and> distinct (sl_head sl # ns) \<and> sorted (map (nkey sl) ns) \<and>
     slots sl (sl_head sl) = SL_MAX_LEVELS + 1 \<and> ndata sl (sl_head sl) = None \<and>
     (\<forall>a \<in> set ns. 1 \<le> slots sl a \<and> slots sl a \<le> levels (sl_level sl)) \<and>
     levels (sl_level sl) \<le> SL_MAX_LEVELS \<and> sint (sl_level sl) = int (levels (sl_level sl)) - 1 \<and>
     (\<forall>i < SL_MAX_LEVELS. sl_path (\<lambda>a. sl_get_forw sl a i) (sl_head sl) (filter (\<lambda>a. i < slots sl a) ns))"

lemma sl_rep_length:
  assumes "sl_rep sl ns"
  shows "length ns < length (sl_mem sl)"
proof -
  have "set (sl_head sl # ns) \<subseteq> {..<length (sl_mem sl)}" using assms by (auto simp: sl_rep_def sl_alive_def)
  then have "card (set (sl_head sl # ns)) \<le> length (sl_mem sl)" using card_mono [of "{..<length (sl_mem sl)}"] by fastforce
  moreover have "card (set (sl_head sl # ns)) = Suc (length ns)"
    using assms distinct_card [of "sl_head sl # ns"] by (simp add: sl_rep_def)
  ultimately show ?thesis by simp
qed

lemma max_key: "key \<le> (0xffffffff :: 32 word)"
proof -
  have eq: "(0xffffffff :: 32 word) = - 1" by simp
  show ?thesis unfolding eq by (rule word_order.extremum)
qed

lemma sl_forward_ok:
  assumes "sl_path (\<lambda>a. sl_get_forw sl a i) p as" "\<And>a. a \<in> set as \<Longrightarrow> sl_alive sl a" "length as < n"
  shows "sl_forward n sl i key p = Ret (last (p # takeWhile (\<lambda>a. nkey sl a < key) as))"
  using assms
proof (induction as arbitrary: p n)
  case Nil
  obtain m where "n = Suc m" using Nil(3) by (cases n) auto
  moreover have "\<not> 0xffffffff < key" using max_key [of key] by (simp add: not_less)
  ultimately show ?case using Nil by (simp add: sl_key_of_def)
next
  case (Cons a as)
  obtain m where "n = Suc m" using Cons(4) by (cases n) auto
  then show ?case using Cons by (auto simp: sl_key_of_alive)
qed

text \<open>The node before the place of a key on level \<open>i\<close>; in a sorted list the smaller keys are a prefix on every level.\<close>

definition before :: "'a skip_list \<Rightarrow> nat list \<Rightarrow> 32 word \<Rightarrow> nat \<Rightarrow> nat" where
  "before sl ns key i = last (sl_head sl # filter (\<lambda>a. i < slots sl a) (filter (\<lambda>a. nkey sl a < key) ns))"

lemma sorted_takeWhile_less:
  "sorted (map f xs) \<Longrightarrow> takeWhile (\<lambda>a. f a < k) xs = filter (\<lambda>a. f a < k) xs"
  for k :: "'b :: linorder"
proof (induction xs)
  case (Cons x xs)
  then have "\<not> f x < k \<Longrightarrow> filter (\<lambda>a. f a < k) xs = []" by (fastforce simp: filter_empty_conv)
  then show ?case using Cons by simp
qed simp

lemma sorted_dropWhile_less:
  "sorted (map f xs) \<Longrightarrow> dropWhile (\<lambda>a. f a < k) xs = filter (\<lambda>a. k \<le> f a) xs"
  for k :: "'b :: linorder"
proof (induction xs)
  case (Cons x xs)
  show ?case
  proof (cases "f x < k")
    case False
    then have "filter (\<lambda>a. k \<le> f a) xs = xs" using Cons.prems by (force simp: filter_id_conv)
    then show ?thesis using False by (simp add: not_less)
  qed (use Cons in \<open>simp add: not_le\<close>)
qed simp

lemma sorted_split: "sorted (map f xs) \<Longrightarrow> xs = filter (\<lambda>a. f a < k) xs @ filter (\<lambda>a. k \<le> f a) xs"
  for k :: "'b :: linorder"
  using takeWhile_dropWhile_id [of "\<lambda>a. f a < k" xs] by (simp add: sorted_takeWhile_less sorted_dropWhile_less)

lemma sorted_map_filter: "sorted (map f xs) \<Longrightarrow> sorted (map f (filter P xs))"
  by (induction xs) auto

lemma sl_rep_path:
  "sl_rep sl ns \<Longrightarrow> i < SL_MAX_LEVELS \<Longrightarrow> sl_path (\<lambda>a. sl_get_forw sl a i) (sl_head sl) (filter (\<lambda>a. i < slots sl a) ns)"
  by (simp add: sl_rep_def)

lemma sl_rep_sorted: "sl_rep sl ns \<Longrightarrow> sorted (map (nkey sl) ns)"
  by (simp add: sl_rep_def)

lemma before_step:
  assumes rep: "sl_rep sl ns" and i: "i < SL_MAX_LEVELS"
  shows "sl_forward (length (sl_mem sl)) sl i key (before sl ns key (Suc i)) = Ret (before sl ns key i)"
proof -
  let ?P = "\<lambda>a. i < slots sl a" and ?L = "\<lambda>a. nkey sl a < key"
  let ?as = "filter ?P ns" and ?as' = "filter (\<lambda>a. Suc i < slots sl a) ns"
  have alive: "\<And>a. a \<in> set ?as \<Longrightarrow> sl_alive sl a" using rep by (auto simp: sl_rep_def)
  have sorted: "sorted (map (nkey sl) ?as)" using sl_rep_sorted [OF rep] by (rule sorted_map_filter)
  have path: "sl_path (\<lambda>a. sl_get_forw sl a i) (sl_head sl) ?as" using sl_rep_path [OF rep i] .
  have fuel: "length ys < length (sl_mem sl)" if "length ys \<le> length ?as" for ys :: "nat list"
    using that sl_rep_length [OF rep] length_filter_le [of ?P ns] by linarith
  have at: "before sl ns key i = last (sl_head sl # filter ?L ?as)" by (simp add: before_def conj_commute)
  show ?thesis
  proof (cases "filter ?L ?as' = []")
    case True
    then have "before sl ns key (Suc i) = sl_head sl" by (simp add: before_def conj_commute)
    then show ?thesis
      using sl_forward_ok [OF path alive fuel [OF order_refl], of key] sorted by (simp add: at sorted_takeWhile_less)
  next
    case False
    let ?p = "last (filter ?L ?as')"
    have p: "before sl ns key (Suc i) = ?p" using False by (simp add: before_def conj_commute)
    have "?p \<in> set (filter ?L ?as')" using False by (rule last_in_set)
    then have "?p \<in> set ?as" "?L ?p" by auto
    then obtain xs ys where as: "?as = xs @ ?p # ys" by (meson split_list)
    have "sl_path (\<lambda>a. sl_get_forw sl a i) (last (sl_head sl # xs @ [?p])) ys"
      using sl_path_suffix [of _ "sl_head sl" "xs @ [?p]" ys] path as by simp
    then have path': "sl_path (\<lambda>a. sl_get_forw sl a i) ?p ys" by simp
    have ys: "length ys \<le> length ?as" "\<And>a. a \<in> set ys \<Longrightarrow> sl_alive sl a" using as alive by auto
    have sorted': "sorted (map (nkey sl) ys)" using sorted unfolding as by (simp add: sorted_append)
    have "last (sl_head sl # filter ?L ?as) = last (?p # filter ?L ys)"
      unfolding as using \<open>?L ?p\<close> by simp
    then show ?thesis
      unfolding p at using sl_forward_ok [OF path' ys(2) fuel [OF ys(1)], of key] sorted' by (simp add: sorted_takeWhile_less)
  qed
qed

lemma before_top: "sl_rep sl ns \<Longrightarrow> levels (sl_level sl) \<le> i \<Longrightarrow> before sl ns key i = sl_head sl"
proof -
  assume rep: "sl_rep sl ns" and i: "levels (sl_level sl) \<le> i"
  then have "filter (\<lambda>a. i < slots sl a) (filter (\<lambda>a. nkey sl a < key) ns) = []"
    by (fastforce simp: sl_rep_def filter_empty_conv)
  then show ?thesis by (simp add: before_def)
qed

lemma sl_descend_ok:
  assumes "sl_rep sl ns" "n \<le> SL_MAX_LEVELS"
  shows "sl_descend sl key (before sl ns key n) n = Ret (before sl ns key 0)"
  using assms(2)
proof (induction n)
  case (Suc n)
  then show ?case using before_step [OF assms(1), of n key] by simp
qed simp

lemma sl_descend_update_ok:
  assumes "sl_rep sl ns" "n \<le> SL_MAX_LEVELS" "length update = SL_MAX_LEVELS"
  shows "\<exists>u. sl_descend_update sl key (before sl ns key n) update n = Ret (before sl ns key 0, u) \<and> length u = SL_MAX_LEVELS \<and>
    (\<forall>i < n. u ! i = Some (before sl ns key i)) \<and> (\<forall>i. n \<le> i \<longrightarrow> u ! i = update ! i)"
  using assms(2,3)
proof (induction n arbitrary: update)
  case (Suc n)
  let ?b = "before sl ns key n"
  have n: "n < SL_MAX_LEVELS" using Suc.prems by simp
  have "\<exists>u. sl_descend_update sl key ?b (update[n := Some ?b]) n = Ret (before sl ns key 0, u) \<and> length u = SL_MAX_LEVELS \<and>
    (\<forall>i < n. u ! i = Some (before sl ns key i)) \<and> (\<forall>i. n \<le> i \<longrightarrow> u ! i = update[n := Some ?b] ! i)"
    using n Suc.prems by (intro Suc.IH) simp_all
  then obtain u where u: "sl_descend_update sl key ?b (update[n := Some ?b]) n = Ret (before sl ns key 0, u)" "length u = SL_MAX_LEVELS"
    "\<forall>i < n. u ! i = Some (before sl ns key i)" "\<forall>i. n \<le> i \<longrightarrow> u ! i = update[n := Some ?b] ! i" by blast
  have "sl_descend_update sl key (before sl ns key (Suc n)) update (Suc n) = Ret (before sl ns key 0, u)"
    using before_step [OF assms(1) n, of key] u(1) n Suc.prems by (simp add: arr_set_def)
  moreover have "\<forall>i < Suc n. u ! i = Some (before sl ns key i)" using u(3,4) n Suc.prems by (auto simp: less_Suc_eq)
  moreover have "\<forall>i. Suc n \<le> i \<longrightarrow> u ! i = update ! i" using u(4) by simp
  ultimately show ?case using u(2) by blast
qed simp

lemma before_path:
  assumes "sl_rep sl ns" "i < SL_MAX_LEVELS"
  shows "sl_path (\<lambda>a. sl_get_forw sl a i) (before sl ns key i)
    (filter (\<lambda>a. i < slots sl a) (filter (\<lambda>a. key \<le> nkey sl a) ns))"
proof -
  have "filter (\<lambda>a. i < slots sl a) ns = filter (\<lambda>a. i < slots sl a) (filter (\<lambda>a. nkey sl a < key) ns) @
      filter (\<lambda>a. i < slots sl a) (filter (\<lambda>a. key \<le> nkey sl a) ns)"
    by (subst sorted_split [OF sl_rep_sorted [OF assms(1)], of key]) (rule filter_append)
  then show ?thesis
    using sl_path_suffix sl_rep_path [OF assms] unfolding before_def by metis
qed

lemma before_in: "before sl ns key i = sl_head sl \<or> before sl ns key i \<in> set ns \<and> i < slots sl (before sl ns key i)"
proof -
  let ?as = "filter (\<lambda>a. i < slots sl a) (filter (\<lambda>a. nkey sl a < key) ns)"
  show ?thesis
  proof (cases "?as = []")
    case False
    then have "last ?as \<in> set ?as" by (rule last_in_set)
    then have "last ?as \<in> set ns" "i < slots sl (last ?as)" by auto
    then show ?thesis using False unfolding before_def by simp
  qed (simp add: before_def)
qed

lemma before_ok:
  assumes "sl_rep sl ns" "i < SL_MAX_LEVELS"
  shows "sl_alive sl (before sl ns key i)" "i < slots sl (before sl ns key i)" "\<exists>q. sl_get_forw sl (before sl ns key i) i = Ret q"
  using before_in [of sl ns key i] assms sl_path_start [OF before_path [OF assms]] by (auto simp: sl_rep_def)

lemma filter_slots_0: "sl_rep sl ns \<Longrightarrow> filter (\<lambda>a. 0 < slots sl a) (filter P ns) = filter P ns"
  by (intro filter_True) (auto simp: sl_rep_def)

lemma before_next:
  assumes "sl_rep sl ns"
  shows "sl_get_forw sl (before sl ns key 0) 0 =
    Ret (case filter (\<lambda>a. key \<le> nkey sl a) ns of [] \<Rightarrow> SL_NIL | p # _ \<Rightarrow> SL_NODE p)"
proof -
  have "sl_path (\<lambda>a. sl_get_forw sl a 0) (before sl ns key 0) (filter (\<lambda>a. key \<le> nkey sl a) ns)"
    using before_path [OF assms, of 0 key] unfolding filter_slots_0 [OF assms] by (simp add: SL_MAX_LEVELS_def)
  then show ?thesis by (cases "filter (\<lambda>a. key \<le> nkey sl a) ns") simp_all
qed

definition sl_entries :: "'a skip_list \<Rightarrow> nat list \<Rightarrow> (32 word \<times> 'a option) list" where
  "sl_entries sl ns = map (\<lambda>a. (nkey sl a, ndata sl a)) ns"

lemma map_of_sorted:
  "sorted (map f ns) \<Longrightarrow> map_of (map (\<lambda>a. (f a, d a)) ns) k =
     (case filter (\<lambda>a. k \<le> f a) ns of [] \<Rightarrow> None | p # _ \<Rightarrow> if f p = k then Some (d p) else None)"
  for k :: "'b :: linorder"
proof (induction ns)
  case (Cons a ns)
  show ?case
  proof (cases "k \<le> f a")
    case True
    moreover have "f a \<noteq> k \<Longrightarrow> map_of (map (\<lambda>a. (f a, d a)) ns) k = None"
      using True Cons.prems by (force simp: map_of_eq_None_iff)
    ultimately show ?thesis by simp
  qed (use Cons in auto)
qed simp

lemma sl_rep_levels: "sl_rep sl ns \<Longrightarrow> levels (sl_level sl) \<le> SL_MAX_LEVELS"
  by (simp add: sl_rep_def)

lemma sl_find_pos_ok:
  assumes "sl_rep sl ns" "key \<noteq> 0xffffffff"
  shows "sl_find_pos sl key =
    (case filter (\<lambda>a. key \<le> nkey sl a) ns of [] \<Rightarrow> Err ENOENT
     | p # _ \<Rightarrow> if nkey sl p = key then Ret (SL_NODE p, ndata sl p) else Err ENOENT)"
proof -
  have "sl_descend sl key (sl_head sl) (levels (sl_level sl)) = Ret (before sl ns key 0)"
    using sl_descend_ok [OF assms(1) sl_rep_levels [OF assms(1)], of key] by (simp add: before_top [OF assms(1)])
  moreover have "sl_alive sl p" if "filter (\<lambda>a. key \<le> nkey sl a) ns = p # ps" for p ps
  proof -
    have "p \<in> set (filter (\<lambda>a. key \<le> nkey sl a) ns)" using that by simp
    then show ?thesis using assms(1) by (auto simp: sl_rep_def)
  qed
  ultimately show ?thesis
    using assms(2) before_next [OF assms(1), of key]
    by (cases "filter (\<lambda>a. key \<le> nkey sl a) ns") (auto simp: sl_find_pos_def sl_key_of_alive sl_data_of_alive sl_key_of_NIL)
qed

lemma sl_find_ok:
  assumes "sl_rep sl ns" "key \<noteq> 0xffffffff"
  shows "sl_find sl key = (case map_of (sl_entries sl ns) key of None \<Rightarrow> Err ENOENT | Some d \<Rightarrow> Ret d)"
  unfolding sl_find_def sl_find_pos_ok [OF assms] sl_entries_def map_of_sorted [OF sl_rep_sorted [OF assms(1)]]
  by (simp split: list.splits)

section \<open>Random levels\<close>

lemma sl_random_loop_level:
  "sl_random_loop fuel sl level = Ret (l, sl') \<Longrightarrow>
     l = level + 1 \<and> sl_mem sl' = sl_mem sl \<and> sl_head sl' = sl_head sl \<and> sl_level sl' = sl_level sl"
proof (induction fuel arbitrary: sl level)
  case (Suc n)
  show ?case
  proof (cases "sl_random_bits sl AND 3 = 0")
    case True
    then show ?thesis using Suc.prems by (auto simp: Let_def)
  next
    case False
    then show ?thesis using Suc.prems by (auto simp: Let_def dest!: Suc.IH split: if_splits)
  qed
qed simp

text \<open>A word in which one of the fifteen pairs of bits is zero, and a source that gives one again and again.\<close>

definition zero_pair :: "32 word \<Rightarrow> bool" where
  "zero_pair w \<longleftrightarrow> (\<exists>k < 15. drop_bit (2 * k) w AND 3 = 0)"

definition good_source :: "nat \<Rightarrow> (nat \<Rightarrow> 32 word) \<Rightarrow> bool" where
  "good_source B random \<longleftrightarrow> (\<forall>n. \<exists>m < B. zero_pair (random (n + m)))"

definition sl_rnd :: "nat \<Rightarrow> 'a skip_list \<Rightarrow> bool" where
  "sl_rnd B sl \<longleftrightarrow> 1 \<le> unat (sl_randoms_left sl) \<and> unat (sl_randoms_left sl) \<le> 15 \<and> good_source B (sl_random sl)"

lemma good_source_Suc: "good_source B r \<Longrightarrow> good_source B (\<lambda>n. r (Suc n))"
  unfolding good_source_def by (metis add_Suc)

lemma unat_dec: "1 \<le> unat (w :: 32 word) \<Longrightarrow> unat (w - 1) = unat w - 1"
  by (metis One_nat_def Suc_le_eq unat_gt_0 unat_minus_one)

lemma left_reload: "unat (word_of_int (SL_BITS_IN_RANDOM div 2) :: 32 word) = 15"
  by (simp add: SL_BITS_IN_RANDOM_def)

lemma sl_random_loop_rnd:
  "sl_random_loop fuel sl level = Ret (l, sl') \<Longrightarrow> sl_rnd B sl \<Longrightarrow> sl_rnd B sl'"
proof (induction fuel arbitrary: sl level)
  case (Suc n)
  let ?s = "sl\<lparr>sl_random_bits := drop_bit 2 (sl_random_bits sl), sl_randoms_left := sl_randoms_left sl - 1\<rparr>"
  let ?t = "if sl_randoms_left ?s = 0
    then ?s\<lparr>sl_random_bits := sl_random ?s 0, sl_randoms_left := word_of_int (SL_BITS_IN_RANDOM div 2), sl_random := (\<lambda>n. sl_random ?s (Suc n))\<rparr>
    else ?s"
  have left: "unat (sl_randoms_left sl - 1) = unat (sl_randoms_left sl) - 1" using Suc.prems(2) unat_dec by (auto simp: sl_rnd_def)
  have t: "sl_rnd B ?t"
  proof (cases "sl_randoms_left ?s = 0")
    case True
    then show ?thesis using Suc.prems(2) good_source_Suc [of B "sl_random sl"] by (simp add: sl_rnd_def left_reload)
  next
    case False
    then have "unat (sl_randoms_left sl - 1) \<noteq> 0" by (simp add: unat_eq_0)
    then have "1 \<le> unat (sl_randoms_left ?s) \<and> unat (sl_randoms_left ?s) \<le> 15" using Suc.prems(2) left by (auto simp: sl_rnd_def)
    then show ?thesis unfolding if_not_P [OF False] using Suc.prems(2) by (simp add: sl_rnd_def)
  qed
  show ?case
  proof (cases "sl_random_bits sl AND 3 = 0")
    case True
    then show ?thesis using Suc.prems(1) t by (auto simp: Let_def)
  next
    case False
    then have "sl_random_loop n ?t level = Ret (l, sl')" using Suc.prems(1) by (simp add: Let_def)
    then show ?thesis using t by (rule Suc.IH)
  qed
qed simp

lemma sl_random_phase:
  assumes "unat (sl_randoms_left sl) = Suc L"
  shows "if \<exists>k < Suc L. drop_bit (2 * k) (sl_random_bits sl) AND 3 = 0
    then \<exists>sl'. sl_random_loop (Suc L + n) sl level = Ret (level + 1, sl')
    else sl_random_loop (Suc L + n) sl level = sl_random_loop n
      (sl\<lparr>sl_random_bits := sl_random sl 0, sl_randoms_left := word_of_int (SL_BITS_IN_RANDOM div 2), sl_random := (\<lambda>n. sl_random sl (Suc n))\<rparr>) level"
  using assms
proof (induction L arbitrary: sl)
  case 0
  then have "sl_randoms_left sl - 1 = 0" using unat_dec [of "sl_randoms_left sl"] by (simp add: unat_eq_0)
  then show ?case by (simp add: Let_def)
next
  case (Suc L)
  let ?s = "sl\<lparr>sl_random_bits := drop_bit 2 (sl_random_bits sl), sl_randoms_left := sl_randoms_left sl - 1\<rparr>"
  have left: "unat (sl_randoms_left ?s) = Suc L" using Suc.prems unat_dec [of "sl_randoms_left sl"] by simp
  then have nz: "sl_randoms_left ?s \<noteq> 0" by auto
  show ?case
  proof (cases "sl_random_bits sl AND 3 = 0")
    case True
    then have "\<exists>k < Suc (Suc L). drop_bit (2 * k) (sl_random_bits sl) AND 3 = 0" by (intro exI [of _ 0]) simp
    then show ?thesis using True by (simp add: Let_def)
  next
    case False
    have ex: "(\<exists>k < Suc (Suc L). drop_bit (2 * k) (sl_random_bits sl) AND 3 = 0) \<longleftrightarrow>
        (\<exists>k < Suc L. drop_bit (2 * k) (sl_random_bits ?s) AND 3 = 0)"
      using False by (auto simp: Ex_less_Suc2)
    have loop: "sl_random_loop (Suc (Suc L) + n) sl level = sl_random_loop (Suc L + n) ?s level"
      using False nz by (simp add: Let_def)
    have eq: "?s\<lparr>sl_random_bits := sl_random ?s 0, sl_randoms_left := word_of_int (SL_BITS_IN_RANDOM div 2), sl_random := (\<lambda>n. sl_random ?s (Suc n))\<rparr> =
        sl\<lparr>sl_random_bits := sl_random sl 0, sl_randoms_left := word_of_int (SL_BITS_IN_RANDOM div 2), sl_random := (\<lambda>n. sl_random sl (Suc n))\<rparr>"
      by simp
    show ?thesis unfolding ex loop using Suc.IH [OF left] unfolding eq .
  qed
qed

lemma sl_random_loop_ends:
  assumes "1 \<le> unat (sl_randoms_left sl)" "zero_pair (sl_random sl m)" "15 * (m + 1) \<le> n"
  shows "\<exists>sl'. sl_random_loop (unat (sl_randoms_left sl) + n) sl level = Ret (level + 1, sl')"
  using assms
proof (induction m arbitrary: sl n)
  case 0
  let ?t = "sl\<lparr>sl_random_bits := sl_random sl 0, sl_randoms_left := word_of_int (SL_BITS_IN_RANDOM div 2), sl_random := (\<lambda>n. sl_random sl (Suc n))\<rparr>"
  obtain L where L: "unat (sl_randoms_left sl) = Suc L" using 0(1) by (cases "unat (sl_randoms_left sl)") auto
  have t: "unat (sl_randoms_left ?t) = Suc 14" by (simp add: left_reload)
  obtain n' where n': "n = Suc 14 + n'" using 0(3) by (auto simp: le_iff_add)
  have "\<exists>k < Suc 14. drop_bit (2 * k) (sl_random_bits ?t) AND 3 = 0" using 0(2) by (simp add: zero_pair_def)
  then have "\<exists>sl'. sl_random_loop n ?t level = Ret (level + 1, sl')" using sl_random_phase [OF t, of n' level] by (simp add: n')
  then show ?case using sl_random_phase [OF L, of n level] by (metis L)
next
  case (Suc m)
  let ?t = "sl\<lparr>sl_random_bits := sl_random sl 0, sl_randoms_left := word_of_int (SL_BITS_IN_RANDOM div 2), sl_random := (\<lambda>n. sl_random sl (Suc n))\<rparr>"
  obtain L where L: "unat (sl_randoms_left sl) = Suc L" using Suc.prems(1) by (cases "unat (sl_randoms_left sl)") auto
  have t: "unat (sl_randoms_left ?t) = 15" by (simp add: left_reload)
  obtain n' where n': "n = 15 + n'" "15 * (m + 1) \<le> n'" using Suc.prems(3) by (auto simp: le_iff_add)
  have "\<exists>sl'. sl_random_loop (unat (sl_randoms_left ?t) + n') ?t level = Ret (level + 1, sl')"
    using t n'(2) Suc.prems(2) by (intro Suc.IH) simp_all
  then have "\<exists>sl'. sl_random_loop n ?t level = Ret (level + 1, sl')" unfolding t n'(1) .
  then show ?case using sl_random_phase [OF L, of n level] by (metis L)
qed

definition sl_fuel :: "nat \<Rightarrow> nat" where "sl_fuel B = 15 * (B + 1)"

lemma sl_random_level_ok:
  assumes "sl_rnd B sl" "sl_fuel B \<le> fuel"
  shows "\<exists>sl'. sl_random_level fuel sl = Ret (1, sl') \<and> sl_mem sl' = sl_mem sl \<and> sl_head sl' = sl_head sl \<and>
    sl_level sl' = sl_level sl \<and> sl_rnd B sl'"
proof -
  have left: "1 \<le> unat (sl_randoms_left sl)" "unat (sl_randoms_left sl) \<le> 15" "good_source B (sl_random sl)"
    using assms(1) by (simp_all add: sl_rnd_def)
  obtain m where "m < B" "zero_pair (sl_random sl (0 + m))" using left(3) unfolding good_source_def by blast
  then have m: "m < B" "zero_pair (sl_random sl m)" by simp_all
  have "15 * (m + 1) \<le> fuel - unat (sl_randoms_left sl)" using m(1) left(2) assms(2) by (simp add: sl_fuel_def)
  then obtain sl' where sl': "sl_random_loop fuel sl 0 = Ret (1, sl')"
    using sl_random_loop_ends [OF left(1) m(2), of "fuel - unat (sl_randoms_left sl)" 0] left(2) assms(2) by (auto simp: sl_fuel_def)
  then show ?thesis
    using sl_random_loop_level [OF sl'] sl_random_loop_rnd [OF sl' assms(1)] by (simp add: sl_random_level_def SL_MAX_LEVEL_def)
qed

section \<open>Insertion\<close>

definition al_ins :: "'k :: linorder \<Rightarrow> 'd \<Rightarrow> ('k \<times> 'd) list \<Rightarrow> ('k \<times> 'd) list" where
  "al_ins k d xs = takeWhile (\<lambda>e. fst e < k) xs @ (k, d) # dropWhile (\<lambda>e. fst e < k) xs"

fun al_rem :: "'k \<Rightarrow> ('k \<times> 'd) list \<Rightarrow> ('k \<times> 'd) list" where
  "al_rem k [] = []"
| "al_rem k (e # es) = (if fst e = k then es else e # al_rem k es)"

lemma sl_rep_cong:
  assumes "sl_mem s = sl_mem t" "sl_head s = sl_head t" "sl_level s = sl_level t"
  shows "sl_rep s ns = sl_rep t ns" "sl_entries s ns = sl_entries t ns" "before s ns key i = before t ns key i"
  using assms by (simp_all add: sl_rep_def sl_entries_def before_def sl_alive_def sl_node_def sl_get_forw_def)

lemma sl_same_facts:
  assumes "sl_same sl sl'"
  shows "sl_alive sl' a = sl_alive sl a" "nkey sl' a = nkey sl a" "ndata sl' a = ndata sl a" "slots sl' a = slots sl a"
    "sl_head sl' = sl_head sl" "sl_level sl' = sl_level sl" "length (sl_mem sl') = length (sl_mem sl)"
  using assms by (simp_all add: sl_same_def)

lemma sl_same_rnd: "sl_same sl sl' \<Longrightarrow> sl_rnd B sl' = sl_rnd B sl"
  by (simp add: sl_same_def sl_rnd_def)

lemma sint_of_small: "- 1 \<le> n \<Longrightarrow> n \<le> 15 \<Longrightarrow> sint (word_of_int n :: 32 word) = n"
  by (subst sint_sbintrunc') (simp add: signed_take_bit_int_eq_self)

lemma levels_of: "- 1 \<le> n \<Longrightarrow> n \<le> 15 \<Longrightarrow> levels (word_of_int n) = nat (n + 1)"
  by (simp only: levels_def sint_of_small)

text \<open>A higher level changes nothing, and neither does a new node to which nothing points.\<close>

lemma sl_rep_raise:
  assumes "sl_rep sl ns" "0 \<le> n" "n \<le> 15" "levels (sl_level sl) \<le> nat (n + 1)"
  shows "sl_rep (sl\<lparr>sl_level := word_of_int n\<rparr>) ns"
proof -
  let ?s = "sl\<lparr>sl_level := word_of_int n\<rparr>"
  have "levels (sl_level ?s) = nat (n + 1)" "sint (sl_level ?s) = n"
    using assms(2,3) levels_of [of n] sint_of_small [of n] by simp_all
  moreover have "sl_alive ?s a = sl_alive sl a" "sl_node ?s a = sl_node sl a" "sl_get_forw ?s a i = sl_get_forw sl a i" for a i
    by (simp_all add: sl_alive_def sl_node_def sl_get_forw_def)
  ultimately show ?thesis
    using assms unfolding sl_rep_def by (auto simp: SL_MAX_LEVELS_def intro: order_trans)
qed

lemma sl_new_node_ok:
  assumes "sl_rep sl ns" "sl_new_node True l key data sl = Some (p, s)"
  shows "sl_rep s ns" "p \<notin> set (sl_head sl # ns)" "sl_alive s p" "slots s p = l + 1" "nkey s p = key" "ndata s p = data"
    "sl_head s = sl_head sl" "sl_level s = sl_level sl" "sl_entries s ns = sl_entries sl ns"
    "\<And>k i. before s ns k i = before sl ns k i" "\<And>a. a \<in> set ns \<Longrightarrow> nkey s a = nkey sl a" "sl_rnd B s = sl_rnd B sl"
proof -
  let ?new = "\<lparr>sln_data = data, sln_key = key, sln_forw = arr_alloc (l + 1)\<rparr>"
  have p: "p = length (sl_mem sl)" and s: "s = sl\<lparr>sl_mem := sl_mem sl @ [Some ?new]\<rparr>"
    using assms(2) by (simp_all add: sl_new_node_def)
  show "sl_alive s p" "slots s p = l + 1" "nkey s p = key" "ndata s p = data" "sl_head s = sl_head sl" "sl_level s = sl_level sl"
    "sl_rnd B s = sl_rnd B sl"
    by (simp_all add: p s sl_alive_def sl_node_def sl_rnd_def)
  have alive: "a < length (sl_mem sl)" if "a \<in> set (sl_head sl # ns)" for a
    using assms(1) that by (auto simp: sl_rep_def sl_alive_def)
  then show "p \<notin> set (sl_head sl # ns)" using p by auto
  have old: "sl_alive s a = sl_alive sl a" "sl_node s a = sl_node sl a" "\<And>i. sl_get_forw s a i = sl_get_forw sl a i"
    if "a < length (sl_mem sl)" for a
    using that by (simp_all add: s sl_alive_def sl_node_def sl_get_forw_def arr_get_def nth_append)
  have node: "sl_node s a = sl_node sl a" if "a \<in> set (sl_head sl # ns)" for a using old(2) alive that by blast
  then show "\<And>a. a \<in> set ns \<Longrightarrow> nkey s a = nkey sl a" by simp
  show "sl_entries s ns = sl_entries sl ns" using node by (simp add: sl_entries_def)
  have filters: "filter (\<lambda>a. i < slots s a) ns = filter (\<lambda>a. i < slots sl a) ns" for i
    using node by (intro filter_cong) simp_all
  have "filter (\<lambda>a. i < slots s a) (filter (\<lambda>a. nkey s a < k) ns) = filter (\<lambda>a. i < slots sl a) (filter (\<lambda>a. nkey sl a < k) ns)" for i k
    using node by (simp cong: filter_cong)
  then show "\<And>k i. before s ns k i = before sl ns k i" by (simp add: before_def s)
  have path: "sl_path (\<lambda>a. sl_get_forw s a i) (sl_head sl) (filter (\<lambda>a. i < slots sl a) ns)" if "i < SL_MAX_LEVELS" for i
  proof -
    have "sl_path (\<lambda>a. sl_get_forw s a i) (sl_head sl) (filter (\<lambda>a. i < slots sl a) ns) =
        sl_path (\<lambda>a. sl_get_forw sl a i) (sl_head sl) (filter (\<lambda>a. i < slots sl a) ns)"
      using old(3) alive by (intro sl_path_cong) auto
    then show ?thesis using sl_rep_path [OF assms(1) that] by simp
  qed
  have hd: "sl_head s = sl_head sl" "sl_level s = sl_level sl" by (simp_all add: s)
  have keys: "map (nkey s) ns = map (nkey sl) ns" using node by simp
  show "sl_rep s ns"
    using assms(1) path node old(1) alive unfolding sl_rep_def hd filters keys by simp
qed

lemma sl_update_fill_ok:
  assumes "i + n \<le> length update"
  shows "\<exists>u. sl_update_fill update p i n = Ret u \<and> length u = length update \<and>
    (\<forall>j. u ! j = (if i \<le> j \<and> j < i + n then Some p else update ! j))"
  using assms
proof (induction n arbitrary: i update)
  case (Suc n)
  have "\<exists>u. sl_update_fill (update[i := Some p]) p (Suc i) n = Ret u \<and> length u = length (update[i := Some p]) \<and>
      (\<forall>j. u ! j = (if Suc i \<le> j \<and> j < Suc i + n then Some p else update[i := Some p] ! j))"
    using Suc.prems by (intro Suc.IH) simp
  then show ?case using Suc.prems by (auto simp: arr_set_def nth_list_update)
qed auto

lemma sl_rep_split:
  "sl_rep s ns \<Longrightarrow> ns = filter (\<lambda>a. nkey s a < key) ns @ filter (\<lambda>a. key \<le> nkey s a) ns"
  by (intro sorted_split sl_rep_sorted)

text \<open>The new node linked in on its levels, and the list of nodes with it in its place.\<close>

definition placed :: "'a skip_list \<Rightarrow> nat list \<Rightarrow> 32 word \<Rightarrow> nat \<Rightarrow> nat list" where
  "placed s ns key p = filter (\<lambda>a. nkey s a < key) ns @ p # filter (\<lambda>a. key \<le> nkey s a) ns"

lemma set_placed: "sl_rep s ns \<Longrightarrow> set (placed s ns key p) = insert p (set ns)"
  by (auto simp: placed_def)

lemma entries_placed:
  assumes "sl_rep s ns" "nkey s p = key"
  shows "sl_entries s (placed s ns key p) = al_ins key (ndata s p) (sl_entries s ns)"
proof -
  have "takeWhile (\<lambda>e. fst e < key) (sl_entries s ns) = sl_entries s (filter (\<lambda>a. nkey s a < key) ns)"
    "dropWhile (\<lambda>e. fst e < key) (sl_entries s ns) = sl_entries s (filter (\<lambda>a. key \<le> nkey s a) ns)"
    using sl_rep_sorted [OF assms(1)]
    by (simp_all add: sl_entries_def takeWhile_map dropWhile_map comp_def sorted_takeWhile_less sorted_dropWhile_less)
  then show ?thesis using assms(2) by (simp add: al_ins_def placed_def sl_entries_def)
qed

lemma sl_link_placed:
  assumes rep: "sl_rep s ns" and p: "p \<notin> set (sl_head s # ns)" "sl_alive s p" "slots s p = l + 1" "nkey s p = key"
    and l: "l + 1 \<le> levels (sl_level s)"
    and update: "length update = SL_MAX_LEVELS" "\<And>j. j < l + 1 \<Longrightarrow> update ! j = Some (before s ns key j)"
  shows "\<exists>s'. sl_link p update s 0 (l + 1) = Ret s' \<and> sl_same s s' \<and> sl_rep s' (placed s ns key p)"
proof -
  have lmax: "l + 1 \<le> SL_MAX_LEVELS" using l sl_rep_levels [OF rep] by simp
  have "\<exists>s'. sl_link p update s 0 (l + 1) = Ret s' \<and> sl_same s s' \<and>
    (\<forall>j. (\<lambda>a. sl_get_forw s' a j) =
      (if 0 \<le> j \<and> j < 0 + (l + 1) then (\<lambda>a. sl_get_forw s a j)(p := sl_get_forw s (before s ns key j) j, before s ns key j := Ret (SL_NODE p))
       else (\<lambda>a. sl_get_forw s a j)))"
  proof (rule sl_link_ok)
    fix j assume j: "0 \<le> j" "j < 0 + (l + 1)"
    then have jm: "j < SL_MAX_LEVELS" using lmax by simp
    have "before s ns key j \<noteq> p" using before_in [of s ns key j] p(1) by auto
    then show "arr_get update j = Ret (before s ns key j) \<and> before s ns key j \<noteq> p \<and> sl_alive s (before s ns key j) \<and>
        j < slots s (before s ns key j) \<and> j < slots s p \<and> (\<exists>q. sl_get_forw s (before s ns key j) j = Ret q)"
      using before_ok [OF rep jm] update j jm p(3) by (simp add: arr_get_def)
  qed (rule p(2))
  then obtain s' where s': "sl_link p update s 0 (l + 1) = Ret s'" "sl_same s s'"
    "\<And>j. (\<lambda>a. sl_get_forw s' a j) =
      (if j < l + 1 then (\<lambda>a. sl_get_forw s a j)(p := sl_get_forw s (before s ns key j) j, before s ns key j := Ret (SL_NODE p))
       else (\<lambda>a. sl_get_forw s a j))"
    by auto
  note same = sl_same_facts [OF s'(2)]
  let ?L = "filter (\<lambda>a. nkey s a < key) ns" and ?R = "filter (\<lambda>a. key \<le> nkey s a) ns"
  have dist: "distinct (sl_head s # ns)" using rep by (simp add: sl_rep_def)
  have path: "sl_path (\<lambda>a. sl_get_forw s' a i) (sl_head s) (filter (\<lambda>a. i < slots s a) (placed s ns key p))" if i: "i < SL_MAX_LEVELS" for i
  proof -
    let ?f = "filter (\<lambda>a. i < slots s a)"
    have old: "sl_path (\<lambda>a. sl_get_forw s a i) (sl_head s) (?f ?L @ ?f ?R)"
      using sl_rep_path [OF rep i] by (subst (asm) sl_rep_split [OF rep, of key]) (simp only: filter_append)
    show ?thesis
    proof (cases "i < l + 1")
      case True
      have "distinct (sl_head s # ?f ?L @ ?f ?R)" using dist by (auto simp: not_le)
      moreover have "p \<notin> set (sl_head s # ?f ?L @ ?f ?R)" using p(1) by auto
      ultimately show ?thesis
        using sl_path_splice_in [OF old, of p] True p(3) unfolding s'(3) before_def placed_def by simp
    next
      case False
      then show ?thesis using old p(3) unfolding s'(3) placed_def by simp
    qed
  qed
  have "sorted (map (nkey s) (placed s ns key p))"
    using sl_rep_sorted [OF rep] p(4) by (auto simp: placed_def sorted_append sorted_map_filter intro: less_imp_le order.strict_trans2)
  moreover have "distinct (placed s ns key p)" using dist p(1) by (auto simp: placed_def not_le)
  ultimately have "sl_rep s' (placed s ns key p)"
    using rep p l path by (simp add: sl_rep_def same set_placed [OF rep])
  then show ?thesis using s'(1,2) by blast
qed

lemma sl_ins_ok:
  assumes rep: "sl_rep sl ns" and rnd: "sl_rnd B sl" and fuel: "sl_fuel B \<le> fuel"
  shows "\<exists>sl' ns'. sl_ins fuel True ee sl key data = Ret (True, sl') \<and> sl_rep sl' ns' \<and> sl_rnd B sl' \<and>
    sl_entries sl' ns' = al_ins key data (sl_entries sl ns)"
proof -
  let ?n = "levels (sl_level sl)"
  obtain u where u: "sl_descend_update sl key (sl_head sl) (arr_alloc SL_MAX_LEVELS) ?n = Ret (before sl ns key 0, u)"
    "length u = SL_MAX_LEVELS" "\<And>i. i < ?n \<Longrightarrow> u ! i = Some (before sl ns key i)"
    using sl_descend_update_ok [OF rep sl_rep_levels [OF rep], of "arr_alloc SL_MAX_LEVELS" key] before_top [OF rep order_refl, of key]
    by auto
  obtain s1 where s1: "sl_random_level fuel sl = Ret (1, s1)" "sl_mem s1 = sl_mem sl" "sl_head s1 = sl_head sl"
    "sl_level s1 = sl_level sl" "sl_rnd B s1"
    using sl_random_level_ok [OF rnd fuel] by blast
  have rep1: "sl_rep s1 ns" using rep sl_rep_cong(1) [OF s1(2-4)] by simp
  have before1: "before s1 ns key i = before sl ns key i" for i by (rule sl_rep_cong(3) [OF s1(2-4)])
  have lev: "sint (sl_level sl) = int ?n - 1" using rep by (simp add: sl_rep_def)
  obtain u2 s2 where s2: "(if 1 > sint (sl_level sl)
      then bindO (sl_update_fill u (sl_head s1) (nat (sint (sl_level sl) + 1)) (nat (1 - sint (sl_level sl))))
        (\<lambda>update. Ret (update, s1\<lparr>sl_level := word_of_int 1\<rparr>))
      else Ret (u, s1)) = Ret (u2, s2)" "length u2 = SL_MAX_LEVELS"
    "\<And>j. j < 2 \<Longrightarrow> u2 ! j = Some (before sl ns key j)" "sl_rep s2 ns" "2 \<le> levels (sl_level s2)" "sl_mem s2 = sl_mem sl"
    "sl_head s2 = sl_head sl" "sl_rnd B s2"
  proof (cases "1 > sint (sl_level sl)")
    case True
    have small: "?n + nat (1 - sint (sl_level sl)) = 2" using True lev by simp
    obtain u2 where u2: "sl_update_fill u (sl_head sl) ?n (nat (1 - sint (sl_level sl))) = Ret u2" "length u2 = length u"
      "\<And>j. u2 ! j = (if ?n \<le> j \<and> j < ?n + nat (1 - sint (sl_level sl)) then Some (sl_head sl) else u ! j)"
      using sl_update_fill_ok [of ?n "nat (1 - sint (sl_level sl))" u "sl_head sl"] small u(2) by (auto simp: SL_MAX_LEVELS_def)
    have "u2 ! j = Some (before sl ns key j)" if "j < 2" for j
      using u2(3) [of j] u(3) [of j] before_top [OF rep, of j key] that small by (cases "j < ?n") simp_all
    moreover have "sl_rep (s1\<lparr>sl_level := word_of_int 1\<rparr>) ns"
      using small by (intro sl_rep_raise [OF rep1]) (simp_all add: s1(4))
    moreover have "levels (word_of_int 1 :: 32 word) = 2" using levels_of [of 1] by simp
    moreover have "nat (sint (sl_level sl) + 1) = ?n" using lev by simp
    ultimately show ?thesis
      using that [of u2 "s1\<lparr>sl_level := word_of_int 1\<rparr>"] True u2(1,2) u(2) s1 by (simp add: sl_rnd_def)
  next
    case False
    then have "2 \<le> ?n" using lev by simp
    then show ?thesis using that [of u s1] False u(2,3) s1 rep1 by simp
  qed
  have eq2: "sl_entries s2 ns = sl_entries sl ns" "before s2 ns key j = before sl ns key j" for j
    using s2(6,7) by (simp_all add: sl_entries_def before_def sl_node_def)
  obtain p s3 where s3: "sl_new_node True 1 key data s2 = Some (p, s3)" by (simp add: sl_new_node_def)
  note new = sl_new_node_ok [OF s2(4) s3]
  have "\<exists>s'. sl_link p u2 s3 0 (1 + 1) = Ret s' \<and> sl_same s3 s' \<and> sl_rep s' (placed s3 ns key p)"
    using new(1-5) s2(2,3,5) by (intro sl_link_placed) (simp_all add: new(7,8,10) eq2(2))
  then obtain s' where s': "sl_link p u2 s3 0 2 = Ret s'" "sl_same s3 s'" "sl_rep s' (placed s3 ns key p)"
    by (auto simp: numeral_2_eq_2)
  have "sl_entries s' (placed s3 ns key p) = sl_entries s3 (placed s3 ns key p)"
    by (simp add: sl_entries_def sl_same_facts [OF s'(2)])
  also have "\<dots> = al_ins key data (sl_entries sl ns)"
    using entries_placed [OF new(1,5)] new(6,9) eq2(1) by simp
  finally have entries: "sl_entries s' (placed s3 ns key p) = al_ins key data (sl_entries sl ns)" .
  have "sl_ins fuel True ee sl key data = Ret (True, s')"
    unfolding sl_ins_def Let_def u(1) bindO.simps prod.case s1(1) s2(1)
    using s3 s'(1) by simp
  moreover have "sl_rnd B s'" using s2(8) new(12) sl_same_rnd [OF s'(2)] by simp
  ultimately show ?thesis using s'(3) entries by blast
qed

section \<open>Removal\<close>

lemma al_rem_skip: "(\<And>e. e \<in> set xs \<Longrightarrow> fst e \<noteq> k) \<Longrightarrow> al_rem k (xs @ (k, d) # ys) = xs @ ys"
  by (induction xs) auto

lemma before_at:
  assumes "sl_rep sl ns" "filter (\<lambda>a. key \<le> nkey sl a) ns = p # R" "i < SL_MAX_LEVELS"
  shows "\<exists>q. sl_get_forw sl (before sl ns key i) i = Ret q \<and> (q = SL_NODE p \<longleftrightarrow> i < slots sl p)"
proof -
  have path: "sl_path (\<lambda>a. sl_get_forw sl a i) (before sl ns key i) (filter (\<lambda>a. i < slots sl a) (p # R))"
    using before_path [OF assms(1,3), of key] assms(2) by simp
  show ?thesis
  proof (cases "i < slots sl p")
    case False
    have "distinct (p # R)" using assms(1,2) by (metis distinct.simps(2) distinct_filter sl_rep_def)
    then have "p \<notin> set (filter (\<lambda>a. i < slots sl a) R)" by simp
    then show ?thesis using path False by (cases "filter (\<lambda>a. i < slots sl a) R") auto
  qed (use path in simp)
qed

text \<open>The cell of a node to which no path leads any more is freed, and the level is lowered.\<close>

lemma sl_drop_cell:
  assumes alive: "\<And>a. a \<in> set (sl_head s # ns) \<Longrightarrow> sl_alive s a" and p: "p \<notin> set (sl_head s # ns)"
    and dist: "distinct (sl_head s # ns)" and sorted: "sorted (map (nkey s) ns)"
    and head: "slots s (sl_head s) = SL_MAX_LEVELS + 1" "ndata s (sl_head s) = None"
    and slots: "\<And>a. a \<in> set ns \<Longrightarrow> 1 \<le> slots s a \<and> slots s a \<le> n" and n: "n \<le> SL_MAX_LEVELS"
    and path: "\<And>i. i < SL_MAX_LEVELS \<Longrightarrow> sl_path (\<lambda>a. sl_get_forw s a i) (sl_head s) (filter (\<lambda>a. i < slots s a) ns)"
  defines "t \<equiv> s\<lparr>sl_mem := (sl_mem s)[p := None]\<rparr>"
  shows "\<exists>m. sl_lower t n = Ret m \<and> sl_rep (t\<lparr>sl_level := word_of_int (int m - 1)\<rparr>) ns \<and>
    sl_entries (t\<lparr>sl_level := word_of_int (int m - 1)\<rparr>) ns = sl_entries s ns \<and> sl_rnd B t = sl_rnd B s"
proof -
  have same: "sl_alive t a = sl_alive s a" "sl_node t a = sl_node s a" "\<And>i. sl_get_forw t a i = sl_get_forw s a i" if "a \<noteq> p" for a
    using that by (simp_all add: t_def sl_alive_def sl_node_def sl_get_forw_def arr_get_def)
  have ne: "a \<noteq> p" if "a \<in> set (sl_head s # ns)" for a using that p by blast
  have head_t: "sl_head t = sl_head s" by (simp add: t_def)
  have path_t: "sl_path (\<lambda>a. sl_get_forw t a i) (sl_head s) (filter (\<lambda>a. i < slots s a) ns)" if "i < SL_MAX_LEVELS" for i
  proof -
    have "sl_path (\<lambda>a. sl_get_forw t a i) (sl_head s) (filter (\<lambda>a. i < slots s a) ns) =
        sl_path (\<lambda>a. sl_get_forw s a i) (sl_head s) (filter (\<lambda>a. i < slots s a) ns)"
      using same(3) ne by (intro sl_path_cong) auto
    then show ?thesis using path [OF that] by simp
  qed
  have "\<exists>m \<le> n. sl_lower t n = Ret m \<and> (\<forall>i. m \<le> i \<and> i < n \<longrightarrow> sl_get_forw t (sl_head t) i = Ret SL_NIL)"
    using sl_path_start [OF path_t] n by (intro sl_lower_ok) (simp add: head_t)
  then obtain m where m: "m \<le> n" "sl_lower t n = Ret m" "\<And>i. m \<le> i \<Longrightarrow> i < n \<Longrightarrow> sl_get_forw t (sl_head s) i = Ret SL_NIL"
    by (auto simp: head_t)
  let ?r = "t\<lparr>sl_level := word_of_int (int m - 1)\<rparr>"
  have low: "slots s a \<le> m" if "a \<in> set ns" for a
  proof (rule ccontr)
    assume "\<not> slots s a \<le> m"
    then have mn: "m < n" "a \<in> set (filter (\<lambda>a. m < slots s a) ns)" using slots [OF that] that by auto
    then show False
      using path_t [of m] m(3) [of m] n by (cases "filter (\<lambda>a. m < slots s a) ns") auto
  qed
  have lev: "levels (sl_level ?r) = m" "sint (sl_level ?r) = int m - 1"
    using levels_of [of "int m - 1"] sint_of_small [of "int m - 1"] m(1) n by (simp_all add: SL_MAX_LEVELS_def)
  have r: "sl_alive ?r a = sl_alive t a" "sl_node ?r a = sl_node t a" "sl_get_forw ?r a i = sl_get_forw t a i" for a i
    by (simp_all add: sl_alive_def sl_node_def sl_get_forw_def)
  have node: "sl_node ?r a = sl_node s a" "sl_alive ?r a = sl_alive s a" if "a \<in> set (sl_head s # ns)" for a
    using same(1,2) [of a] r(1,2) [of a] ne [OF that] by simp_all
  have filters: "filter (\<lambda>a. i < slots ?r a) ns = filter (\<lambda>a. i < slots s a) ns" for i
    using node by (intro filter_cong) simp_all
  have keys: "map (nkey ?r) ns = map (nkey s) ns" using node by simp
  have head_r: "sl_head ?r = sl_head s" by (simp add: t_def)
  have "sl_rep ?r ns"
    unfolding sl_rep_def head_r filters keys r(3) lev
    using alive dist sorted head slots low m(1) n path_t node by simp
  moreover have "sl_entries ?r ns = sl_entries s ns" using node by (simp add: sl_entries_def)
  moreover have "sl_rnd B t = sl_rnd B s" by (simp add: t_def sl_rnd_def)
  ultimately show ?thesis using m(2) by blast
qed

text \<open>The node \<open>p\<close>, the first with a key that is not smaller, and the nodes around it.\<close>

lemma around:
  assumes "sl_rep sl ns" "filter (\<lambda>a. key \<le> nkey sl a) ns = p # R"
  defines "L \<equiv> filter (\<lambda>a. nkey sl a < key) ns"
  shows "ns = L @ p # R" "distinct (sl_head sl # L @ p # R)" "sl_alive sl p" "1 \<le> slots sl p"
    "slots sl p \<le> levels (sl_level sl)" "before sl ns key j \<noteq> p"
proof -
  have "p \<in> set (filter (\<lambda>a. key \<le> nkey sl a) ns)" using assms(2) by simp
  then show "sl_alive sl p" "1 \<le> slots sl p" "slots sl p \<le> levels (sl_level sl)" using assms(1) by (auto simp: sl_rep_def)
  show ns: "ns = L @ p # R" using sl_rep_split [OF assms(1), of key] assms(2) by (simp add: L_def)
  then show dist: "distinct (sl_head sl # L @ p # R)" using assms(1) by (simp add: sl_rep_def)
  have "before sl ns key j \<in> set (sl_head sl # L)"
    unfolding before_def L_def using last_in_set [of "sl_head sl # filter (\<lambda>a. j < slots sl a) (filter (\<lambda>a. nkey sl a < key) ns)"] by auto
  then show "before sl ns key j \<noteq> p" using dist by auto
qed

lemma level_split:
  assumes "sl_rep sl ns" "ns = L @ p # R" "i < SL_MAX_LEVELS"
  shows "sl_path (\<lambda>a. sl_get_forw sl a i) (sl_head sl) (filter (\<lambda>a. i < slots sl a) L @ filter (\<lambda>a. i < slots sl a) (p # R))"
  using sl_rep_path [OF assms(1,3)] unfolding assms(2) by (simp only: filter_append)

lemma path_from_node:
  assumes "sl_rep sl ns" "ns = L @ p # R" "j < slots sl p" "j < SL_MAX_LEVELS"
  shows "\<exists>q. sl_get_forw sl p j = Ret q"
proof -
  have "sl_path (\<lambda>a. sl_get_forw sl a j) (sl_head sl) ((filter (\<lambda>a. j < slots sl a) L @ [p]) @ filter (\<lambda>a. j < slots sl a) R)"
    using level_split [OF assms(1,2,4)] assms(3) by simp
  then show ?thesis using sl_path_suffix sl_path_start by fastforce
qed

lemma sl_unlink_removed:
  assumes rep: "sl_rep sl ns" and Cons: "filter (\<lambda>a. key \<le> nkey sl a) ns = p # R"
    and u: "length u = SL_MAX_LEVELS" "\<And>i. i < levels (sl_level sl) \<Longrightarrow> u ! i = Some (before sl ns key i)"
  defines "L \<equiv> filter (\<lambda>a. nkey sl a < key) ns"
  shows "\<exists>s. sl_unlink p u sl 0 (levels (sl_level sl)) = Ret s \<and> sl_same sl s \<and>
    (\<forall>i < SL_MAX_LEVELS. sl_path (\<lambda>a. sl_get_forw s a i) (sl_head sl) (filter (\<lambda>a. i < slots sl a) (L @ R)))"
proof -
  let ?n = "levels (sl_level sl)"
  note p = around [OF rep Cons, folded L_def]
  have nmax: "?n \<le> SL_MAX_LEVELS" by (rule sl_rep_levels [OF rep])
  have "\<exists>s. sl_unlink p u sl 0 ?n = Ret s \<and> sl_same sl s \<and> (\<forall>j. (\<lambda>a. sl_get_forw s a j) =
      (if 0 \<le> j \<and> j < slots sl p then (\<lambda>a. sl_get_forw sl a j)(before sl ns key j := sl_get_forw sl p j) else (\<lambda>a. sl_get_forw sl a j)))"
  proof (rule sl_unlink_ok)
    fix j assume j: "0 \<le> j" "j < slots sl p"
    then have jn: "j < ?n" "j < SL_MAX_LEVELS" using p(5) nmax by simp_all
    show "arr_get u j = Ret (before sl ns key j) \<and> before sl ns key j \<noteq> p \<and> sl_alive sl (before sl ns key j) \<and>
        j < slots sl (before sl ns key j) \<and> sl_get_forw sl (before sl ns key j) j = Ret (SL_NODE p) \<and> (\<exists>q. sl_get_forw sl p j = Ret q)"
      using u jn p(6) before_ok [OF rep jn(2), of key] before_at [OF rep Cons jn(2)] j path_from_node [OF rep p(1) j(2) jn(2)]
      by (auto simp: arr_get_def)
  next
    assume "slots sl p < 0 + ?n"
    then have jn: "slots sl p < ?n" "slots sl p < SL_MAX_LEVELS" using nmax by simp_all
    show "arr_get u (slots sl p) = Ret (before sl ns key (slots sl p)) \<and>
        (\<exists>q. sl_get_forw sl (before sl ns key (slots sl p)) (slots sl p) = Ret q \<and> q \<noteq> SL_NODE p)"
      using u jn before_at [OF rep Cons jn(2)] by (auto simp: arr_get_def)
  qed (use p(5) in simp_all)
  then obtain s where s: "sl_unlink p u sl 0 ?n = Ret s" "sl_same sl s" "\<And>j. (\<lambda>a. sl_get_forw s a j) =
      (if j < slots sl p then (\<lambda>a. sl_get_forw sl a j)(before sl ns key j := sl_get_forw sl p j) else (\<lambda>a. sl_get_forw sl a j))"
    by auto
  have "sl_path (\<lambda>a. sl_get_forw s a i) (sl_head sl) (filter (\<lambda>a. i < slots sl a) (L @ R))" if i: "i < SL_MAX_LEVELS" for i
  proof -
    let ?f = "filter (\<lambda>a. i < slots sl a)"
    note old = level_split [OF rep p(1) i]
    show ?thesis
    proof (cases "i < slots sl p")
      case True
      then have "sl_path (\<lambda>a. sl_get_forw sl a i) (sl_head sl) (?f L @ p # ?f R)" using old by simp
      moreover have "distinct (sl_head sl # ?f L @ p # ?f R)" using p(2) by auto
      ultimately show ?thesis
        using sl_path_splice_out [of "\<lambda>a. sl_get_forw sl a i" "sl_head sl" "?f L" p "?f R"] True
        unfolding s(3) before_def L_def by simp
    next
      case False
      then show ?thesis using old unfolding s(3) by simp
    qed
  qed
  then show ?thesis using s(1,2) by blast
qed

lemma sl_rem_found:
  assumes rep: "sl_rep sl ns" and rnd: "sl_rnd B sl" and Cons: "filter (\<lambda>a. key \<le> nkey sl a) ns = p # R"
    and key: "nkey sl p = key"
  shows "\<exists>sl' ns'. sl_rem sl key = Ret (ndata sl p, sl') \<and> sl_rep sl' ns' \<and> sl_rnd B sl' \<and>
    sl_entries sl' ns' = al_rem key (sl_entries sl ns)"
proof -
  let ?n = "levels (sl_level sl)" and ?L = "filter (\<lambda>a. nkey sl a < key) ns"
  note p = around [OF rep Cons]
  obtain u where u: "sl_descend_update sl key (sl_head sl) (arr_alloc SL_MAX_LEVELS) ?n = Ret (before sl ns key 0, u)"
    "length u = SL_MAX_LEVELS" "\<And>i. i < ?n \<Longrightarrow> u ! i = Some (before sl ns key i)"
    using sl_descend_update_ok [OF rep sl_rep_levels [OF rep], of "arr_alloc SL_MAX_LEVELS" key] before_top [OF rep order_refl, of key]
    by auto
  have next_p: "sl_get_forw sl (before sl ns key 0) 0 = Ret (SL_NODE p)" using before_next [OF rep, of key] Cons by simp
  obtain s where s: "sl_unlink p u sl 0 ?n = Ret s" "sl_same sl s"
    "\<And>i. i < SL_MAX_LEVELS \<Longrightarrow> sl_path (\<lambda>a. sl_get_forw s a i) (sl_head sl) (filter (\<lambda>a. i < slots sl a) (?L @ R))"
    using sl_unlink_removed [OF rep Cons u(2,3)] by blast
  note same = sl_same_facts [OF s(2)]
  let ?t = "s\<lparr>sl_mem := (sl_mem s)[p := None]\<rparr>"
  have sub: "set (?L @ R) \<subseteq> set ns" using arg_cong [OF p(1), of set] by auto
  have "sorted (map (nkey sl) (?L @ p # R))" using sl_rep_sorted [OF rep] p(1) by simp
  then have sorted: "sorted (map (nkey sl) (?L @ R))" by (auto simp: sorted_append)
  have "\<exists>m. sl_lower ?t ?n = Ret m \<and> sl_rep (?t\<lparr>sl_level := word_of_int (int m - 1)\<rparr>) (?L @ R) \<and>
      sl_entries (?t\<lparr>sl_level := word_of_int (int m - 1)\<rparr>) (?L @ R) = sl_entries s (?L @ R) \<and> sl_rnd B ?t = sl_rnd B s"
    using rep sub p(2) sorted s(3) sl_rep_levels [OF rep] by (intro sl_drop_cell) (auto simp: same sl_rep_def)
  then obtain m where m: "sl_lower ?t ?n = Ret m" "sl_rep (?t\<lparr>sl_level := word_of_int (int m - 1)\<rparr>) (?L @ R)"
      "sl_entries (?t\<lparr>sl_level := word_of_int (int m - 1)\<rparr>) (?L @ R) = sl_entries s (?L @ R)" "sl_rnd B ?t = sl_rnd B s" by blast
  let ?e = "\<lambda>a. (nkey sl a, ndata sl a)"
  have "sl_entries sl ns = map ?e ?L @ (key, ndata sl p) # map ?e R"
    using key by (subst p(1)) (simp add: sl_entries_def)
  moreover have "al_rem key (map ?e ?L @ (key, ndata sl p) # map ?e R) = map ?e ?L @ map ?e R" by (rule al_rem_skip) auto
  ultimately have entries: "sl_entries s (?L @ R) = al_rem key (sl_entries sl ns)"
    by (simp only: sl_entries_def same map_append)
  have alive: "sl_alive s p" "ndata s p = ndata sl p" by (simp_all add: same p(3))
  have "sl_rem sl key = Ret (ndata sl p, ?t\<lparr>sl_level := word_of_int (int m - 1)\<rparr>)"
    unfolding sl_rem_def u(1) bindO.simps prod.case next_p sl_key_of_alive [OF p(3)] key sl_ptr.case s(1)
    using m(1) by (simp add: sl_data_of_alive [OF alive(1)] alive(2) Let_def same)
  moreover have "sl_rnd B (?t\<lparr>sl_level := word_of_int (int m - 1)\<rparr>)"
    using m(4) rnd sl_same_rnd [OF s(2), of B] by (simp add: sl_rnd_def)
  ultimately show ?thesis using m(2,3) entries by auto
qed

lemma sl_rem_ok:
  assumes rep: "sl_rep sl ns" and rnd: "sl_rnd B sl" and key: "key \<noteq> 0xffffffff"
  shows "case map_of (sl_entries sl ns) key of None \<Rightarrow> sl_rem sl key = Err EOTHER
    | Some d \<Rightarrow> \<exists>sl' ns'. sl_rem sl key = Ret (d, sl') \<and> sl_rep sl' ns' \<and> sl_rnd B sl' \<and>
        sl_entries sl' ns' = al_rem key (sl_entries sl ns)"
proof -
  let ?n = "levels (sl_level sl)"
  obtain u where u: "sl_descend_update sl key (sl_head sl) (arr_alloc SL_MAX_LEVELS) ?n = Ret (before sl ns key 0, u)"
    using sl_descend_update_ok [OF rep sl_rep_levels [OF rep], of "arr_alloc SL_MAX_LEVELS" key] before_top [OF rep order_refl, of key]
    by auto
  have mo: "map_of (sl_entries sl ns) key = (case filter (\<lambda>a. key \<le> nkey sl a) ns of [] \<Rightarrow> None
      | p # _ \<Rightarrow> if nkey sl p = key then Some (ndata sl p) else None)"
    unfolding sl_entries_def by (rule map_of_sorted [OF sl_rep_sorted [OF rep]])
  show ?thesis
  proof (cases "filter (\<lambda>a. key \<le> nkey sl a) ns")
    case Nil
    then show ?thesis using before_next [OF rep, of key] u key by (simp add: mo sl_rem_def sl_key_of_NIL)
  next
    case (Cons p R)
    then have "sl_get_forw sl (before sl ns key 0) 0 = Ret (SL_NODE p)" using before_next [OF rep, of key] by simp
    then show ?thesis
      using Cons u sl_rem_found [OF rep rnd Cons] by (simp add: mo sl_rem_def sl_key_of_alive [OF around(3) [OF rep Cons]])
  qed
qed

section \<open>A new list, and the end of one\<close>

lemma sl_init_loop_ok:
  assumes "sl_alive sl (sl_head sl)" "i + n \<le> slots sl (sl_head sl)"
  shows "\<exists>sl'. sl_init_loop sl i n = Ret sl' \<and> sl_same sl sl' \<and>
    (\<forall>j. i \<le> j \<and> j < i + n \<longrightarrow> sl_get_forw sl' (sl_head sl) j = Ret SL_NIL) \<and>
    (\<forall>j < i. sl_get_forw sl' (sl_head sl) j = sl_get_forw sl (sl_head sl) j)"
  using assms
proof (induction n arbitrary: i sl)
  case 0
  then show ?case by (auto simp: sl_same_refl)
next
  case (Suc n)
  obtain s1 where s1: "sl_set_forw sl (sl_head sl) i SL_NIL = Ret s1" "sl_same sl s1"
    "\<And>a j. sl_get_forw s1 a j = (if a = sl_head sl \<and> j = i then Ret SL_NIL else sl_get_forw sl a j)"
    using sl_set_forw_ok [OF Suc.prems(1), of i SL_NIL] Suc.prems(2) by auto
  note same = sl_same_facts [OF s1(2)]
  obtain s2 where s2: "sl_init_loop s1 (Suc i) n = Ret s2" "sl_same s1 s2"
    "\<forall>j. Suc i \<le> j \<and> j < Suc i + n \<longrightarrow> sl_get_forw s2 (sl_head sl) j = Ret SL_NIL"
    "\<forall>j < Suc i. sl_get_forw s2 (sl_head sl) j = sl_get_forw s1 (sl_head sl) j"
    using Suc.IH [of s1 "Suc i"] Suc.prems same by auto
  have "sl_get_forw s2 (sl_head sl) j = Ret SL_NIL" if "i \<le> j" "j < i + Suc n" for j
    using s1(3) s2(3,4) that by (cases "j = i") simp_all
  moreover have "sl_get_forw s2 (sl_head sl) j = sl_get_forw sl (sl_head sl) j" if "j < i" for j
    using s1(3) s2(4) that by simp
  ultimately show ?case using s1(1) s2(1) sl_same_trans [OF s1(2) s2(2)] by auto
qed

lemma sl_init_ok:
  assumes "good_source B random"
  shows "\<exists>sl. sl_init True True ee random = Ret sl \<and> sl_rep sl [] \<and> sl_rnd B sl"
proof -
  let ?s0 = "\<lparr>sl_head = 0, sl_level = 0, sl_random_bits = random 0, sl_randoms_left = word_of_int (SL_BITS_IN_RANDOM div 2),
     sl_mem = [], sl_random = (\<lambda>n. random (Suc n))\<rparr> :: 'a skip_list"
  let ?s1 = "?s0\<lparr>sl_mem := [Some \<lparr>sln_data = None, sln_key = 0, sln_forw = arr_alloc (SL_MAX_LEVELS + 1)\<rparr>]\<rparr>"
  have s1: "sl_alive ?s1 (sl_head ?s1)" "slots ?s1 (sl_head ?s1) = SL_MAX_LEVELS + 1" "ndata ?s1 (sl_head ?s1) = None"
    by (simp_all add: sl_alive_def sl_node_def)
  obtain s2 where s2: "sl_init_loop ?s1 0 SL_MAX_LEVELS = Ret s2" "sl_same ?s1 s2"
    "\<forall>j. j < SL_MAX_LEVELS \<longrightarrow> sl_get_forw s2 (sl_head ?s1) j = Ret SL_NIL"
    using sl_init_loop_ok [OF s1(1), of 0 SL_MAX_LEVELS] s1(2) by auto
  note same = sl_same_facts [OF s2(2)]
  have "sl_init True True ee random = Ret s2"
    using s2(1) by (simp add: sl_init_def sl_new_node_def Let_def)
  moreover have "sl_rep s2 []"
    using s1 s2(3) by (simp add: sl_rep_def same levels_def SL_MAX_LEVELS_def)
  moreover have "sl_rnd B s2"
    using good_source_Suc [OF assms] sl_same_rnd [OF s2(2), of B] by (simp add: sl_rnd_def left_reload)
  ultimately show ?thesis by blast
qed

lemma alive_freed: "sl_alive (sl\<lparr>sl_mem := (sl_mem sl)[p := None]\<rparr>) a = (a \<noteq> p \<and> sl_alive sl a)"
  by (cases "a = p") (auto simp: sl_alive_def)

lemma sl_free_loop_ok:
  assumes "sl_path (\<lambda>a. sl_get_forw sl a 0) p as" "\<And>a. a \<in> set (p # as) \<Longrightarrow> sl_alive sl a" "distinct (p # as)" "length as < n"
  shows "\<exists>sl'. sl_free_loop n sl p = Ret (concat (map (\<lambda>a. case ndata sl a of None \<Rightarrow> [] | Some d \<Rightarrow> [d]) (p # as)), sl') \<and>
    (\<forall>a. a \<in> set (p # as) \<longrightarrow> \<not> sl_alive sl' a) \<and> (\<forall>a. a \<notin> set (p # as) \<longrightarrow> sl_alive sl' a = sl_alive sl a)"
  using assms
proof (induction as arbitrary: sl p n)
  case Nil
  obtain m where m: "n = Suc m" using Nil(4) by (cases n) auto
  show ?case using Nil by (simp add: m Let_def sl_data_of_alive alive_freed)
next
  case (Cons a as)
  obtain m where m: "n = Suc m" "length as < m" using Cons.prems(4) by (cases n) auto
  let ?s = "sl\<lparr>sl_mem := (sl_mem sl)[p := None]\<rparr>"
  have alive: "sl_alive ?s b = (b \<noteq> p \<and> sl_alive sl b)" for b by (rule alive_freed)
  have other: "sl_get_forw ?s b i = sl_get_forw sl b i" "sl_node ?s b = sl_node sl b" if "b \<noteq> p" for b i
    using that by (simp_all add: sl_get_forw_def arr_get_def sl_node_def)
  have "sl_path (\<lambda>a. sl_get_forw ?s a 0) a as = sl_path (\<lambda>a. sl_get_forw sl a 0) a as"
    using Cons.prems(3) by (intro sl_path_cong other(1)) auto
  then have "\<exists>sl'. sl_free_loop m ?s a = Ret (concat (map (\<lambda>a. case ndata ?s a of None \<Rightarrow> [] | Some d \<Rightarrow> [d]) (a # as)), sl') \<and>
    (\<forall>b. b \<in> set (a # as) \<longrightarrow> \<not> sl_alive sl' b) \<and> (\<forall>b. b \<notin> set (a # as) \<longrightarrow> sl_alive sl' b = sl_alive ?s b)"
    using Cons.prems m(2) alive by (intro Cons.IH) auto
  moreover have "map (\<lambda>a. case ndata ?s a of None \<Rightarrow> [] | Some d \<Rightarrow> [d]) (a # as) = map (\<lambda>a. case ndata sl a of None \<Rightarrow> [] | Some d \<Rightarrow> [d]) (a # as)"
    using Cons.prems(3) by (intro map_cong refl) (subst other(2), auto)
  ultimately obtain sl' where sl': "sl_free_loop m ?s a = Ret (concat (map (\<lambda>a. case ndata sl a of None \<Rightarrow> [] | Some d \<Rightarrow> [d]) (a # as)), sl')"
    "\<forall>b. b \<in> set (a # as) \<longrightarrow> \<not> sl_alive sl' b" "\<forall>b. b \<notin> set (a # as) \<longrightarrow> sl_alive sl' b = sl_alive ?s b" by metis
  have p: "sl_get_forw sl p 0 = Ret (SL_NODE a)" "sl_alive sl p" using Cons.prems by simp_all
  have "sl_free_loop n sl p = Ret (concat (map (\<lambda>a. case ndata sl a of None \<Rightarrow> [] | Some d \<Rightarrow> [d]) (p # a # as)), sl')"
    using p(1) sl'(1) by (simp add: m(1) sl_data_of_alive [OF p(2)] Let_def)
  moreover have "\<not> sl_alive sl' p" using sl'(3) alive Cons.prems(3) by simp
  moreover have "sl_alive sl' b = sl_alive sl b" if "b \<notin> set (p # a # as)" for b
    using sl'(3) alive [of b] that by simp
  ultimately show ?case using sl'(2) by auto
qed

section \<open>The contract of an ordered map\<close>

text \<open>
  An ordered map with several entries under one key, the newest first: what a client relies on, and what
  follows for a whole sequence of calls. \<open>rep\<close> relates a state to the sorted list of its entries; the keys
  in \<open>ok\<close> can be found and removed.
\<close>

datatype ('k, 'd) map_op = Ins 'k 'd | Find 'k | Rem 'k

datatype 'd map_res = Done_ins | Found 'd | Missing

locale ordered_map =
  fixes rep :: "'s \<Rightarrow> ('k :: linorder \<times> 'd) list \<Rightarrow> bool"
    and ins :: "'s \<Rightarrow> 'k \<Rightarrow> 'd \<Rightarrow> (bool \<times> 's) outcome"
    and get :: "'s \<Rightarrow> 'k \<Rightarrow> 'd outcome"
    and del :: "'s \<Rightarrow> 'k \<Rightarrow> ('d \<times> 's) outcome"
    and ok :: "'k \<Rightarrow> bool"
  assumes ins_law: "rep s xs \<Longrightarrow> \<exists>s'. ins s k d = Ret (True, s') \<and> rep s' (al_ins k d xs)"
    and find_law: "rep s xs \<Longrightarrow> ok k \<Longrightarrow> get s k = (case map_of xs k of None \<Rightarrow> Err ENOENT | Some d \<Rightarrow> Ret d)"
    and rem_law: "rep s xs \<Longrightarrow> ok k \<Longrightarrow>
      case map_of xs k of None \<Rightarrow> del s k = Err EOTHER | Some d \<Rightarrow> \<exists>s'. del s k = Ret (d, s') \<and> rep s' (al_rem k xs)"

text \<open>One operation on a state and on the list of entries, and sequences of them with their results.\<close>

definition map_step :: "('s \<Rightarrow> 'k \<Rightarrow> 'd \<Rightarrow> (bool \<times> 's) outcome) \<Rightarrow> ('s \<Rightarrow> 'k \<Rightarrow> 'd outcome) \<Rightarrow> ('s \<Rightarrow> 'k \<Rightarrow> ('d \<times> 's) outcome) \<Rightarrow>
    ('k, 'd) map_op \<Rightarrow> 's \<Rightarrow> ('d map_res \<times> 's) outcome" where
  "map_step ins get del f s =
     (case f of
        Ins k d \<Rightarrow> (case ins s k d of Ret (True, s') \<Rightarrow> Ret (Done_ins, s') | _ \<Rightarrow> Undef)
      | Find k \<Rightarrow> (case get s k of Ret d \<Rightarrow> Ret (Found d, s) | Err e \<Rightarrow> Ret (Missing, s) | _ \<Rightarrow> Undef)
      | Rem k \<Rightarrow> (case del s k of Ret (d, s') \<Rightarrow> Ret (Found d, s') | Err e \<Rightarrow> Ret (Missing, s) | _ \<Rightarrow> Undef))"

fun map_run :: "(('k, 'd) map_op \<Rightarrow> 's \<Rightarrow> ('d map_res \<times> 's) outcome) \<Rightarrow> ('k, 'd) map_op list \<Rightarrow> 's \<Rightarrow> ('d map_res list \<times> 's) outcome" where
  "map_run step [] s = Ret ([], s)"
| "map_run step (f # fs) s = bindO (step f s) (\<lambda>(r, s). bindO (map_run step fs s) (\<lambda>(rs, s). Ret (r # rs, s)))"

fun al_step :: "('k :: linorder, 'd) map_op \<Rightarrow> ('k \<times> 'd) list \<Rightarrow> 'd map_res \<times> ('k \<times> 'd) list" where
  "al_step (Ins k d) xs = (Done_ins, al_ins k d xs)"
| "al_step (Find k) xs = (case map_of xs k of None \<Rightarrow> Missing | Some d \<Rightarrow> Found d, xs)"
| "al_step (Rem k) xs = (case map_of xs k of None \<Rightarrow> (Missing, xs) | Some d \<Rightarrow> (Found d, al_rem k xs))"

fun al_run :: "('k :: linorder, 'd) map_op list \<Rightarrow> ('k \<times> 'd) list \<Rightarrow> 'd map_res list \<times> ('k \<times> 'd) list" where
  "al_run [] xs = ([], xs)"
| "al_run (f # fs) xs = (let (r, xs) = al_step f xs; (rs, xs) = al_run fs xs in (r # rs, xs))"

fun op_ok :: "('k \<Rightarrow> bool) \<Rightarrow> ('k, 'd) map_op \<Rightarrow> bool" where
  "op_ok ok (Ins k d) = True"
| "op_ok ok (Find k) = ok k"
| "op_ok ok (Rem k) = ok k"

context ordered_map
begin

lemma step_refines:
  assumes "rep s xs" "op_ok ok f"
  shows "\<exists>s'. map_step ins get del f s = Ret (fst (al_step f xs), s') \<and> rep s' (snd (al_step f xs))"
proof (cases f)
  case (Ins k d)
  then show ?thesis using ins_law [OF assms(1), of k d] by (auto simp: map_step_def)
next
  case (Find k)
  then show ?thesis using find_law [OF assms(1), of k] assms by (auto simp: map_step_def split: option.splits)
next
  case (Rem k)
  then show ?thesis using rem_law [OF assms(1), of k] assms by (auto simp: map_step_def split: option.splits)
qed

lemma run_refines:
  assumes "rep s xs" "list_all (op_ok ok) fs"
  shows "\<exists>s'. map_run (map_step ins get del) fs s = Ret (fst (al_run fs xs), s') \<and> rep s' (snd (al_run fs xs))"
  using assms
proof (induction fs arbitrary: s xs)
  case (Cons f fs)
  obtain s1 where s1: "map_step ins get del f s = Ret (fst (al_step f xs), s1)" "rep s1 (snd (al_step f xs))"
    using step_refines [OF Cons.prems(1), of f] Cons.prems(2) by auto
  obtain s2 where "map_run (map_step ins get del) fs s1 = Ret (fst (al_run fs (snd (al_step f xs))), s2)"
    "rep s2 (snd (al_run fs (snd (al_step f xs))))"
    using Cons.IH [OF s1(2)] Cons.prems(2) by auto
  then show ?case using s1(1) by (auto simp: split_beta Let_def)
qed simp

text \<open>What is inserted is found at once, and removing it restores the entries.\<close>

lemma ins_find_rem:
  assumes "rep s xs" "ok k" "sorted (map fst xs)"
  shows "\<exists>s1 s2. ins s k d = Ret (True, s1) \<and> get s1 k = Ret d \<and> del s1 k = Ret (d, s2) \<and> rep s2 xs"
proof -
  obtain s1 where s1: "ins s k d = Ret (True, s1)" "rep s1 (al_ins k d xs)" using ins_law [OF assms(1)] by blast
  have less: "\<And>e. e \<in> set (takeWhile (\<lambda>e. fst e < k) xs) \<Longrightarrow> fst e \<noteq> k" by (auto dest: set_takeWhileD)
  then have "map_of (takeWhile (\<lambda>e. fst e < k) xs) k = None" by (force simp: map_of_eq_None_iff)
  then have "map_of (al_ins k d xs) k = Some d" by (simp add: al_ins_def map_add_def)
  moreover have "al_rem k (al_ins k d xs) = xs"
    unfolding al_ins_def using al_rem_skip [OF less] by simp
  ultimately show ?thesis
    using s1 find_law [OF s1(2) assms(2)] rem_law [OF s1(2) assms(2)] by auto
qed

end

text \<open>The skip lists keep the contract for the keys below the greatest.\<close>

definition sl_holds :: "nat \<Rightarrow> 'a skip_list \<Rightarrow> (32 word \<times> 'a option) list \<Rightarrow> bool" where
  "sl_holds B sl xs \<longleftrightarrow> (\<exists>ns. sl_rep sl ns \<and> sl_entries sl ns = xs) \<and> sl_rnd B sl"

interpretation sl: ordered_map "sl_holds B" "\<lambda>s k d. sl_ins (sl_fuel B) True ee s k d" sl_find sl_rem "\<lambda>k. k \<noteq> 0xffffffff"
proof unfold_locales
  fix s :: "'a skip_list" and xs k d
  assume "sl_holds B s xs"
  then show "\<exists>s'. sl_ins (sl_fuel B) True ee s k d = Ret (True, s') \<and> sl_holds B s' (al_ins k d xs)"
    using sl_ins_ok [OF _ _ order_refl] unfolding sl_holds_def by metis
next
  fix s :: "'a skip_list" and xs k
  assume "sl_holds B s xs" "k \<noteq> (0xffffffff :: 32 word)"
  then show "sl_find s k = (case map_of xs k of None \<Rightarrow> Err ENOENT | Some d \<Rightarrow> Ret d)"
    using sl_find_ok unfolding sl_holds_def by blast
next
  fix s :: "'a skip_list" and xs k
  assume s: "sl_holds B s xs" and k: "k \<noteq> (0xffffffff :: 32 word)"
  then obtain ns where ns: "sl_rep s ns" "sl_entries s ns = xs" "sl_rnd B s" by (auto simp: sl_holds_def)
  show "case map_of xs k of None \<Rightarrow> sl_rem s k = Err EOTHER | Some d \<Rightarrow> \<exists>s'. sl_rem s k = Ret (d, s') \<and> sl_holds B s' (al_rem k xs)"
    using sl_rem_ok [OF ns(1,3) k] ns(2) by (cases "map_of xs k") (auto simp: sl_holds_def)
qed

section \<open>Properties\<close>

lemma sl_init_holds: "good_source B random \<Longrightarrow> \<exists>sl. sl_init True True ee random = Ret sl \<and> sl_holds B sl []"
  using sl_init_ok [of B random ee] by (auto simp: sl_holds_def sl_entries_def)

text \<open>
  C11. Any sequence of insertions, searches and removals on a new skip list gives the results of the same
  sequence on a sorted list of entries, the newest first under one key: no pointer is followed that is not
  there, every loop ends, and all levels stay in order. Searches and removals are for keys below
  0xffffffff, and among any \<open>B\<close> values of \<open>random\<close> in a row one has a pair of zero bits.
\<close>

theorem skip_list_refines:
  fixes fs :: "(32 word, 'a option) map_op list"
  assumes "good_source B random" "list_all (op_ok (\<lambda>k. k \<noteq> 0xffffffff)) fs"
  shows "\<exists>sl sl'. sl_init True True ee random = Ret sl \<and>
    map_run (map_step (sl_ins (sl_fuel B) True ee) sl_find sl_rem) fs sl = Ret (fst (al_run fs []), sl') \<and>
    sl_holds B sl' (snd (al_run fs []))"
proof -
  obtain sl :: "'a skip_list" where sl: "sl_init True True ee random = Ret sl" "sl_holds B sl []"
    using sl_init_holds [OF assms(1)] by blast
  then show ?thesis using sl.run_refines [OF sl(2) assms(2)] by blast
qed

definition sample_ops :: "(32 word, string option) map_op list" where
  "sample_ops = [Ins 5 (Some ''e''), Ins 3 (Some ''c''), Ins 5 (Some ''f''), Find 5, Rem 5, Find 5, Rem 4]"

lemma skip_list_refines_witness:
  "\<exists>sl sl'. sl_init True True False (\<lambda>n. if even n then 0 else 0x7fffffff) = Ret sl \<and>
    map_run (map_step (sl_ins (sl_fuel 2) True False) sl_find sl_rem) sample_ops sl =
      Ret ([Done_ins, Done_ins, Done_ins, Found (Some ''f''), Found (Some ''f''), Found (Some ''e''), Missing], sl') \<and>
    sl_holds 2 sl' [(3, Some ''c''), (5, Some ''e'')]"
proof -
  let ?r = "\<lambda>n :: nat. if even n then 0 else 0x7fffffff :: 32 word"
  have "\<exists>m < 2. zero_pair (?r (n + m))" for n
  proof (cases "even n")
    case True
    then show ?thesis by (intro exI [of _ 0]) (auto simp: zero_pair_def intro!: exI [of _ 0])
  next
    case False
    then show ?thesis by (intro exI [of _ 1]) (auto simp: zero_pair_def intro!: exI [of _ 0])
  qed
  then have "good_source 2 ?r" by (simp add: good_source_def)
  moreover have "list_all (op_ok (\<lambda>k. k \<noteq> 0xffffffff)) sample_ops" by (simp add: sample_ops_def)
  moreover have "al_run sample_ops [] = ([Done_ins, Done_ins, Done_ins, Found (Some ''f''), Found (Some ''f''), Found (Some ''e''), Missing],
      [(3, Some ''c''), (5, Some ''e'')])"
    by code_simp
  ultimately show ?thesis using skip_list_refines [of 2 ?r sample_ops False] by simp
qed

text \<open>
  Whatever \<open>random\<close> returns, a new node has exactly the levels 0 and 1, since the loop that draws the
  level ends at the first pair of zero bits: the list never has more than two levels.
\<close>

lemma sl_level_always_one:
  "sl_random_level fuel sl = Undef \<or> (\<exists>sl'. sl_random_level fuel sl = Ret (1, sl'))"
proof -
  have "sl_random_loop fuel s level = Undef \<or> (\<exists>l sl'. sl_random_loop fuel s level = Ret (l, sl'))" for s :: "'a skip_list" and level
    by (induction fuel arbitrary: s level) (auto simp: Let_def)
  then consider "sl_random_loop fuel sl 0 = Undef" | l sl' where "sl_random_loop fuel sl 0 = Ret (l, sl')" by blast
  then show ?thesis
  proof cases
    case 2
    then show ?thesis using sl_random_loop_level [OF 2] by (simp add: sl_random_level_def SL_MAX_LEVEL_def)
  qed (simp add: sl_random_level_def)
qed

lemma sl_random_stuck:
  assumes "1 \<le> unat (sl_randoms_left sl)" "\<And>k. k < unat (sl_randoms_left sl) \<Longrightarrow> drop_bit (2 * k) (sl_random_bits sl) AND 3 \<noteq> 0"
    "\<And>m. \<not> zero_pair (sl_random sl m)"
  shows "sl_random_loop fuel sl level = Undef"
  using assms
proof (induction fuel arbitrary: sl)
  case (Suc n)
  let ?s = "sl\<lparr>sl_random_bits := drop_bit 2 (sl_random_bits sl), sl_randoms_left := sl_randoms_left sl - 1\<rparr>"
  let ?r = "sl\<lparr>sl_random_bits := sl_random sl 0, sl_randoms_left := word_of_int (SL_BITS_IN_RANDOM div 2), sl_random := (\<lambda>n. sl_random sl (Suc n))\<rparr>"
  have b: "sl_random_bits sl AND 3 \<noteq> 0" using Suc.prems(2) [of 0] Suc.prems(1) by simp
  have left: "unat (sl_randoms_left sl - 1) = unat (sl_randoms_left sl) - 1" using Suc.prems(1) by (rule unat_dec)
  show ?case
  proof (cases "sl_randoms_left sl - 1 = 0")
    case True
    have "drop_bit (2 * k) (sl_random sl 0) AND 3 \<noteq> 0" if "k < 15" for k
      using Suc.prems(3) [of 0] that unfolding zero_pair_def by blast
    then have "sl_random_loop n ?r level = Undef"
      using Suc.prems(3) by (intro Suc.IH) (simp_all add: left_reload)
    then show ?thesis using b True by (simp add: Let_def)
  next
    case False
    then have "unat (sl_randoms_left sl - 1) \<noteq> 0" by (simp add: unat_eq_0)
    moreover have "drop_bit (2 * k) (drop_bit 2 (sl_random_bits sl)) AND 3 \<noteq> 0" if "k < unat (sl_randoms_left sl - 1)" for k
      using Suc.prems(2) [of "Suc k"] that left by simp
    ultimately have "sl_random_loop n ?s level = Undef" using Suc.prems(3) by (intro Suc.IH) simp_all
    then show ?thesis using b False by (simp add: Let_def)
  qed
qed simp


definition sample_sl :: "string skip_list" where
  "sample_sl = \<lparr>sl_head = 0, sl_level = 0, sl_random_bits = 0xff, sl_randoms_left = 3, sl_mem = [], sl_random = (\<lambda>n. 0x7fffffff)\<rparr>"


text \<open>
  \<open>sl_free\<close> hands the data of every entry to \<open>free_fun\<close> once, in the order of the keys, and frees the
  cell of every node of the list and of the head.
\<close>

theorem sl_free_all:
  assumes "sl_rep sl ns"
  shows "\<exists>sl'. sl_free sl = Ret (concat (map (\<lambda>(k, d). case d of None \<Rightarrow> [] | Some d \<Rightarrow> [d]) (sl_entries sl ns)), sl') \<and>
    (\<forall>a \<in> set (sl_head sl # ns). \<not> sl_alive sl' a)"
proof -
  have all: "filter (\<lambda>a. 0 < slots sl a) ns = ns" using filter_slots_0 [OF assms(1), of "\<lambda>_. True"] by simp
  have path: "sl_path (\<lambda>a. sl_get_forw sl a 0) (sl_head sl) ns"
    using sl_rep_path [OF assms(1), of 0] unfolding all by (simp add: SL_MAX_LEVELS_def)
  have "\<exists>sl'. sl_free sl = Ret (concat (map (\<lambda>a. case ndata sl a of None \<Rightarrow> [] | Some d \<Rightarrow> [d]) (sl_head sl # ns)), sl') \<and>
    (\<forall>a. a \<in> set (sl_head sl # ns) \<longrightarrow> \<not> sl_alive sl' a) \<and> (\<forall>a. a \<notin> set (sl_head sl # ns) \<longrightarrow> sl_alive sl' a = sl_alive sl a)"
    unfolding sl_free_def using assms(1) sl_rep_length [OF assms(1)]
    by (intro sl_free_loop_ok [OF path]) (auto simp: sl_rep_def)
  moreover have "ndata sl (sl_head sl) = None" using assms by (simp add: sl_rep_def)
  ultimately show ?thesis by (auto simp: sl_entries_def comp_def)
qed

lemma sl_free_all_witness:
  "\<exists>(sl :: string skip_list) sl' t. sl_init True True False (\<lambda>n. 0) = Ret sl \<and>
    sl_ins 30 True False sl 7 (Some ''g'') = Ret (True, sl') \<and> sl_free sl' = Ret ([''g''], t)"
proof -
  have "good_source 1 (\<lambda>n. 0)" by (auto simp: good_source_def zero_pair_def intro!: exI [of _ 0])
  then obtain sl :: "string skip_list" where sl: "sl_init True True False (\<lambda>n. 0) = Ret sl" "sl_rep sl []" "sl_rnd 1 sl"
    using sl_init_ok [of 1 "\<lambda>n. 0" False] by blast
  obtain sl' ns where ins: "sl_ins 30 True False sl 7 (Some ''g'') = Ret (True, sl')" "sl_rep sl' ns"
    "sl_entries sl' ns = [(7, Some ''g'')]"
    using sl_ins_ok [OF sl(2,3), of 30 False 7 "Some ''g''"] by (auto simp: sl_fuel_def sl_entries_def al_ins_def)
  then show ?thesis using sl(1) sl_free_all [OF ins(2)] by auto
qed

text \<open>A search for the greatest key in a list without it finds the end of the list, and a removal frees it.\<close>

lemma sl_greatest_key:
  "bindO (sl_init True True False (\<lambda>n. 0)) (\<lambda>sl :: string skip_list. sl_find sl 0xffffffff) = Ret None"
  "case bindO (sl_init True True False (\<lambda>n. 0)) (\<lambda>sl :: string skip_list. sl_rem sl 0xffffffff) of Undef \<Rightarrow> True | _ \<Rightarrow> False"
  by code_simp+

end
