(* ===== verification/Strl.thy ===== *)
theory Strl
  imports Spegla_Prelude
begin

text \<open>
  strlcpy.c and strlcat.c, the bounded copies of strings that the other files use. The buffers are arrays
  of bytes, \<open>dst\<close> a position in its buffer, and every byte that is read or written is checked.
\<close>

section \<open>strlcpy\<close>

text \<open>The copy loop: the buffer, the two positions and the count behind it.\<close>

fun strlcpy_loop :: "char arr \<Rightarrow> nat \<Rightarrow> char arr \<Rightarrow> nat \<Rightarrow> nat \<Rightarrow> (char arr \<times> nat \<times> nat \<times> nat) outcome" where
  "strlcpy_loop buf d src s 0 = Undef"
| "strlcpy_loop buf d src s (Suc n) =
     bindO (arr_get src s) (\<lambda>c.
       bindO (arr_set buf d c) (\<lambda>buf.
         if c = NUL then Ret (buf, d + 1, s + 1, Suc n)
         else if n = 0 then Ret (buf, d + 1, s + 1, 0)
         else strlcpy_loop buf (d + 1) src (s + 1) n))"

text \<open>\<open>while (*s++)\<close>, which leaves \<open>s\<close> behind the terminator; the fuel is the length of \<open>src\<close>.\<close>

fun skip_src :: "nat \<Rightarrow> char arr \<Rightarrow> nat \<Rightarrow> nat outcome" where
  "skip_src 0 src s = Undef"
| "skip_src (Suc k) src s = bindO (arr_get src s) (\<lambda>c. if c = NUL then Ret (s + 1) else skip_src k src (s + 1))"

definition strlcpy :: "char arr \<Rightarrow> nat \<Rightarrow> char arr \<Rightarrow> nat \<Rightarrow> (nat \<times> char arr) outcome" where
  "strlcpy buf dst src siz =
     bindO (if siz \<noteq> 0 \<and> siz - 1 \<noteq> 0 then strlcpy_loop buf dst src 0 (siz - 1) else Ret (buf, dst, 0, 0)) (\<lambda>(buf, d, s, n).
       if n = 0
       then bindO (if siz \<noteq> 0 then arr_set buf d NUL else Ret buf) (\<lambda>buf.
         bindO (skip_src (length src) src s) (\<lambda>s. Ret (s - 1, buf)))
       else Ret (s - 1, buf))"

section \<open>strlcat\<close>

text \<open>
  The end of the string in \<open>dst\<close>. The byte is read before the count is tested, so in a full buffer the
  byte behind it is read.
\<close>

fun find_end :: "char arr \<Rightarrow> nat \<Rightarrow> nat \<Rightarrow> nat outcome" where
  "find_end buf d n =
     bindO (arr_get buf d) (\<lambda>c. if c = NUL then Ret d else case n of 0 \<Rightarrow> Ret d | Suc n \<Rightarrow> find_end buf (d + 1) n)"

text \<open>The loop over \<open>src\<close>, whose fuel is its length; \<open>n\<close> bytes are left for the string and its terminator.\<close>

fun strlcat_loop :: "nat \<Rightarrow> char arr \<Rightarrow> nat \<Rightarrow> char arr \<Rightarrow> nat \<Rightarrow> nat \<Rightarrow> (char arr \<times> nat \<times> nat) outcome" where
  "strlcat_loop 0 buf d src s n = Undef"
| "strlcat_loop (Suc k) buf d src s n =
     bindO (arr_get src s) (\<lambda>c.
       if c = NUL then Ret (buf, d, s)
       else if n \<noteq> 1 then bindO (arr_set buf d c) (\<lambda>buf. strlcat_loop k buf (d + 1) src (s + 1) (n - 1))
       else strlcat_loop k buf d src (s + 1) n)"

definition strlcat :: "char arr \<Rightarrow> nat \<Rightarrow> char arr \<Rightarrow> nat \<Rightarrow> (nat \<times> char arr) outcome" where
  "strlcat buf dst src siz =
     bindO (find_end buf dst siz) (\<lambda>d.
       let dlen = d - dst; n = siz - dlen in
       if n = 0 then bindO (arr_cstr src) (\<lambda>s. Ret (dlen + length s, buf))
       else bindO (strlcat_loop (length src) buf d src 0 n) (\<lambda>(buf, d, s).
         bindO (arr_set buf d NUL) (\<lambda>buf. Ret (dlen + s, buf))))"

section \<open>What they compute\<close>

text \<open>A buffer in which a string without NUL bytes starts at position \<open>p\<close>.\<close>

definition cstr_at :: "char arr \<Rightarrow> nat \<Rightarrow> string \<Rightarrow> bool" where
  "cstr_at buf p t \<longleftrightarrow> NUL \<notin> set t \<and> (\<exists>rest. drop p buf = map Some t @ Some NUL # rest)"

lemma cstr_at_get:
  assumes "cstr_at buf p t" "i \<le> length t"
  shows "arr_get buf (p + i) = Ret (if i < length t then t ! i else NUL)"
proof -
  obtain rest where r: "drop p buf = map Some t @ Some NUL # rest" using assms(1) by (auto simp: cstr_at_def)
  have len: "p + i < length buf" using arg_cong [OF r, of length] assms(2) by simp
  then have "buf ! (p + i) = drop p buf ! i" by simp
  then show ?thesis using len assms(2) by (simp add: arr_get_def r nth_append)
qed

lemma cstr_at_nth: "cstr_at buf p t \<Longrightarrow> i < length t \<Longrightarrow> t ! i \<noteq> NUL"
  unfolding cstr_at_def by (metis nth_mem)

lemma skip_src_ok:
  assumes "cstr_at src 0 t" "s \<le> length t" "length t - s < k"
  shows "skip_src k src s = Ret (length t + 1)"
  using assms(2,3)
proof (induction k arbitrary: s)
  case (Suc k)
  show ?case
  proof (cases "s = length t")
    case False
    then show ?thesis using Suc cstr_at_get [OF assms(1), of s] cstr_at_nth [OF assms(1), of s] by simp
  qed (use cstr_at_get [OF assms(1), of s] in simp)
qed simp

text \<open>Writing a list of bytes into an array.\<close>

definition put_at :: "char arr \<Rightarrow> nat \<Rightarrow> string \<Rightarrow> char arr" where
  "put_at buf p t = take p buf @ map Some t @ drop (p + length t) buf"

lemma length_put_at [simp]: "p + length t \<le> length buf \<Longrightarrow> length (put_at buf p t) = length buf"
  by (simp add: put_at_def)

lemma put_at_Nil [simp]: "put_at buf p [] = buf"
  by (simp add: put_at_def)

lemma put_at_Cons: "p < length buf \<Longrightarrow> put_at (buf[p := Some c]) (Suc p) t = put_at buf p (c # t)"
  by (simp add: put_at_def take_Suc_conv_app_nth)

lemma put_at_append: "p + length s \<le> length buf \<Longrightarrow> put_at (put_at buf p s) (p + length s) t = put_at buf p (s @ t)"
  by (cases s) (auto simp: put_at_def min_def add.commute add.left_commute)

lemma strlcpy_loop_ok:
  assumes "cstr_at src 0 t" "s \<le> length t" "0 < n" "d + n \<le> length buf"
  shows "strlcpy_loop buf d src s n =
    (if length t - s < n then Ret (put_at buf d (drop s t @ [NUL]), d + (length t - s) + 1, length t + 1, n - (length t - s))
     else Ret (put_at buf d (take n (drop s t)), d + n, s + n, 0))"
  using assms(2-4)
proof (induction n arbitrary: s d buf)
  case (Suc n)
  show ?case
  proof (cases "s = length t")
    case True
    have "put_at buf d [NUL] = buf[d := Some NUL]" using Suc.prems by (simp add: put_at_def upd_conv_take_nth_drop)
    then show ?thesis using True cstr_at_get [OF assms(1), of s] Suc.prems by (simp add: arr_set_def)
  next
    case False
    then have s: "s < length t" using Suc.prems by simp
    have get: "arr_get src s = Ret (t ! s)" "t ! s \<noteq> NUL"
      using s cstr_at_get [OF assms(1), of s] cstr_at_nth [OF assms(1) s] by simp_all
    have drop: "drop s t = t ! s # drop (Suc s) t" using s by (simp add: Cons_nth_drop_Suc)
    have d: "d < length buf" using Suc.prems by simp
    show ?thesis
    proof (cases "n = 0")
      case True
      have "put_at buf d [t ! s] = buf[d := Some (t ! s)]" using d by (simp add: put_at_def upd_conv_take_nth_drop)
      then show ?thesis using True get d s by (simp add: arr_set_def drop)
    next
      case False
      have "strlcpy_loop (buf[d := Some (t ! s)]) (d + 1) src (s + 1) n =
        (if length t - (s + 1) < n then Ret (put_at (buf[d := Some (t ! s)]) (d + 1) (drop (s + 1) t @ [NUL]),
           d + 1 + (length t - (s + 1)) + 1, length t + 1, n - (length t - (s + 1)))
         else Ret (put_at (buf[d := Some (t ! s)]) (d + 1) (take n (drop (s + 1) t)), d + 1 + n, s + 1 + n, 0))"
        using False s Suc.prems by (intro Suc.IH) simp_all
      then show ?thesis using False get d s by (auto simp: arr_set_def drop put_at_Cons)
    qed
  qed
qed simp

text \<open>
  C39. \<open>strlcpy\<close> returns the length of its source and leaves in \<open>dst\<close> as much of it as \<open>siz\<close> bytes hold,
  terminated, with all other bytes unchanged; with a \<open>siz\<close> of zero it writes nothing.
\<close>

theorem strlcpy_exact:
  assumes "cstr_at src 0 t" "dst + siz \<le> length buf"
  shows "strlcpy buf dst src siz = Ret (length t, if siz = 0 then buf else put_at buf dst (take (siz - 1) t @ [NUL]))"
proof -
  have len: "length t < length src" using assms(1) by (auto simp: cstr_at_def)
  have put1: "put_at buf dst [NUL] = buf[dst := Some NUL]" if "0 < siz"
    using that assms(2) by (simp add: put_at_def upd_conv_take_nth_drop)
  show ?thesis
  proof (cases "siz \<le> 1")
    case True
    then have "siz = 0 \<or> siz = 1" by auto
    then show ?thesis
      using skip_src_ok [OF assms(1), of 0 "length src"] len put1 assms(2) by (auto simp: strlcpy_def arr_set_def)
  next
    case False
    have loop: "strlcpy_loop buf dst src 0 (siz - 1) =
      (if length t < siz - 1 then Ret (put_at buf dst (t @ [NUL]), dst + length t + 1, length t + 1, siz - 1 - length t)
       else Ret (put_at buf dst (take (siz - 1) t), dst + (siz - 1), siz - 1, 0))"
      using strlcpy_loop_ok [OF assms(1), of 0 "siz - 1" dst buf] False assms(2) by simp
    show ?thesis
    proof (cases "length t < siz - 1")
      case True
      then show ?thesis using False loop by (auto simp: strlcpy_def)
    next
      case long: False
      let ?b = "put_at buf dst (take (siz - 1) t)"
      have tk: "length (take (siz - 1) t) = siz - 1" using long by simp
      have lb: "dst + (siz - 1) < length ?b" using tk assms(2) False by simp
      have "?b[dst + (siz - 1) := Some NUL] = put_at ?b (dst + (siz - 1)) [NUL]" using lb by (simp add: put_at_def upd_conv_take_nth_drop)
      also have "\<dots> = put_at buf dst (take (siz - 1) t @ [NUL])"
        using put_at_append [of dst "take (siz - 1) t" buf "[NUL]"] tk assms(2) by simp
      finally have "?b[dst + (siz - 1) := Some NUL] = put_at buf dst (take (siz - 1) t @ [NUL])" .
      then show ?thesis
        using False loop long lb skip_src_ok [OF assms(1), of "siz - 1" "length src"] len by (simp add: strlcpy_def arr_set_def)
    qed
  qed
qed

lemma strlcpy_exact_witness:
  "strlcpy (replicate 6 None) 1 (map Some ''spegla'' @ [Some NUL]) 4 = Ret (6, [None, Some (CHR ''s''), Some (CHR ''p''), Some (CHR ''e''), Some NUL, None])"
  using strlcpy_exact [of "map Some ''spegla'' @ [Some NUL]" "''spegla''" 1 4 "replicate 6 None"]
  by (simp add: cstr_at_def NUL_def put_at_def eval_nat_numeral)

lemma find_end_ok:
  assumes "cstr_at buf dst u" "i \<le> length u"
  shows "find_end buf (dst + i) n = Ret (dst + min (length u) (i + n))"
  using assms(2)
proof (induction n arbitrary: i)
  case 0
  then show ?case using cstr_at_get [OF assms(1) 0] cstr_at_nth [OF assms(1), of i] by (cases "i = length u") simp_all
next
  case (Suc n)
  show ?case
  proof (cases "i = length u")
    case True
    then show ?thesis using cstr_at_get [OF assms(1) Suc.prems] by simp
  next
    case False
    then have "i < length u" using Suc.prems by simp
    then show ?thesis
      using cstr_at_get [OF assms(1) Suc.prems] cstr_at_nth [OF assms(1), of i] Suc.IH [of "i + 1"] by simp
  qed
qed

declare find_end.simps [simp del]

lemma strlcat_loop_ok:
  assumes "cstr_at src 0 t" "s \<le> length t" "length t - s < k" "0 < n" "d + n \<le> length buf"
  shows "\<exists>m. m = min (n - 1) (length t - s) \<and>
    strlcat_loop k buf d src s n = Ret (put_at buf d (take m (drop s t)), d + m, length t)"
  using assms(2-5)
proof (induction k arbitrary: buf d s n)
  case (Suc k)
  show ?case
  proof (cases "s = length t")
    case True
    then show ?thesis using cstr_at_get [OF assms(1), of s] by simp
  next
    case False
    then have s: "s < length t" using Suc.prems by simp
    have get: "arr_get src s = Ret (t ! s)" "t ! s \<noteq> NUL"
      using s cstr_at_get [OF assms(1), of s] cstr_at_nth [OF assms(1) s] by simp_all
    show ?thesis
    proof (cases "n = 1")
      case True
      then show ?thesis using Suc.IH [of "s + 1" 1 d buf] get s Suc.prems by simp
    next
      case False
      have "strlcat_loop k (buf[d := Some (t ! s)]) (d + 1) src (s + 1) (n - 1) =
          Ret (put_at (buf[d := Some (t ! s)]) (d + 1) (take (min (n - 1 - 1) (length t - (s + 1))) (drop (s + 1) t)),
            d + 1 + min (n - 1 - 1) (length t - (s + 1)), length t)"
        using Suc.IH [of "s + 1" "n - 1" "d + 1" "buf[d := Some (t ! s)]"] False s Suc.prems by simp
      moreover have "min (n - 1) (length t - s) = Suc (min (n - 1 - 1) (length t - (s + 1)))" using False s Suc.prems(3) by auto
      moreover have "drop s t = t ! s # drop (Suc s) t" using s by (simp add: Cons_nth_drop_Suc)
      moreover have "d < length buf" using Suc.prems by simp
      ultimately show ?thesis using False get by (simp add: arr_set_def put_at_Cons)
    qed
  qed
qed simp

text \<open>
  \<open>strlcat\<close> appends as much of its source as \<open>siz\<close> bytes hold and terminates it, with all other bytes
  unchanged; it returns the sum of the lengths, the first of them cut to \<open>siz\<close>, and leaves a \<open>dst\<close> of \<open>siz\<close> bytes or more alone.
\<close>

theorem strlcat_exact:
  assumes "cstr_at src 0 t" "cstr_at buf dst u" "dst + siz \<le> length buf"
  shows "strlcat buf dst src siz = Ret (min (length u) siz + length t,
    if siz \<le> length u then buf else put_at buf (dst + length u) (take (siz - length u - 1) t @ [NUL]))"
proof -
  have len: "length t < length src" using assms(1) by (auto simp: cstr_at_def)
  have fe: "find_end buf dst siz = Ret (dst + min (length u) siz)" using find_end_ok [OF assms(2), of 0 siz] by simp
  have cstr: "arr_cstr src = Ret t" using assms(1) by (auto simp: cstr_at_def arr_cstr_front)
  show ?thesis
  proof (cases "siz \<le> length u")
    case True
    then show ?thesis using fe cstr by (simp add: strlcat_def)
  next
    case False
    let ?n = "siz - length u"
    let ?m = "min (?n - 1) (length t)" and ?d = "dst + length u"
    have loop: "strlcat_loop (length src) buf ?d src 0 ?n = Ret (put_at buf ?d (take ?m t), ?d + ?m, length t)"
      using strlcat_loop_ok [OF assms(1), of 0 "length src" ?n ?d buf] len False assms(3) by simp
    have room: "?d + ?m < length buf" using False assms(3) by simp
    have tk: "length (take ?m t) = ?m" by simp
    have "(put_at buf ?d (take ?m t))[?d + ?m := Some NUL] = put_at (put_at buf ?d (take ?m t)) (?d + ?m) [NUL]"
      using room tk by (simp add: put_at_def upd_conv_take_nth_drop)
    also have "\<dots> = put_at buf ?d (take ?m t @ [NUL])" using put_at_append [of ?d "take ?m t" buf "[NUL]"] room tk by simp
    finally have "(put_at buf ?d (take ?m t))[?d + ?m := Some NUL] = put_at buf ?d (take ?m t @ [NUL])" .
    moreover have "take ?m t = take (siz - length u - 1) t" by (simp add: min_def)
    moreover have "length (put_at buf ?d (take ?m t)) = length buf" using room tk by (intro length_put_at) simp
    ultimately show ?thesis using fe loop room False by (simp add: strlcat_def arr_set_def Let_def)
  qed
qed

lemma strlcat_exact_witness:
  "strlcat (map Some ''ab'' @ [Some NUL, None, None]) 0 (map Some ''cde'' @ [Some NUL]) 5 = Ret (5, map Some ''abcd'' @ [Some NUL])"
  using strlcat_exact [of "map Some ''cde'' @ [Some NUL]" "''cde''" "map Some ''ab'' @ [Some NUL, None, None]" 0 "''ab''" 5]
  by (simp add: cstr_at_def NUL_def put_at_def eval_nat_numeral)

text \<open>A \<open>dst\<close> without a terminator in its \<open>siz\<close> bytes: the byte behind it is read.\<close>

lemma strlcat_reads_past: "strlcat (map Some ''ab'') 0 (map Some ''c'' @ [Some NUL]) 2 = Undef"
  by code_simp

end
