(* ===== verification/E_Err.thy ===== *)
theory E_Err
  imports Spf_State
begin

text \<open>
  Messages and fatal errors (e_err.c). A message is built in a buffer of \<open>MAX_STR\<close> bytes and goes
  to a stream or to the system log; the \<open>e_err\<close> functions then end the process. The text that
  \<open>printf\<close> makes of a format and its arguments is the argument \<open>msg\<close>; a function with a \<open>va_list\<close>
  takes the same.
\<close>

section \<open>State\<close>

datatype e_stream = Stderr | Stream nat

text \<open>
  The static variables of the file, then what stands for the environment: the name of the program,
  \<open>strerror (errno)\<close>, what was written to streams and to the log, and the calls of \<open>openlog\<close>.
  \<open>e_log_opt\<close> never changes.
\<close>

record e_st =
  e_pname :: "string option"
  e_newline :: string
  e_log_facil :: int
  e_log_prio :: int
  e_use_f :: bool
  e_fp :: "e_stream option"
  e_log_opened :: bool
  e_level :: int
  e_inited :: bool
  e_section :: "32 word"
  e_progname :: string
  e_error :: string
  e_written :: "(e_stream \<times> string) list"
  e_syslog :: "(int \<times> string) list"
  e_openlogs :: "(string option \<times> int) list"

definition e_start :: "string \<Rightarrow> string \<Rightarrow> e_st" where
  "e_start progname error = \<lparr>e_pname = None, e_newline = [CHR 0x0A], e_log_facil = 0, e_log_prio = 0, e_use_f = True,
     e_fp = None, e_log_opened = False, e_level = 0, e_inited = False, e_section = - 1, e_progname = progname,
     e_error = error, e_written = [], e_syslog = [], e_openlogs = []\<rparr>"

definition e_init :: "e_st \<Rightarrow> e_st" where
  "e_init s = s\<lparr>e_inited := True, e_pname := Some (e_progname s), e_fp := Some Stderr\<rparr>"

definition CHK_INIT :: "e_st \<Rightarrow> e_st" where
  "CHK_INIT s = (if e_inited s then s else e_init s)"

definition update_log :: "e_st \<Rightarrow> e_st" where
  "update_log s = s\<lparr>e_openlogs := e_openlogs s @ [(e_pname s, e_log_facil s)], e_log_opened := True\<rparr>"

section \<open>Building a message\<close>

definition E_MAX_STR :: nat where "E_MAX_STR = 1024"

text \<open>Differences of type \<open>size_t\<close>.\<close>

definition u64_sub :: "nat \<Rightarrow> nat \<Rightarrow> nat" where
  "u64_sub a b = (if b \<le> a then a - b else 2 ^ 64 + a - b)"

text \<open>\<open>snprintf (buf + p, len, ...)\<close> with the text \<open>s\<close>: at most \<open>len - 1\<close> bytes and the terminator.\<close>

definition snprintf_at :: "char arr \<Rightarrow> nat \<Rightarrow> nat \<Rightarrow> string \<Rightarrow> char arr outcome" where
  "snprintf_at buf p len s =
     (if len = 0 then Ret buf
      else let src = take (len - 1) s @ [NUL] in arr_copy buf p (map Some src) 0 (length src))"

text \<open>The removal of one byte \<open>c\<close> at the end; \<open>p\<close> is the position of the terminator.\<close>

definition drop_tail :: "char \<Rightarrow> char arr \<times> nat \<times> nat \<Rightarrow> (char arr \<times> nat \<times> nat) outcome" where
  "drop_tail c = (\<lambda>(buf, p, len).
     if p \<le> 1 then Ret (buf, p, len)
     else bindO (arr_get buf (p - 1)) (\<lambda>b.
       if b = c then bindO (arr_set buf (p - 1) NUL) (\<lambda>buf. Ret (buf, p - 1, len + 1)) else Ret (buf, p, len)))"

definition e_buf_format :: "char arr \<Rightarrow> nat \<Rightarrow> string option \<Rightarrow> string option \<Rightarrow> string \<Rightarrow> char arr outcome" where
  "e_buf_format buf len name error msg =
     bindO (case name of None \<Rightarrow> Ret (buf, 0, len)
            | Some n \<Rightarrow> let s = n @ '': '' in
                bindO (snprintf_at buf 0 len s) (\<lambda>buf. Ret (buf, length s, u64_sub len (length s)))) (\<lambda>(buf, p, len).
       bindO (snprintf_at buf p len msg) (\<lambda>buf.
         let res = (if len \<le> length msg then u32 (u64_sub len 1) else length msg) in
         bindO (drop_tail (CHR 0x0A) (buf, p + res, u64_sub len res)) (\<lambda>x.
           bindO (drop_tail (CHR 0x0D) x) (\<lambda>(buf, p, len).
             case error of None \<Rightarrow> Ret buf | Some e \<Rightarrow> snprintf_at buf p len ('': '' @ e)))))"

section \<open>Writing a message\<close>

text \<open>
  Line ends other than a newline. The room for them is counted first: the loop starts at the first
  byte, whatever it is, as if a carriage return and a newline stood there.
\<close>

fun nl_extra :: "int \<Rightarrow> char \<Rightarrow> string \<Rightarrow> int" where
  "nl_extra len_nl prev [] = 0"
| "nl_extra len_nl prev (c # s) =
     (if c = CHR 0x0A then len_nl - (if prev \<noteq> CHR 0x0D then 1 else 2) else 0) + nl_extra len_nl c s"

fun nl_replace :: "string \<Rightarrow> string \<Rightarrow> string" where
  "nl_replace nl [] = []"
| "nl_replace nl [c] = (if c = CHR 0x0A then nl else [c])"
| "nl_replace nl (c # d # s) =
     (if c = CHR 0x0A then nl @ nl_replace nl (d # s)
      else if c = CHR 0x0D \<and> d = CHR 0x0A then nl @ nl_replace nl s
      else c # nl_replace nl (d # s))"

text \<open>
  The copy of \<open>buf\<close> in the memory from \<open>alloca\<close>, which must hold it with its terminator. The search
  for newlines starts behind the first byte, which must be there.
\<close>

definition nl_copy :: "string \<Rightarrow> string \<Rightarrow> string outcome" where
  "nl_copy nl buf =
     (case buf of [] \<Rightarrow> Undef
      | c # s \<Rightarrow>
        let needed_extra = int (length nl) - 2 + nl_extra (int (length nl)) c s;
            out = nl_replace nl buf in
        if int (length out) + 1 \<le> int (length buf) + needed_extra + 1 then Ret out else Undef)"

text \<open>What \<open>e_buf_file\<close> writes to the stream.\<close>

definition e_buf_file :: "e_st \<Rightarrow> string \<Rightarrow> string outcome" where
  "e_buf_file s buf =
     bindO (if e_newline s \<noteq> [CHR 0x0A] then nl_copy (e_newline s) buf else Ret buf) (\<lambda>buf. Ret (buf @ e_newline s))"

text \<open>
  What \<open>e_buf_log\<close> hands to \<open>syslog\<close>: the text behind the first colon and one more byte. It is the
  format string of the call, so a percent sign in it asks for arguments that are not there.
\<close>

definition e_buf_log :: "string \<Rightarrow> string outcome" where
  "e_buf_log buf =
     (let p = (if CHR '':'' \<in> set buf then drop 2 (dropWhile (\<lambda>c. c \<noteq> CHR '':'') buf) else buf) in
      if CHR ''%'' \<in> set p then Undef else Ret p)"

text \<open>The two ways out for a message, with or without the text of the error.\<close>

definition msg_text :: "e_st \<Rightarrow> bool \<Rightarrow> string \<Rightarrow> string outcome" where
  "msg_text s with_error msg =
     bindO (e_buf_format (arr_alloc E_MAX_STR) E_MAX_STR (e_pname s) (if with_error then Some (e_error s) else None) msg) arr_cstr"

definition msg_file :: "e_stream option \<Rightarrow> bool \<Rightarrow> string \<Rightarrow> e_st \<Rightarrow> (e_st, unit) run" where
  "msg_file fp with_error msg s =
     (case (fp, bindO (msg_text s with_error msg) (e_buf_file s)) of
        (Some f, Ret out) \<Rightarrow> Done () (s\<lparr>e_written := e_written s @ [(f, out)]\<rparr>)
      | _ \<Rightarrow> Wrong)"

definition msg_log :: "int \<Rightarrow> bool \<Rightarrow> string \<Rightarrow> e_st \<Rightarrow> (e_st, unit) run" where
  "msg_log prio with_error msg s =
     (case bindO (msg_text s with_error msg) e_buf_log of
        Ret out \<Rightarrow> Done () (s\<lparr>e_syslog := e_syslog s @ [(prio, out)]\<rparr>)
      | _ \<Rightarrow> Wrong)"

section \<open>Settings\<close>

definition e_set_progname :: "string option \<Rightarrow> e_st \<Rightarrow> e_st" where
  "e_set_progname name s = (CHK_INIT s)\<lparr>e_use_f := True, e_pname := name\<rparr>"

definition e_get_progname :: "e_st \<Rightarrow> string option \<times> e_st" where
  "e_get_progname s = (let s = CHK_INIT s in (e_pname s, s))"

definition e_set_log_facil :: "int \<Rightarrow> e_st \<Rightarrow> e_st" where
  "e_set_log_facil facility s = update_log ((CHK_INIT s)\<lparr>e_use_f := False, e_log_facil := facility\<rparr>)"

definition e_get_log_facil :: "e_st \<Rightarrow> int \<times> e_st" where
  "e_get_log_facil s = (let s = CHK_INIT s in (e_log_facil s, s))"

definition e_set_log_prio :: "int \<Rightarrow> e_st \<Rightarrow> e_st" where
  "e_set_log_prio prio s = update_log ((CHK_INIT s)\<lparr>e_use_f := False, e_log_prio := prio\<rparr>)"

definition e_get_log_prio :: "e_st \<Rightarrow> int \<times> e_st" where
  "e_get_log_prio s = (let s = CHK_INIT s in (e_log_prio s, s))"

definition e_use_log :: "e_st \<Rightarrow> e_st" where
  "e_use_log s = (CHK_INIT s)\<lparr>e_use_f := False\<rparr>"

definition e_set_file :: "e_stream option \<Rightarrow> e_st \<Rightarrow> e_st" where
  "e_set_file fp s =
     (let s = (CHK_INIT s)\<lparr>e_use_f := True\<rparr>; f = (case fp of None \<Rightarrow> Stderr | Some f \<Rightarrow> f) in
      s\<lparr>e_fp := Some f, e_pname := if f = Stderr then Some (e_progname s) else None\<rparr>)"

definition e_get_file :: "e_st \<Rightarrow> e_stream option \<times> e_st" where
  "e_get_file s = (let s = CHK_INIT s in (e_fp s, s))"

definition e_use_file :: "e_st \<Rightarrow> e_st" where
  "e_use_file s = (CHK_INIT s)\<lparr>e_use_f := True\<rparr>"

definition e_set_level :: "int \<Rightarrow> e_st \<Rightarrow> e_st" where "e_set_level level s = s\<lparr>e_level := level\<rparr>"
definition e_get_level :: "e_st \<Rightarrow> int" where "e_get_level s = e_level s"
definition e_set_section :: "32 word \<Rightarrow> e_st \<Rightarrow> e_st" where "e_set_section sect s = s\<lparr>e_section := sect\<rparr>"
definition e_get_section :: "e_st \<Rightarrow> 32 word" where "e_get_section s = e_section s"
definition e_set_newline_str :: "string \<Rightarrow> e_st \<Rightarrow> e_st" where "e_set_newline_str str s = s\<lparr>e_newline := str\<rparr>"
definition e_get_newline_str :: "e_st \<Rightarrow> string" where "e_get_newline_str s = e_newline s"

text \<open>\<open>daemon\<close> of the C library is the first argument.\<close>

definition e_daemon :: "(bool \<Rightarrow> bool \<Rightarrow> int) \<Rightarrow> bool \<Rightarrow> bool \<Rightarrow> int \<Rightarrow> int \<Rightarrow> e_st \<Rightarrow> int \<times> e_st" where
  "e_daemon daemon nochdir noclose facility prio s =
     (daemon nochdir noclose, e_set_log_prio prio (e_set_log_facil facility (e_use_log s)))"

text \<open>The name is \<open>NULL\<close> for messages to a file; \<open>printf\<close> must not get it. The length is not clipped here.\<close>

definition e_usage :: "string \<Rightarrow> e_st \<Rightarrow> (e_st, unit) run" where
  "e_usage msg s =
     (let s = CHK_INIT s in
      case e_pname s of None \<Rightarrow> Wrong
      | Some n \<Rightarrow>
        let t = ''usage: '' @ n @ '' ''; buf = arr_alloc E_MAX_STR; len = E_MAX_STR in
        (case bindO (snprintf_at buf 0 len t) (\<lambda>buf.
            let len = u64_sub len (length t) in
            bindO (snprintf_at buf (length t) len msg) (\<lambda>buf.
              bindO (drop_tail (CHR 0x0A) (buf, length t + length msg, u64_sub len (length msg))) (\<lambda>x.
                bindO (drop_tail (CHR 0x0D) x) (\<lambda>(buf, p, len). bindO (arr_cstr buf) (e_buf_file s))))) of
          Ret out \<Rightarrow> Done () (s\<lparr>e_written := e_written s @ [(Stderr, out)]\<rparr>)
        | _ \<Rightarrow> Wrong))"

section \<open>Warnings\<close>

definition e_vwarn_file :: "e_stream option \<Rightarrow> string \<Rightarrow> e_st \<Rightarrow> (e_st, unit) run" where
  "e_vwarn_file fp msg s = msg_file fp True msg (CHK_INIT s)"

definition e_warn_file :: "e_stream option \<Rightarrow> string \<Rightarrow> e_st \<Rightarrow> (e_st, unit) run" where
  "e_warn_file fp msg s = e_vwarn_file fp msg (CHK_INIT s)"

definition e_vwarn_log :: "int \<Rightarrow> string \<Rightarrow> e_st \<Rightarrow> (e_st, unit) run" where
  "e_vwarn_log prio msg s = msg_log prio True msg (CHK_INIT s)"

definition e_warn_log :: "int \<Rightarrow> string \<Rightarrow> e_st \<Rightarrow> (e_st, unit) run" where
  "e_warn_log prio msg s = e_vwarn_log prio msg (CHK_INIT s)"

definition e_vwarn :: "string \<Rightarrow> e_st \<Rightarrow> (e_st, unit) run" where
  "e_vwarn msg s =
     (let s = CHK_INIT s in if e_use_f s then e_vwarn_file (e_fp s) msg s else e_vwarn_log (e_log_prio s) msg s)"

definition e_warn :: "string \<Rightarrow> e_st \<Rightarrow> (e_st, unit) run" where
  "e_warn msg s = e_vwarn msg (CHK_INIT s)"

definition e_vwarnx_file :: "e_stream option \<Rightarrow> string \<Rightarrow> e_st \<Rightarrow> (e_st, unit) run" where
  "e_vwarnx_file fp msg s = msg_file fp False msg (CHK_INIT s)"

definition e_warnx_file :: "e_stream option \<Rightarrow> string \<Rightarrow> e_st \<Rightarrow> (e_st, unit) run" where
  "e_warnx_file fp msg s = e_vwarnx_file fp msg (CHK_INIT s)"

definition e_vwarnx_log :: "int \<Rightarrow> string \<Rightarrow> e_st \<Rightarrow> (e_st, unit) run" where
  "e_vwarnx_log prio msg s = msg_log prio False msg (CHK_INIT s)"

definition e_warnx_log :: "int \<Rightarrow> string \<Rightarrow> e_st \<Rightarrow> (e_st, unit) run" where
  "e_warnx_log prio msg s = e_vwarnx_log prio msg (CHK_INIT s)"

definition e_vwarnx :: "string \<Rightarrow> e_st \<Rightarrow> (e_st, unit) run" where
  "e_vwarnx msg s =
     (let s = CHK_INIT s in if e_use_f s then e_vwarnx_file (e_fp s) msg s else e_vwarnx_log (e_log_prio s) msg s)"

definition e_warnx :: "string \<Rightarrow> e_st \<Rightarrow> (e_st, unit) run" where
  "e_warnx msg s = e_vwarnx msg (CHK_INIT s)"

section \<open>Fatal errors\<close>

definition e_verr_file :: "int \<Rightarrow> e_stream option \<Rightarrow> string \<Rightarrow> e_st \<Rightarrow> (e_st, unit) run" where
  "e_verr_file eval fp msg s = bindR (e_vwarn_file fp msg (CHK_INIT s)) (\<lambda>_ s. Quit eval s)"

definition e_err_file :: "int \<Rightarrow> e_stream option \<Rightarrow> string \<Rightarrow> e_st \<Rightarrow> (e_st, unit) run" where
  "e_err_file eval fp msg s = e_verr_file eval fp msg (CHK_INIT s)"

definition e_verr_log :: "int \<Rightarrow> int \<Rightarrow> string \<Rightarrow> e_st \<Rightarrow> (e_st, unit) run" where
  "e_verr_log eval prio msg s = bindR (e_vwarn_log prio msg (CHK_INIT s)) (\<lambda>_ s. Quit eval s)"

definition e_err_log :: "int \<Rightarrow> int \<Rightarrow> string \<Rightarrow> e_st \<Rightarrow> (e_st, unit) run" where
  "e_err_log eval prio msg s = e_verr_log eval prio msg (CHK_INIT s)"

definition e_verr :: "int \<Rightarrow> string \<Rightarrow> e_st \<Rightarrow> (e_st, unit) run" where
  "e_verr eval msg s =
     (let s = CHK_INIT s in
      bindR (if e_use_f s then e_verr_file eval (e_fp s) msg s else Done () s) (\<lambda>_ s. e_verr_log eval (e_log_prio s) msg s))"

definition e_err :: "int \<Rightarrow> string \<Rightarrow> e_st \<Rightarrow> (e_st, unit) run" where
  "e_err eval msg s = e_verr eval msg (CHK_INIT s)"

definition e_verrx_file :: "int \<Rightarrow> e_stream option \<Rightarrow> string \<Rightarrow> e_st \<Rightarrow> (e_st, unit) run" where
  "e_verrx_file eval fp msg s = bindR (e_vwarnx_file fp msg (CHK_INIT s)) (\<lambda>_ s. Quit eval s)"

definition e_errx_file :: "int \<Rightarrow> e_stream option \<Rightarrow> string \<Rightarrow> e_st \<Rightarrow> (e_st, unit) run" where
  "e_errx_file eval fp msg s = e_verrx_file eval fp msg (CHK_INIT s)"

definition e_verrx_log :: "int \<Rightarrow> int \<Rightarrow> string \<Rightarrow> e_st \<Rightarrow> (e_st, unit) run" where
  "e_verrx_log eval prio msg s = bindR (e_vwarnx_log prio msg (CHK_INIT s)) (\<lambda>_ s. Quit eval s)"

definition e_errx_log :: "int \<Rightarrow> int \<Rightarrow> string \<Rightarrow> e_st \<Rightarrow> (e_st, unit) run" where
  "e_errx_log eval prio msg s = e_verrx_log eval prio msg (CHK_INIT s)"

definition e_verrx :: "int \<Rightarrow> string \<Rightarrow> e_st \<Rightarrow> (e_st, unit) run" where
  "e_verrx eval msg s =
     (let s = CHK_INIT s in
      bindR (if e_use_f s then e_verrx_file eval (e_fp s) msg s else Done () s) (\<lambda>_ s. e_verrx_log eval (e_log_prio s) msg s))"

definition e_errx :: "int \<Rightarrow> string \<Rightarrow> e_st \<Rightarrow> (e_st, unit) run" where
  "e_errx eval msg s = e_verrx eval msg (CHK_INIT s)"

section \<open>Messages with a level and a section\<close>

text \<open>\<open>CHK_LVL\<close> and \<open>CHK_SECT\<close>, which return from the function.\<close>

definition CHK_LVL :: "int \<Rightarrow> e_st \<Rightarrow> bool" where "CHK_LVL level s \<longleftrightarrow> level \<le> e_level s"
definition CHK_SECT :: "32 word \<Rightarrow> e_st \<Rightarrow> bool" where "CHK_SECT sect s \<longleftrightarrow> sect AND e_section s \<noteq> 0"

definition e_vtrace :: "int \<Rightarrow> 32 word \<Rightarrow> string \<Rightarrow> e_st \<Rightarrow> (e_st, unit) run" where
  "e_vtrace level sect msg s =
     (let s = CHK_INIT s in if CHK_LVL level s \<and> CHK_SECT sect s then e_vwarn msg s else Done () s)"

definition e_trace :: "int \<Rightarrow> 32 word \<Rightarrow> string \<Rightarrow> e_st \<Rightarrow> (e_st, unit) run" where
  "e_trace level sect msg s =
     (let s = CHK_INIT s in if CHK_LVL level s \<and> CHK_SECT sect s then e_vwarn msg s else Done () s)"

definition e_vtrace_log :: "int \<Rightarrow> 32 word \<Rightarrow> int \<Rightarrow> string \<Rightarrow> e_st \<Rightarrow> (e_st, unit) run" where
  "e_vtrace_log level sect prio msg s =
     (let s = CHK_INIT s in if CHK_LVL level s \<and> CHK_SECT sect s then e_vwarn_log prio msg s else Done () s)"

definition e_trace_log :: "int \<Rightarrow> 32 word \<Rightarrow> int \<Rightarrow> string \<Rightarrow> e_st \<Rightarrow> (e_st, unit) run" where
  "e_trace_log level sect prio msg s =
     (let s = CHK_INIT s in if CHK_LVL level s \<and> CHK_SECT sect s then e_vwarn_log prio msg s else Done () s)"

definition e_vtrace_file :: "int \<Rightarrow> 32 word \<Rightarrow> e_stream option \<Rightarrow> string \<Rightarrow> e_st \<Rightarrow> (e_st, unit) run" where
  "e_vtrace_file level sect fp msg s =
     (let s = CHK_INIT s in if CHK_LVL level s \<and> CHK_SECT sect s then e_vwarn_file fp msg s else Done () s)"

definition e_trace_file :: "int \<Rightarrow> 32 word \<Rightarrow> e_stream option \<Rightarrow> string \<Rightarrow> e_st \<Rightarrow> (e_st, unit) run" where
  "e_trace_file level sect fp msg s =
     (let s = CHK_INIT s in if CHK_LVL level s \<and> CHK_SECT sect s then e_vwarn_file fp msg s else Done () s)"

definition e_vtracex :: "int \<Rightarrow> 32 word \<Rightarrow> string \<Rightarrow> e_st \<Rightarrow> (e_st, unit) run" where
  "e_vtracex level sect msg s =
     (let s = CHK_INIT s in if CHK_LVL level s \<and> CHK_SECT sect s then e_vwarnx msg s else Done () s)"

definition e_tracex :: "int \<Rightarrow> 32 word \<Rightarrow> string \<Rightarrow> e_st \<Rightarrow> (e_st, unit) run" where
  "e_tracex level sect msg s =
     (let s = CHK_INIT s in if CHK_LVL level s \<and> CHK_SECT sect s then e_vwarnx msg s else Done () s)"

definition e_vtracex_log :: "int \<Rightarrow> 32 word \<Rightarrow> int \<Rightarrow> string \<Rightarrow> e_st \<Rightarrow> (e_st, unit) run" where
  "e_vtracex_log level sect prio msg s =
     (let s = CHK_INIT s in if CHK_LVL level s \<and> CHK_SECT sect s then e_vwarnx_log prio msg s else Done () s)"

definition e_tracex_log :: "int \<Rightarrow> 32 word \<Rightarrow> int \<Rightarrow> string \<Rightarrow> e_st \<Rightarrow> (e_st, unit) run" where
  "e_tracex_log level sect prio msg s =
     (let s = CHK_INIT s in if CHK_LVL level s \<and> CHK_SECT sect s then e_vwarnx_log prio msg s else Done () s)"

definition e_vtracex_file :: "int \<Rightarrow> 32 word \<Rightarrow> e_stream option \<Rightarrow> string \<Rightarrow> e_st \<Rightarrow> (e_st, unit) run" where
  "e_vtracex_file level sect fp msg s =
     (let s = CHK_INIT s in if CHK_LVL level s \<and> CHK_SECT sect s then e_vwarnx_file fp msg s else Done () s)"

definition e_tracex_file :: "int \<Rightarrow> 32 word \<Rightarrow> e_stream option \<Rightarrow> string \<Rightarrow> e_st \<Rightarrow> (e_st, unit) run" where
  "e_tracex_file level sect fp msg s =
     (let s = CHK_INIT s in if CHK_LVL level s \<and> CHK_SECT sect s then e_vwarnx_file fp msg s else Done () s)"

definition e_vlog :: "int \<Rightarrow> string \<Rightarrow> e_st \<Rightarrow> (e_st, unit) run" where
  "e_vlog level msg s =
     (let s = CHK_INIT s in if CHK_LVL level s then e_vwarn msg s else Done () s)"

definition e_log :: "int \<Rightarrow> string \<Rightarrow> e_st \<Rightarrow> (e_st, unit) run" where
  "e_log level msg s =
     (let s = CHK_INIT s in if CHK_LVL level s then e_vwarn msg s else Done () s)"

definition e_vlog_log :: "int \<Rightarrow> int \<Rightarrow> string \<Rightarrow> e_st \<Rightarrow> (e_st, unit) run" where
  "e_vlog_log level prio msg s =
     (let s = CHK_INIT s in if CHK_LVL level s then e_vwarn_log prio msg s else Done () s)"

definition e_log_log :: "int \<Rightarrow> int \<Rightarrow> string \<Rightarrow> e_st \<Rightarrow> (e_st, unit) run" where
  "e_log_log level prio msg s =
     (let s = CHK_INIT s in if CHK_LVL level s then e_vwarn_log prio msg s else Done () s)"

definition e_vlog_file :: "int \<Rightarrow> e_stream option \<Rightarrow> string \<Rightarrow> e_st \<Rightarrow> (e_st, unit) run" where
  "e_vlog_file level fp msg s =
     (let s = CHK_INIT s in if CHK_LVL level s then e_vwarn_file fp msg s else Done () s)"

definition e_log_file :: "int \<Rightarrow> e_stream option \<Rightarrow> string \<Rightarrow> e_st \<Rightarrow> (e_st, unit) run" where
  "e_log_file level fp msg s =
     (let s = CHK_INIT s in if CHK_LVL level s then e_vwarn_file fp msg s else Done () s)"

definition e_vlogx :: "int \<Rightarrow> string \<Rightarrow> e_st \<Rightarrow> (e_st, unit) run" where
  "e_vlogx level msg s =
     (let s = CHK_INIT s in if CHK_LVL level s then e_vwarnx msg s else Done () s)"

definition e_logx :: "int \<Rightarrow> string \<Rightarrow> e_st \<Rightarrow> (e_st, unit) run" where
  "e_logx level msg s =
     (let s = CHK_INIT s in if CHK_LVL level s then e_vwarnx msg s else Done () s)"

definition e_vlogx_log :: "int \<Rightarrow> int \<Rightarrow> string \<Rightarrow> e_st \<Rightarrow> (e_st, unit) run" where
  "e_vlogx_log level prio msg s =
     (let s = CHK_INIT s in if CHK_LVL level s then e_vwarnx_log prio msg s else Done () s)"

definition e_logx_log :: "int \<Rightarrow> int \<Rightarrow> string \<Rightarrow> e_st \<Rightarrow> (e_st, unit) run" where
  "e_logx_log level prio msg s =
     (let s = CHK_INIT s in if CHK_LVL level s then e_vwarnx_log prio msg s else Done () s)"

definition e_vlogx_file :: "int \<Rightarrow> e_stream option \<Rightarrow> string \<Rightarrow> e_st \<Rightarrow> (e_st, unit) run" where
  "e_vlogx_file level fp msg s =
     (let s = CHK_INIT s in if CHK_LVL level s then e_vwarnx_file fp msg s else Done () s)"

definition e_logx_file :: "int \<Rightarrow> e_stream option \<Rightarrow> string \<Rightarrow> e_st \<Rightarrow> (e_st, unit) run" where
  "e_logx_file level fp msg s =
     (let s = CHK_INIT s in if CHK_LVL level s then e_vwarnx_file fp msg s else Done () s)"

section \<open>What a message becomes\<close>

text \<open>The text a call makes, in terms of lists: the name, the message cut to the buffer, the error.\<close>

definition chop :: "char \<Rightarrow> string \<Rightarrow> string" where
  "chop c t = (if 1 < length t \<and> last t = c then butlast t else t)"

definition name_prefix :: "string option \<Rightarrow> string" where
  "name_prefix name = (case name of None \<Rightarrow> [] | Some n \<Rightarrow> n @ '': '')"

definition message :: "string option \<Rightarrow> string option \<Rightarrow> string \<Rightarrow> string" where
  "message name error msg =
     (let t = chop (CHR 0x0D) (chop (CHR 0x0A) (take (E_MAX_STR - 1) (name_prefix name @ msg))) in
      case error of None \<Rightarrow> t | Some e \<Rightarrow> take (E_MAX_STR - 1) (t @ '': '' @ e))"

definition no_nul :: "string \<Rightarrow> bool" where "no_nul t \<longleftrightarrow> NUL \<notin> set t"

lemma length_chop: "length (chop c t) \<le> length t"
  by (simp add: chop_def)

lemma no_nul_chop: "no_nul t \<Longrightarrow> no_nul (chop c t)"
  by (auto simp: no_nul_def chop_def dest: in_set_butlastD)

lemma no_nul_take: "no_nul t \<Longrightarrow> no_nul (take n t)"
  by (auto simp: no_nul_def dest: in_set_takeD)

lemma no_nul_append: "no_nul (s @ t) \<longleftrightarrow> no_nul s \<and> no_nul t"
  by (auto simp: no_nul_def)

lemma no_nul_lit: "no_nul '': ''" "no_nul ''usage: ''" "no_nul '' ''"
  by (simp_all add: no_nul_def NUL_def)

lemma length_prefix_Some: "length (name_prefix (Some n)) = length n + 2"
  by (simp add: name_prefix_def)

text \<open>A buffer of \<open>MAX_STR\<close> bytes that holds the text \<open>t\<close> and its terminator.\<close>

definition buf_holds :: "string \<Rightarrow> char arr \<Rightarrow> bool" where
  "buf_holds t buf \<longleftrightarrow> length buf = E_MAX_STR \<and> (\<exists>rest. buf = map Some t @ Some NUL # rest)"

lemma holds_length: "buf_holds t buf \<Longrightarrow> length t < E_MAX_STR"
  by (auto simp: buf_holds_def)

lemma snprintf_holds:
  assumes "length buf = E_MAX_STR" "take (length t) buf = map Some t" "length t < E_MAX_STR"
  shows "\<exists>b. snprintf_at buf (length t) (E_MAX_STR - length t) s = Ret b \<and> buf_holds (take (E_MAX_STR - 1) (t @ s)) b"
proof -
  let ?src = "take (E_MAX_STR - length t - 1) s @ [NUL]"
  have src: "length t + length ?src \<le> length buf" using assms by simp
  have eq: "take (E_MAX_STR - 1) (t @ s) = t @ take (E_MAX_STR - length t - 1) s" using assms by simp
  have "snprintf_at buf (length t) (E_MAX_STR - length t) s = Ret (map Some (t @ ?src) @ drop (length t + length ?src) buf)"
    using assms src by (simp add: snprintf_at_def arr_copy_def)
  moreover have "buf_holds (take (E_MAX_STR - 1) (t @ s)) (map Some (t @ ?src) @ drop (length t + length ?src) buf)"
    unfolding buf_holds_def eq using assms src by simp
  ultimately show ?thesis by blast
qed

lemma holds_take: "buf_holds t buf \<Longrightarrow> length buf = E_MAX_STR \<and> take (length t) buf = map Some t \<and> length t < E_MAX_STR"
  by (auto simp: buf_holds_def)

lemma snprintf_holds_next:
  "buf_holds t buf \<Longrightarrow> \<exists>b. snprintf_at buf (length t) (E_MAX_STR - length t) s = Ret b \<and> buf_holds (take (E_MAX_STR - 1) (t @ s)) b"
  using snprintf_holds holds_take by blast

lemma drop_tail_holds:
  assumes "buf_holds t buf"
  shows "\<exists>b. drop_tail c (buf, length t, E_MAX_STR - length t) = Ret (b, length (chop c t), E_MAX_STR - length (chop c t)) \<and>
    buf_holds (chop c t) b"
proof (cases "1 < length t")
  case False
  then show ?thesis using assms by (auto simp: drop_tail_def chop_def)
next
  case True
  then obtain u x where t: "t = u @ [x]" "u \<noteq> []"
    by (cases t rule: rev_cases) auto
  obtain rest where buf: "buf = map Some u @ Some x # Some NUL # rest" and len: "length buf = E_MAX_STR"
    using assms t by (auto simp: buf_holds_def)
  have get: "arr_get buf (length u) = Ret x" by (simp add: buf arr_get_def nth_append)
  have set: "arr_set buf (length u) NUL = Ret (map Some u @ Some NUL # Some NUL # rest)"
    by (simp add: buf list_update_append)
  show ?thesis
  proof (cases "x = c")
    case True
    have "buf_holds u (map Some u @ Some NUL # Some NUL # rest)" using len by (auto simp: buf_holds_def buf)
    moreover have "chop c t = u" using t True by (simp add: chop_def)
    moreover have "E_MAX_STR - length t + 1 = E_MAX_STR - length u" using len t by (simp add: buf)
    ultimately show ?thesis using t get set True by (simp add: drop_tail_def)
  next
    case False
    then show ?thesis using t get assms by (simp add: drop_tail_def chop_def)
  qed
qed

lemma arr_cstr_holds: "buf_holds t buf \<Longrightarrow> no_nul t \<Longrightarrow> arr_cstr buf = Ret t"
  by (auto simp: buf_holds_def no_nul_def arr_cstr_front)

lemma E_MAX_STR_pos [simp]: "0 < E_MAX_STR" "E_MAX_STR \<noteq> 0"
  by (simp_all add: E_MAX_STR_def)

lemma chop_tails:
  assumes "buf_holds t buf"
  shows "\<exists>b. bindO (drop_tail c (buf, length t, E_MAX_STR - length t)) (drop_tail d) =
      Ret (b, length (chop d (chop c t)), E_MAX_STR - length (chop d (chop c t))) \<and> buf_holds (chop d (chop c t)) b"
proof -
  obtain b where b: "drop_tail c (buf, length t, E_MAX_STR - length t) = Ret (b, length (chop c t), E_MAX_STR - length (chop c t))"
    "buf_holds (chop c t) b" using drop_tail_holds [OF assms] by blast
  show ?thesis using drop_tail_holds [OF b(2)] b(1) by simp
qed

text \<open>The part of \<open>e_buf_format\<close> behind the name.\<close>

lemma format_tail:
  fixes msg :: string
  assumes "length buf = E_MAX_STR" "take (length t) buf = map Some t" "length t < E_MAX_STR"
  defines "m \<equiv> take (E_MAX_STR - 1) (t @ msg)"
  shows "\<exists>b. snprintf_at buf (length t) (E_MAX_STR - length t) msg = Ret b \<and> buf_holds m b \<and>
    length t + (if E_MAX_STR - length t \<le> length msg then u32 (u64_sub (E_MAX_STR - length t) 1) else length msg) = length m \<and>
    u64_sub (E_MAX_STR - length t) (if E_MAX_STR - length t \<le> length msg then u32 (u64_sub (E_MAX_STR - length t) 1) else length msg) =
      E_MAX_STR - length m"
proof -
  have "u32 (u64_sub (E_MAX_STR - length t) 1) = E_MAX_STR - length t - 1"
    using assms(3) by (simp add: u64_sub_def u32_def E_MAX_STR_def)
  moreover obtain b where "snprintf_at buf (length t) (E_MAX_STR - length t) msg = Ret b" "buf_holds m b"
    using snprintf_holds [OF assms(1-3), of msg] unfolding m_def by blast
  ultimately show ?thesis using assms(3) by (auto simp: m_def u64_sub_def)
qed

lemma format_from:
  fixes msg :: string
  assumes "length buf = E_MAX_STR" "take (length t) buf = map Some t" "length t < E_MAX_STR"
  defines "u \<equiv> chop (CHR 0x0D) (chop (CHR 0x0A) (take (E_MAX_STR - 1) (t @ msg)))"
  shows "\<exists>b. bindO (snprintf_at buf (length t) (E_MAX_STR - length t) msg) (\<lambda>buf.
       let res = (if E_MAX_STR - length t \<le> length msg then u32 (u64_sub (E_MAX_STR - length t) 1) else length msg) in
       bindO (drop_tail (CHR 0x0A) (buf, length t + res, u64_sub (E_MAX_STR - length t) res)) (\<lambda>x.
         bindO (drop_tail (CHR 0x0D) x) (\<lambda>(buf, p, len).
           case error of None \<Rightarrow> Ret buf | Some e \<Rightarrow> snprintf_at buf p len ('': '' @ e)))) = Ret b \<and>
     buf_holds (case error of None \<Rightarrow> u | Some e \<Rightarrow> take (E_MAX_STR - 1) (u @ '': '' @ e)) b"
proof -
  obtain b where b: "snprintf_at buf (length t) (E_MAX_STR - length t) msg = Ret b"
    "buf_holds (take (E_MAX_STR - 1) (t @ msg)) b"
    "length t + (if E_MAX_STR - length t \<le> length msg then u32 (u64_sub (E_MAX_STR - length t) 1) else length msg) =
      length (take (E_MAX_STR - 1) (t @ msg))"
    "u64_sub (E_MAX_STR - length t) (if E_MAX_STR - length t \<le> length msg then u32 (u64_sub (E_MAX_STR - length t) 1) else length msg) =
      E_MAX_STR - length (take (E_MAX_STR - 1) (t @ msg))"
    using format_tail [OF assms(1-3), of msg] by blast
  obtain b' where b': "bindO (drop_tail (CHR 0x0A) (b, length (take (E_MAX_STR - 1) (t @ msg)), E_MAX_STR - length (take (E_MAX_STR - 1) (t @ msg))))
      (drop_tail (CHR 0x0D)) = Ret (b', length u, E_MAX_STR - length u)" "buf_holds u b'"
    using chop_tails [OF b(2)] unfolding u_def by blast
  show ?thesis
    unfolding Let_def b(1) bindO.simps(1) b(3) b(4) bindO_assoc [symmetric] b'(1) prod.case
    using b'(2) snprintf_holds_next [OF b'(2)] by (cases error) auto
qed

lemma format_ok:
  assumes "length (name_prefix name) < E_MAX_STR"
  shows "\<exists>b. e_buf_format (arr_alloc E_MAX_STR) E_MAX_STR name error msg = Ret b \<and> buf_holds (message name error msg) b"
proof (cases name)
  case None
  have start: "take (length []) (arr_alloc E_MAX_STR) = map Some []" "length ([] :: string) < E_MAX_STR" by simp_all
  show ?thesis
    using format_from [OF length_arr_alloc start, of msg error]
    by (simp only: e_buf_format_def message_def name_prefix_def None option.case Let_def bindO.simps prod.case list.size
        append_Nil diff_zero)
next
  case (Some n)
  obtain b where b: "snprintf_at (arr_alloc E_MAX_STR) 0 E_MAX_STR (n @ '': '') = Ret b" "buf_holds (n @ '': '') b"
    using snprintf_holds [of "arr_alloc E_MAX_STR" "[]" "n @ '': ''"] assms Some by (auto simp: name_prefix_def)
  have len: "u64_sub E_MAX_STR (length (n @ '': '')) = E_MAX_STR - length (n @ '': '')"
    using assms Some by (simp add: u64_sub_def name_prefix_def)
  show ?thesis
    using format_from [of b "n @ '': ''" msg error] holds_take [OF b(2)] Some
    unfolding e_buf_format_def message_def name_prefix_def Some option.case Let_def b(1) bindO.simps(1) len prod.case
    by blast
qed

lemma no_nul_message:
  assumes "no_nul (name_prefix name)" "no_nul msg" "\<And>e. error = Some e \<Longrightarrow> no_nul e"
  shows "no_nul (message name error msg)"
  using assms
  by (cases error) (simp_all only: message_def Let_def option.case no_nul_take no_nul_chop no_nul_append no_nul_lit simp_thms)

text \<open>A name that fills the buffer: the length that is left wraps around, and the next byte goes behind the buffer.\<close>

lemma snprintf_at_outside: "length buf \<le> p \<Longrightarrow> 0 < len \<Longrightarrow> snprintf_at buf p len s = Undef"
  by (auto simp: snprintf_at_def arr_copy_def)

lemma drop_tail_outside: "length buf < p \<Longrightarrow> 1 < p \<Longrightarrow> drop_tail c (buf, p, len) = Undef"
  by (auto simp: drop_tail_def arr_get_def)

lemma snprintf_at_length: "snprintf_at buf p len s = Ret b \<Longrightarrow> length b = length buf"
  by (auto simp: snprintf_at_def Let_def arr_copy_length split: if_splits)

lemma snprintf_at_cases: "(\<exists>b. snprintf_at buf p len s = Ret b \<and> length b = length buf) \<or> snprintf_at buf p len s = Undef"
  by (auto simp: snprintf_at_def Let_def arr_copy_def)

lemma format_overrun:
  assumes "E_MAX_STR \<le> length (name_prefix (Some n))" "length n < 2 ^ 32"
  shows "e_buf_format (arr_alloc E_MAX_STR) E_MAX_STR (Some n) error msg = Undef"
proof -
  let ?s = "n @ '': ''"
  have big: "E_MAX_STR \<le> length ?s" "length ?s < 2 ^ 33" using assms by (simp_all add: name_prefix_def)
  consider b where "snprintf_at (arr_alloc E_MAX_STR) 0 E_MAX_STR ?s = Ret b" "length b = E_MAX_STR"
    | "snprintf_at (arr_alloc E_MAX_STR) 0 E_MAX_STR ?s = Undef"
    using snprintf_at_cases by fastforce
  then show ?thesis
  proof cases
    case 1
    show ?thesis
    proof (cases "length ?s = E_MAX_STR")
      case True
      then have "u64_sub E_MAX_STR (length ?s) = 0" by (simp add: u64_sub_def)
      moreover have "drop_tail (CHR 0x0A) (b, length ?s + u32 (u64_sub 0 1), k) = Undef" for k
        using 1 True by (intro drop_tail_outside) (simp_all add: u32_def u64_sub_def E_MAX_STR_def)
      ultimately show ?thesis
        unfolding e_buf_format_def option.case Let_def 1(1) bindO.simps prod.case by (simp add: snprintf_at_def)
    next
      case False
      then have "0 < u64_sub E_MAX_STR (length ?s)" using big by (simp add: u64_sub_def E_MAX_STR_def)
      then have "snprintf_at b (length ?s) (u64_sub E_MAX_STR (length ?s)) msg = Undef"
        using 1 big by (intro snprintf_at_outside) simp_all
      then show ?thesis unfolding e_buf_format_def option.case Let_def 1(1) bindO.simps prod.case by simp
    qed
  next
    case 2
    show ?thesis unfolding e_buf_format_def option.case Let_def 2 bindO.simps by (rule refl)
  qed
qed

text \<open>
  C12. Every message is built without an access outside its buffer of 1024 bytes and is the name, the
  message and the error, cut to 1023 bytes with one line end taken off the message, as long as the name
  and its colon fit; a longer name makes the remaining length wrap around and the buffer overrun.
\<close>

theorem msg_text_exact:
  assumes "no_nul (name_prefix (e_pname s))" "no_nul msg" "no_nul (e_error s)" "length (name_prefix (e_pname s)) < 2 ^ 32"
  shows "msg_text s with_error msg =
    (if length (name_prefix (e_pname s)) < E_MAX_STR
     then Ret (message (e_pname s) (if with_error then Some (e_error s) else None) msg) else Undef)"
proof (cases "length (name_prefix (e_pname s)) < E_MAX_STR")
  case True
  let ?e = "if with_error then Some (e_error s) else None"
  obtain b where b: "e_buf_format (arr_alloc E_MAX_STR) E_MAX_STR (e_pname s) ?e msg = Ret b" "buf_holds (message (e_pname s) ?e msg) b"
    using format_ok [OF True] by blast
  have "no_nul (message (e_pname s) ?e msg)" using assms by (intro no_nul_message) (auto split: if_splits)
  then show ?thesis using True arr_cstr_holds [OF b(2)] unfolding msg_text_def b(1) by simp
next
  case False
  then obtain n where "e_pname s = Some n" by (cases "e_pname s") (simp_all add: name_prefix_def)
  then show ?thesis using format_overrun [of n] False assms(4) by (simp add: msg_text_def name_prefix_def)
qed

definition sample_err :: e_st where "sample_err = e_init (e_start ''spegla'' ''No such file'')"

lemma msg_text_exact_witness:
  "msg_text sample_err True (''open failed'' @ [CHR 0x0D, CHR 0x0A]) = Ret ''spegla: open failed: No such file''"
proof -
  have "message (Some ''spegla'') (Some ''No such file'') (''open failed'' @ [CHR 0x0D, CHR 0x0A]) = ''spegla: open failed: No such file''"
    by code_simp
  then show ?thesis
    using msg_text_exact [of sample_err "''open failed'' @ [CHR 0x0D, CHR 0x0A]" True]
    by (simp add: sample_err_def e_init_def e_start_def name_prefix_def no_nul_def NUL_def E_MAX_STR_def)
qed

section \<open>Where a message goes\<close>

definition after_colon :: "string \<Rightarrow> string" where
  "after_colon t = (if CHR '':'' \<in> set t then drop 2 (dropWhile (\<lambda>c. c \<noteq> CHR '':'') t) else t)"

text \<open>What the file relies on: strings without NUL bytes and a name that fits.\<close>

definition clean :: "e_st \<Rightarrow> bool" where
  "clean s \<longleftrightarrow> no_nul (name_prefix (e_pname s)) \<and> no_nul (e_error s) \<and> length (name_prefix (e_pname s)) < E_MAX_STR"

definition sent_file :: "e_stream option \<Rightarrow> string \<Rightarrow> e_st \<Rightarrow> e_st outcome" where
  "sent_file fp text s =
     (case fp of None \<Rightarrow> Undef
      | Some f \<Rightarrow> bindO (e_buf_file s text) (\<lambda>out. Ret (s\<lparr>e_written := e_written s @ [(f, out)]\<rparr>)))"

definition sent_log :: "int \<Rightarrow> string \<Rightarrow> e_st \<Rightarrow> e_st outcome" where
  "sent_log prio text s =
     (if CHR ''%'' \<in> set (after_colon text) then Undef
      else Ret (s\<lparr>e_syslog := e_syslog s @ [(prio, after_colon text)]\<rparr>))"

definition sent :: "string \<Rightarrow> e_st \<Rightarrow> e_st outcome" where
  "sent text s = (if e_use_f s then sent_file (e_fp s) text s else sent_log (e_log_prio s) text s)"

fun ends_with :: "int option \<Rightarrow> e_st outcome \<Rightarrow> (e_st, unit) run" where
  "ends_with None (Ret s) = Done () s"
| "ends_with (Some eval) (Ret s) = Quit eval s"
| "ends_with _ _ = Wrong"

lemma CHK_INIT_idem [simp]: "CHK_INIT (CHK_INIT s) = CHK_INIT s"
  by (simp add: CHK_INIT_def e_init_def)

lemma e_buf_log_eq: "e_buf_log t = (if CHR ''%'' \<in> set (after_colon t) then Undef else Ret (after_colon t))"
  by (simp add: e_buf_log_def after_colon_def Let_def)

lemma msg_text_clean:
  assumes "clean s" "no_nul msg"
  shows "msg_text s with_error msg = Ret (message (e_pname s) (if with_error then Some (e_error s) else None) msg)"
proof -
  have fits: "length (name_prefix (e_pname s)) < E_MAX_STR" using assms(1) by (simp add: clean_def)
  let ?e = "if with_error then Some (e_error s) else None"
  obtain b where b: "e_buf_format (arr_alloc E_MAX_STR) E_MAX_STR (e_pname s) ?e msg = Ret b" "buf_holds (message (e_pname s) ?e msg) b"
    using format_ok [OF fits] by blast
  have "no_nul (message (e_pname s) ?e msg)" using assms by (intro no_nul_message) (auto simp: clean_def split: if_splits)
  then show ?thesis using arr_cstr_holds [OF b(2)] unfolding msg_text_def b(1) by simp
qed

lemma nl_copy_cases: "nl_copy nl t = Undef \<or> (\<exists>out. nl_copy nl t = Ret out)"
  by (auto simp: nl_copy_def Let_def split: list.splits)

lemma e_buf_file_cases: "e_buf_file s t = Undef \<or> (\<exists>out. e_buf_file s t = Ret out)"
  using nl_copy_cases [of "e_newline s" t] by (auto simp: e_buf_file_def)

lemma msg_file_clean:
  assumes "clean s" "no_nul msg"
  shows "msg_file fp with_error msg s =
    ends_with None (sent_file fp (message (e_pname s) (if with_error then Some (e_error s) else None) msg) s)"
  using e_buf_file_cases [of s "message (e_pname s) (if with_error then Some (e_error s) else None) msg"]
  by (cases fp) (auto simp: msg_file_def msg_text_clean [OF assms] sent_file_def)

lemma msg_log_clean:
  assumes "clean s" "no_nul msg"
  shows "msg_log prio with_error msg s =
    ends_with None (sent_log prio (message (e_pname s) (if with_error then Some (e_error s) else None) msg) s)"
  by (simp add: msg_log_def msg_text_clean [OF assms] sent_log_def e_buf_log_eq)

lemma sent_file_cases: "sent_file fp text s = Undef \<or> (\<exists>t. sent_file fp text s = Ret t)"
  using e_buf_file_cases [of s "text"] by (cases fp) (auto simp: sent_file_def)

lemma sent_cases: "sent text s = Undef \<or> (\<exists>t. sent text s = Ret t)"
  using sent_file_cases [of "e_fp s" "text" s] by (auto simp: sent_def sent_log_def)

lemma ends_then_quit: "m = Undef \<or> (\<exists>t. m = Ret t) \<Longrightarrow> bindR (ends_with None m) (\<lambda>_ s. Quit eval s) = ends_with (Some eval) m"
  by auto

lemma fatal_once:
  assumes "clean (CHK_INIT s)" "no_nul msg"
  shows "bindR (if e_use_f (CHK_INIT s) then bindR (msg_file (e_fp (CHK_INIT s)) with_error msg (CHK_INIT s)) (\<lambda>_ s. Quit eval s)
      else Done () (CHK_INIT s)) (\<lambda>_ s. bindR (msg_log (e_log_prio s) with_error msg (CHK_INIT s)) (\<lambda>_ s. Quit eval s)) =
    ends_with (Some eval)
      (sent (message (e_pname (CHK_INIT s)) (if with_error then Some (e_error (CHK_INIT s)) else None) msg) (CHK_INIT s))"
  using sent_file_cases [of "e_fp (CHK_INIT s)" "message (e_pname (CHK_INIT s)) (if with_error then Some (e_error (CHK_INIT s)) else None) msg" "CHK_INIT s"]
  by (auto simp: msg_file_clean [OF assms] msg_log_clean [OF assms] sent_def sent_log_def)



lemma chop_prefix: "1 < length p \<Longrightarrow> last p \<noteq> c \<Longrightarrow> \<exists>u. chop c (p @ t) = p @ u"
  by (cases "t = []") (auto simp: chop_def butlast_append)

lemma message_keeps_name:
  assumes "length (name_prefix (Some n)) < E_MAX_STR"
  shows "\<exists>t. message (Some n) error msg = name_prefix (Some n) @ t"
proof -
  let ?p = "name_prefix (Some n)"
  have p: "1 < length ?p" "last ?p = CHR '' ''" by (simp_all add: name_prefix_def)
  have take: "take (E_MAX_STR - 1) (?p @ t) = ?p @ take (E_MAX_STR - 1 - length ?p) t" for t
    using assms by simp
  obtain u where "chop (CHR 0x0A) (?p @ take (E_MAX_STR - 1 - length ?p) msg) = ?p @ u"
    using chop_prefix [OF p(1)] p(2) by force
  moreover obtain v where "chop (CHR 0x0D) (?p @ u) = ?p @ v"
    using chop_prefix [OF p(1)] p(2) by force
  moreover have "take (E_MAX_STR - 1) ((?p @ v) @ '': '' @ e) = ?p @ take (E_MAX_STR - 1 - length ?p) (v @ '': '' @ e)" for e
    unfolding append_assoc by (rule take)
  ultimately show ?thesis
    unfolding message_def take Let_def by (cases error) (simp_all only: option.case, blast+)
qed

lemma after_colon_prefix: "CHR '':'' \<notin> set n \<Longrightarrow> after_colon (n @ '': '' @ t) = t"
  by (induction n) (auto simp: after_colon_def)

text \<open>
  The system log adds the name itself: of a message with a name that has no colon it gets the text
  behind the name, whole, under the given priority; a percent sign in that text is taken for a format.
\<close>

theorem e_log_strips_name:
  assumes "clean (CHK_INIT s)" "no_nul msg" "e_pname (CHK_INIT s) = Some n" "CHR '':'' \<notin> set n"
  shows "\<exists>t. message (Some n) None msg = n @ '': '' @ t \<and>
    e_warnx_log prio msg s =
      (if CHR ''%'' \<in> set t then Wrong
       else Done () ((CHK_INIT s)\<lparr>e_syslog := e_syslog (CHK_INIT s) @ [(prio, t)]\<rparr>))"
proof -
  obtain t where t: "message (Some n) None msg = n @ '': '' @ t"
    using message_keeps_name [of n None msg] assms(1,3) by (auto simp: clean_def name_prefix_def)
  have "e_warnx_log prio msg s = ends_with None (sent_log prio (n @ '': '' @ t) (CHK_INIT s))"
    using msg_log_clean [OF assms(1,2), of prio False] assms(3) t by (simp add: e_warnx_log_def e_vwarnx_log_def)
  then show ?thesis using t after_colon_prefix [OF assms(4)] by (auto simp: sent_log_def)
qed

lemma e_log_strips_name_witness:
  "e_warnx_log 5 ''a: b'' sample_err = Done () (sample_err\<lparr>e_syslog := [(5, ''a: b'')]\<rparr>)"
proof -
  have "message (Some ''spegla'') None ''a: b'' = ''spegla'' @ '': '' @ ''a: b''" by code_simp
  then show ?thesis
    using e_log_strips_name [of sample_err "''a: b''" "''spegla''" 5]
    by (auto simp: sample_err_def CHK_INIT_def e_init_def e_start_def name_prefix_def no_nul_def NUL_def E_MAX_STR_def clean_def)
qed

text \<open>Without a name the text up to the first colon of the message itself is lost.\<close>

lemma e_log_loses_text:
  "e_warnx_log 5 ''b.c: not found'' (e_set_progname None sample_err) =
    Done () (sample_err\<lparr>e_pname := None, e_syslog := [(5, ''not found'')]\<rparr>)"
proof -
  have "message None None ''b.c: not found'' = ''b.c: not found''" "after_colon ''b.c: not found'' = ''not found''"
    by code_simp+
  then show ?thesis
    using msg_log_clean [of "e_set_progname None sample_err" "''b.c: not found''" 5 False]
    by (simp add: sample_err_def CHK_INIT_def e_init_def e_start_def name_prefix_def no_nul_def NUL_def E_MAX_STR_def clean_def
        e_set_progname_def e_warnx_log_def e_vwarnx_log_def sent_log_def)
qed

text \<open>The growth of a text when its line ends are replaced, against the room that is counted for it.\<close>

lemma length_nl_replace:
  "int (length (nl_replace nl (c # s))) =
     int (length (c # s)) + (if c = CHR 0x0A then int (length nl) - 1 else 0) + nl_extra (int (length nl)) c s"
proof (induction nl "c # s" arbitrary: c s rule: nl_replace.induct)
  case (2 nl c)
  then show ?case by simp
next
  case (3 nl c d s)
  show ?case
  proof (cases "c \<noteq> CHR 0x0A \<and> c = CHR 0x0D \<and> d = CHR 0x0A")
    case True
    show ?thesis
    proof (cases s)
      case (Cons e s')
      then show ?thesis using 3(2) True by simp
    qed (use True in simp)
  next
    case False
    then show ?thesis using 3(1,3) by auto
  qed
qed

text \<open>
  The copy of a message with other line ends fits the memory counted for it exactly when the line
  end has two bytes or more and the message does not start with a newline; an empty message is read
  behind its end.
\<close>

theorem nl_copy_exact:
  "nl_copy nl buf =
     (if buf \<noteq> [] \<and> hd buf \<noteq> CHR 0x0A \<and> 2 \<le> length nl then Ret (nl_replace nl buf) else Undef)"
proof (cases buf)
  case Nil
  then show ?thesis by (simp add: nl_copy_def)
next
  case (Cons c s)
  then show ?thesis using length_nl_replace [of nl c s] by (auto simp: nl_copy_def Let_def)
qed

end
