(* ===== verification/Tgetopt.thy ===== *)
theory Tgetopt
  imports Paths
begin

text \<open>
  The option parser tgetopt.c: options from the command line, from the environment and from
  a section of a configuration file, one per call of \<open>tgetopt\<close>.
\<close>

section \<open>Data\<close>

datatype go_want_arg = NO_ARG | REQ_ARG | OPT_ARG

text \<open>An entry of the option table; the entry with a \<open>NULL\<close> name is the end of the list.\<close>

record get_opt =
  go_opt_num :: int
  go_name :: string
  go_sname :: char
  go_want_arg :: go_want_arg

definition MAX_STR :: nat where "MAX_STR = 1024"

definition GOS_OK :: int where "GOS_OK = 0"
definition GOS_ARG_REQ :: int where "GOS_ARG_REQ = 1"
definition GOS_END_OF_OPTIONS :: int where "GOS_END_OF_OPTIONS = 2"
definition GOS_UNKNOWN_OPTION :: int where "GOS_UNKNOWN_OPTION = 3"
definition GOS_DONT_ACCEPT :: int where "GOS_DONT_ACCEPT = 4"
definition GOS_END_OF_ARG_MARK :: int where "GOS_END_OF_ARG_MARK = 5"
definition GOS_EREAD :: int where "GOS_EREAD = 6"
definition GOS_SYNTAX_E :: int where "GOS_SYNTAX_E = 7"
definition GOS_SYNTAX_ES :: int where "GOS_SYNTAX_ES = 8"
definition GOS_EONLY_FILE :: int where "GOS_EONLY_FILE = 10"
definition GOS_ERRNO :: int where "GOS_ERRNO = 11"

datatype gos_kind = GOS_ARGV | GOS_FILE | GOS_ENV

text \<open>A stream: all it holds, what is left to read, and whether reading at its end is an error.\<close>

record stream =
  f_all :: string
  f_rest :: string
  f_err :: bool

text \<open>
  The state of a parser. \<open>gos_buf\<close> is the array of \<open>MAX_STR\<close> bytes, with what older lines left
  behind the terminator. \<open>gos_argv\<close> and \<open>gos_env_ep\<close> are what is left of the arrays. The buffer of
  messages and the copy of \<open>errno\<close> are left out.
\<close>

record get_opt_state =
  gos_go :: "get_opt list"
  gos_buf :: string
  gos_errno :: int
  gos_last_opt :: int
  gos_last_arg :: "string option"
  gos_last_long :: bool
  gos_type :: gos_kind
  gos_fp :: stream
  gos_path :: string
  gos_pos :: int
  gos_in_sect :: bool
  gos_argc :: int
  gos_argv :: "string list"
  gos_optind :: nat
  gos_prefix :: string
  gos_env_ep :: "string list"

section \<open>Tokens\<close>

text \<open>The C string at the start of an array, and a checked read.\<close>

definition cstr :: "string \<Rightarrow> string" where
  "cstr buf = takeWhile (\<lambda>b. b \<noteq> NUL) buf"

definition rd :: "string \<Rightarrow> nat \<Rightarrow> char outcome" where
  "rd buf i = (if i < length buf then Ret (buf ! i) else Undef)"

definition in_set :: "string \<Rightarrow> char \<Rightarrow> bool" where
  "in_set s c \<longleftrightarrow> c \<in> set s"

definition white_space :: string where "white_space = [CHR '' '', CHR 0x09]"
definition delimiters :: string where "delimiters = ''#!=:,''"
definition comment :: string where "comment = ''#!''"

text \<open>\<open>ADD_TOK\<close>; the token lives in a static array of \<open>MAX_STR\<close> bytes.\<close>

definition add_tok :: "string \<Rightarrow> char \<Rightarrow> string outcome" where
  "add_tok tok c = (if length tok < MAX_STR then Ret (tok @ [c]) else Undef)"

definition escaped :: "char \<Rightarrow> char" where
  "escaped c =
     (if c = CHR ''a'' then CHR 0x07 else if c = CHR ''b'' then CHR 0x08 else if c = CHR ''f'' then CHR 0x0C
      else if c = CHR ''n'' then CHR 0x0A else if c = CHR ''r'' then CHR 0x0D else if c = CHR ''t'' then CHR 0x09
      else if c = CHR ''v'' then CHR 0x0B else c)"

text \<open>A backslash at the end of the line adds the terminator and steps over it.\<close>

function copy_out_loop :: "string \<Rightarrow> nat \<Rightarrow> string \<Rightarrow> (string \<times> nat) outcome" where
  "copy_out_loop buf b tok =
     bindO (rd buf b) (\<lambda>c.
       if c = NUL \<or> c = CHR 0x22 then Ret (tok, b)
       else if c = CHR 0x5C
       then bindO (rd buf (b + 1)) (\<lambda>d. bindO (add_tok tok (escaped d)) (\<lambda>tok. copy_out_loop buf (b + 2) tok))
       else bindO (add_tok tok c) (\<lambda>tok. copy_out_loop buf (b + 1) tok))"
  by pat_completeness auto
termination
  by (relation "measure (\<lambda>(buf, b, tok). length buf - b)") (auto simp: rd_def split: if_splits)

declare copy_out_loop.simps [simp del]

definition copy_out_string :: "string \<Rightarrow> string \<Rightarrow> nat \<Rightarrow> (string \<times> nat) outcome" where
  "copy_out_string buf tok b =
     bindO (rd buf b) (\<lambda>c.
       if c \<noteq> CHR 0x22 then Ret (tok, b)
       else bindO (copy_out_loop buf (b + 1) tok) (\<lambda>(tok, b).
         bindO (rd buf b) (\<lambda>c. Ret (tok, if c \<noteq> NUL then b + 1 else b))))"

function skip_white :: "string \<Rightarrow> nat \<Rightarrow> nat outcome" where
  "skip_white buf b = bindO (rd buf b) (\<lambda>c. if in_set white_space c then skip_white buf (b + 1) else Ret b)"
  by pat_completeness auto
termination
  by (relation "measure (\<lambda>(buf, b). length buf - b)") (auto simp: rd_def split: if_splits)

declare skip_white.simps [simp del]

lemma copy_out_loop_ge: "copy_out_loop buf b tok = Ret (tok', b') \<Longrightarrow> b \<le> b'"
proof (induction buf b tok rule: copy_out_loop.induct)
  case (1 buf b tok)
  show ?case
    using 1(3) [unfolded copy_out_loop.simps [of buf b tok]] 1(1,2) by (fastforce split: if_splits)
qed

lemma copy_out_string_ge: "copy_out_string buf tok b = Ret (tok', b') \<Longrightarrow> b \<le> b'"
  by (fastforce simp: copy_out_string_def split: if_splits dest: copy_out_loop_ge)

text \<open>
  The body of a token. After a string in quotes the loop steps over one more byte, whatever it
  is.
\<close>

function token_loop :: "string \<Rightarrow> nat \<Rightarrow> string \<Rightarrow> (string \<times> nat) outcome" where
  "token_loop buf b tok =
     bindO (rd buf b) (\<lambda>c.
       if c = NUL \<or> in_set white_space c then Ret (tok, b)
       else if c = CHR 0x22
       then bindO (copy_out_string buf tok b) (\<lambda>(tok, b). token_loop buf (b + 1) tok)
       else if in_set delimiters c then Ret (tok, b)
       else bindO (add_tok tok c) (\<lambda>tok. token_loop buf (b + 1) tok))"
  by pat_completeness auto
termination
  by (relation "measure (\<lambda>(buf, b, tok). length buf - b)")
    (auto simp: rd_def split: if_splits dest!: copy_out_string_ge)

declare token_loop.simps [simp del]

text \<open>The token as a C string with the new position, \<open>None\<close> at the end of the line.\<close>

definition next_token :: "string \<Rightarrow> int \<Rightarrow> (string option \<times> int) outcome" where
  "next_token buf pos =
     (if pos < 0 then Ret (None, pos)
      else bindO (rd buf (nat pos)) (\<lambda>c.
        if c = NUL then Ret (None, - 1)
        else bindO (skip_white buf (nat pos)) (\<lambda>b. bindO (rd buf b) (\<lambda>c.
          if c = NUL then Ret (None, - 1)
          else bindO (if in_set delimiters c then Ret ([c], b + 1) else token_loop buf b [])
            (\<lambda>(tok, b). bindO (add_tok tok NUL) (\<lambda>tok. Ret (Some (cstr tok), int b)))))))"

section \<open>Initialisation\<close>

definition no_stream :: stream where
  "no_stream = \<lparr>f_all = [], f_rest = [], f_err = False\<rparr>"

text \<open>The memory of \<open>calloc\<close>.\<close>

definition gos_zero :: get_opt_state where
  "gos_zero = \<lparr>gos_go = [], gos_buf = replicate MAX_STR NUL, gos_errno = 0, gos_last_opt = 0, gos_last_arg = None,
     gos_last_long = False, gos_type = GOS_ARGV, gos_fp = no_stream, gos_path = [], gos_pos = 0,
     gos_in_sect = False, gos_argc = 0, gos_argv = [], gos_optind = 0, gos_prefix = [], gos_env_ep = []\<rparr>"

definition tgetopt_argv_init :: "bool \<Rightarrow> string list \<Rightarrow> get_opt list \<Rightarrow> get_opt_state option" where
  "tgetopt_argv_init ok argv go =
     (if ok then Some (gos_zero\<lparr>gos_argc := int (length argv), gos_argv := argv, gos_go := go, gos_type := GOS_ARGV\<rparr>)
      else None)"

definition tgetopt_env_init ::
  "bool \<Rightarrow> string list \<Rightarrow> string \<Rightarrow> string option \<Rightarrow> get_opt list \<Rightarrow> get_opt_state option" where
  "tgetopt_env_init ok environ progname prefix go =
     (if ok then Some (gos_zero\<lparr>gos_prefix := (case prefix of None \<Rightarrow> progname | Some p \<Rightarrow> p), gos_go := go,
        gos_env_ep := environ, gos_type := GOS_ENV, gos_last_long := True\<rparr>)
      else None)"

definition tgetopt_file_init :: "bool \<Rightarrow> stream \<Rightarrow> string option \<Rightarrow> get_opt list \<Rightarrow> get_opt_state option" where
  "tgetopt_file_init ok fp path go =
     (if ok then Some (gos_zero\<lparr>gos_fp := fp, gos_go := go, gos_last_opt := - 1, gos_pos := - 1,
        gos_last_long := True, gos_path := (case path of None \<Rightarrow> [] | Some p \<Rightarrow> p),
        gos_in_sect := (path = None \<or> path = Some []), gos_type := GOS_FILE\<rparr>)
      else None)"

definition tgetopt_change_go :: "get_opt_state \<Rightarrow> get_opt list \<Rightarrow> get_opt_state" where
  "tgetopt_change_go gos go = gos\<lparr>gos_go := go\<rparr>"

definition tgetopt_errno :: "get_opt_state \<Rightarrow> int" where
  "tgetopt_errno gos = gos_errno gos"

definition tgetopt_argv_get :: "get_opt_state \<Rightarrow> int \<times> string list" where
  "tgetopt_argv_get gos = (gos_argc gos, gos_argv gos)"

section \<open>Options\<close>

text \<open>
  A call returns the C result, the new values of \<open>*option\<close> and \<open>*arg\<close> and the state. An argument
  from a file points into the static token, which the next call overwrites; here it is the
  value at the return.
\<close>

type_synonym opt_result = "(int \<times> int \<times> string option \<times> get_opt_state) outcome"

definition opt_ret :: "int \<Rightarrow> string option \<Rightarrow> get_opt_state \<Rightarrow> opt_result" where
  "opt_ret option arg gos = Ret (0, option, arg, gos\<lparr>gos_last_opt := option, gos_last_arg := arg\<rparr>)"

definition opt_err :: "int \<Rightarrow> int \<Rightarrow> string option \<Rightarrow> get_opt_state \<Rightarrow> opt_result" where
  "opt_err err option arg gos =
     Ret (- 1, option, arg, gos\<lparr>gos_last_opt := option, gos_last_arg := arg, gos_errno := err\<rparr>)"

text \<open>The first entry from position \<open>i\<close> on that satisfies \<open>P\<close>, with its index.\<close>

fun go_find :: "(get_opt \<Rightarrow> bool) \<Rightarrow> get_opt list \<Rightarrow> nat \<Rightarrow> (nat \<times> get_opt) option" where
  "go_find P [] i = None"
| "go_find P (g # gs) i = (if P g then Some (i, g) else go_find P gs (Suc i))"

definition to_lower :: "char \<Rightarrow> char" where
  "to_lower c = (let n = of_char c :: nat in if 65 \<le> n \<and> n \<le> 90 then char_of (n + 32) else c)"

definition strncasecmp_eq :: "string \<Rightarrow> string \<Rightarrow> bool" where
  "strncasecmp_eq s t \<longleftrightarrow> map to_lower (take (length s) t) = map to_lower s"

text \<open>The loops over the environment; \<open>env_entry\<close> is the body for one variable.\<close>

definition env_entry :: "string \<Rightarrow> get_opt list \<Rightarrow> string \<Rightarrow> (nat \<times> string option) option" where
  "env_entry prefix go p =
     (if strncasecmp_eq prefix p \<and> ch p (length prefix) = CHR ''_''
      then let p = drop (length prefix + 1) p in
        case go_find (\<lambda>g. strncasecmp_eq (go_name g) p \<and> ch p (length (go_name g)) = CHR ''='') go 0 of
          None \<Rightarrow> None
        | Some (i, g) \<Rightarrow> (let arg = drop (length (go_name g) + 1) p in Some (i, if arg = [] then None else Some arg))
      else None)"

fun env_loop :: "string \<Rightarrow> get_opt list \<Rightarrow> string list \<Rightarrow> ((nat \<times> string option) \<times> string list) option" where
  "env_loop prefix go [] = None"
| "env_loop prefix go (p # ep) =
     (case env_entry prefix go p of Some x \<Rightarrow> Some (x, ep) | None \<Rightarrow> env_loop prefix go ep)"

definition get_opt_env :: "get_opt_state \<Rightarrow> int \<Rightarrow> string option \<Rightarrow> opt_result" where
  "get_opt_env gos option arg =
     (if gos_errno gos \<noteq> GOS_OK then Ret (- 1, option, arg, gos)
      else case env_loop (gos_prefix gos) (gos_go gos) (gos_env_ep gos) of
        Some ((i, arg), ep) \<Rightarrow> Ret (0, int i, arg, gos\<lparr>gos_env_ep := ep\<rparr>)
      | None \<Rightarrow> Ret (- 1, option, arg, gos\<lparr>gos_errno := GOS_END_OF_OPTIONS\<rparr>))"

text \<open>An option letter of the cluster \<open>larg\<close>, the argument vector standing at it.\<close>

definition short_opt :: "string \<Rightarrow> get_opt_state \<Rightarrow> int \<Rightarrow> string option \<Rightarrow> opt_result" where
  "short_opt larg gos option arg =
     (let i = gos_optind gos; gos = gos\<lparr>gos_last_long := False\<rparr> in
      case go_find (\<lambda>g. go_sname g \<noteq> CHR ''?'' \<and> ch larg i = go_sname g) (gos_go gos) 0 of
        None \<Rightarrow> opt_err GOS_UNKNOWN_OPTION (- 1) (Some (cstr [ch larg i]))
          (gos\<lparr>gos_buf := (gos_buf gos)[0 := ch larg i, 1 := NUL]\<rparr>)
      | Some (lopt, g) \<Rightarrow>
        if go_want_arg g = NO_ARG
        then opt_ret (int lopt) None (gos\<lparr>gos_optind := if ch larg (i + 1) = NUL then 0 else i + 1\<rparr>)
        else if ch larg (i + 1) \<noteq> NUL
        then opt_ret (int lopt) (Some (drop (i + 1) larg)) (gos\<lparr>gos_optind := 0\<rparr>)
        else if 1 < gos_argc gos
        then (case gos_argv gos of
            a # b # argv \<Rightarrow>
              if ch b 0 \<noteq> CHR ''-''
              then opt_ret (int lopt) (Some b) (gos\<lparr>gos_argc := gos_argc gos - 1, gos_argv := b # argv, gos_optind := 0\<rparr>)
              else if go_want_arg g = REQ_ARG then opt_err GOS_ARG_REQ (int lopt) None gos
              else opt_ret (int lopt) None (gos\<lparr>gos_optind := 0\<rparr>)
          | _ \<Rightarrow> Undef)
        else if go_want_arg g = REQ_ARG then opt_err GOS_ARG_REQ (int lopt) None gos
        else opt_ret (int lopt) None (gos\<lparr>gos_optind := 0\<rparr>))"

text \<open>
  A long option, \<open>larg\<close> without its two dashes; \<open>None\<close> if no name fits.
\<close>

definition long_opt :: "string \<Rightarrow> get_opt_state \<Rightarrow> opt_result option" where
  "long_opt larg gos =
     (case go_find (\<lambda>g. is_prefix (go_name g) larg \<and>
               (ch larg (length (go_name g)) = CHR ''='' \<or> ch larg (length (go_name g)) = NUL)) (gos_go gos) 0 of
        None \<Rightarrow> None
      | Some (lopt, g) \<Rightarrow>
        Some (if ch larg (length (go_name g)) = CHR ''=''
          then let arg = Some (drop (length (go_name g) + 1) larg) in
            if go_want_arg g = NO_ARG then opt_err GOS_DONT_ACCEPT (int lopt) arg gos
            else opt_ret (int lopt) arg gos
          else if go_want_arg g = REQ_ARG then opt_err GOS_ARG_REQ (int lopt) None gos
          else opt_ret (int lopt) None gos))"

text \<open>\<open>larg\<close> is read before \<open>gos_argc\<close> is looked at; behind the \<open>NULL\<close> of the vector that is undefined.\<close>

definition get_opt_argv :: "get_opt_state \<Rightarrow> int \<Rightarrow> string option \<Rightarrow> opt_result" where
  "get_opt_argv gos option arg =
     (if gos_errno gos \<noteq> GOS_OK then Ret (- 1, option, arg, gos)
      else let gos = gos\<lparr>gos_last_long := True\<rparr> in
        if gos_optind gos \<noteq> 0
        then (case gos_argv gos of [] \<Rightarrow> Undef | larg # _ \<Rightarrow> short_opt larg gos option arg)
        else (case gos_argv gos of [] \<Rightarrow> Undef
          | _ # argv \<Rightarrow>
            (let gos = gos\<lparr>gos_argc := gos_argc gos - 1, gos_argv := argv\<rparr> in
             if gos_argc gos = 0 then Ret (- 1, option, arg, gos\<lparr>gos_errno := GOS_END_OF_OPTIONS\<rparr>)
             else case argv of [] \<Rightarrow> Undef
             | larg # argv \<Rightarrow>
               if larg = ''--''
               then Ret (- 1, option, arg, gos\<lparr>gos_argc := gos_argc gos - 1, gos_argv := argv, gos_errno := GOS_END_OF_ARG_MARK\<rparr>)
               else let dashes = (ch larg 0 = CHR ''-'' \<and> ch larg 1 = CHR ''-'') in
                 (case (if dashes then long_opt (drop 2 larg) gos else None) of
                   Some r \<Rightarrow> r
                 | None \<Rightarrow>
                   (let larg' = (if dashes then drop 2 larg else larg) in
                    if ch larg' 0 = CHR ''-'' \<and> ch larg' 1 \<noteq> NUL
                    then short_opt larg (gos\<lparr>gos_optind := 1\<rparr>) option arg
                    else opt_err GOS_UNKNOWN_OPTION (- 1) (Some larg') gos)))))"

section \<open>Configuration files\<close>

text \<open>\<open>fgets\<close> into the buffer, and the removal of the newline.\<close>

definition put_line :: "string \<Rightarrow> string \<Rightarrow> string" where
  "put_line line buf =
     (let buf = line @ [NUL] @ drop (length line + 1) buf; len = length (cstr buf) in
      if len \<noteq> 0 \<and> buf ! (len - 1) = CHR 0x0A then buf[len - 1 := NUL] else buf)"

definition no_token :: "string option \<Rightarrow> bool" where
  "no_token tok \<longleftrightarrow> (case tok of None \<Rightarrow> True | Some t \<Rightarrow> in_set comment (ch t 0))"

text \<open>An option without an argument, and one with the argument \<open>tok\<close>.\<close>

definition file_no_arg :: "nat \<Rightarrow> get_opt \<Rightarrow> get_opt_state \<Rightarrow> string option \<Rightarrow> opt_result" where
  "file_no_arg lopt g gos arg =
     (if go_want_arg g \<noteq> REQ_ARG then Ret (0, int lopt, None, gos\<lparr>gos_last_arg := None\<rparr>)
      else Ret (- 1, int lopt, arg, gos\<lparr>gos_errno := GOS_ARG_REQ\<rparr>))"

definition file_arg :: "nat \<Rightarrow> get_opt \<Rightarrow> string \<Rightarrow> get_opt_state \<Rightarrow> opt_result" where
  "file_arg lopt g tok gos =
     (let gos = gos\<lparr>gos_last_arg := Some tok\<rparr> in
      if go_want_arg g = NO_ARG then Ret (- 1, int lopt, Some tok, gos\<lparr>gos_errno := GOS_DONT_ACCEPT\<rparr>)
      else Ret (0, int lopt, Some tok, gos))"

text \<open>The rest of a row after the name of an option.\<close>

definition file_first_arg :: "nat \<Rightarrow> get_opt \<Rightarrow> get_opt_state \<Rightarrow> string option \<Rightarrow> opt_result" where
  "file_first_arg lopt g gos arg =
     bindO (next_token (gos_buf gos) (gos_pos gos)) (\<lambda>(tok, pos).
       let gos = gos\<lparr>gos_pos := pos\<rparr> in
       if no_token tok then file_no_arg lopt g gos arg
       else if \<not> in_set ''=:'' (ch (the tok) 0) then Ret (- 1, int lopt, arg, gos\<lparr>gos_errno := GOS_SYNTAX_E\<rparr>)
       else bindO (next_token (gos_buf gos) pos) (\<lambda>(tok, pos).
         let gos = gos\<lparr>gos_pos := pos\<rparr> in
         if no_token tok then file_no_arg lopt g gos arg else file_arg lopt g (the tok) gos))"

text \<open>The loop over the rows up to the next option: what happens from the label \<open>restart\<close> on.\<close>

function file_row :: "get_opt_state \<Rightarrow> int \<Rightarrow> string option \<Rightarrow> opt_result" where
  "file_row gos option arg =
     (case fgets MAX_STR (f_rest (gos_fp gos)) of
        None \<Rightarrow> Ret (- 1, option, arg,
          gos\<lparr>gos_pos := 0, gos_errno := if f_err (gos_fp gos) then GOS_EREAD else GOS_END_OF_OPTIONS\<rparr>)
      | Some (line, rest) \<Rightarrow>
        let buf = put_line line (gos_buf gos);
            gos = gos\<lparr>gos_buf := buf, gos_fp := (gos_fp gos)\<lparr>f_rest := rest\<rparr>\<rparr> in
        bindO (next_token buf 0) (\<lambda>(tok, pos).
          if no_token tok then file_row gos option arg
          else bindO
            (if ch (the tok) 0 = CHR ''[''
             then if last (the tok) \<noteq> CHR '']'' then Ret (True, pos, tok, gos_in_sect gos)
               else let in_sect = (gos_path gos = butlast (tl (the tok))) in
                 bindO (next_token buf pos) (\<lambda>(tok, pos). Ret (False, pos, tok, in_sect))
             else Ret (False, pos, tok, gos_in_sect gos))
            (\<lambda>(bad, pos, tok, in_sect).
              let gos = gos\<lparr>gos_pos := pos, gos_in_sect := in_sect\<rparr> in
              if bad then Ret (- 1, option, arg, gos\<lparr>gos_errno := GOS_SYNTAX_ES\<rparr>)
              else if no_token tok \<or> \<not> in_sect then file_row gos option arg
              else case go_find (\<lambda>g. go_name g = the tok) (gos_go gos) 0 of
                None \<Rightarrow> Ret (- 1, option, tok, gos\<lparr>gos_last_arg := tok, gos_errno := GOS_UNKNOWN_OPTION\<rparr>)
              | Some (lopt, g) \<Rightarrow> file_first_arg lopt g (gos\<lparr>gos_last_opt := int lopt\<rparr>) arg)))"
  by pat_completeness auto
termination
  by (relation "measure (\<lambda>(gos, option, arg). length (f_rest (gos_fp gos)))")
    (auto simp: MAX_STR_def dest!: fgets_shorter)

declare file_row.simps [simp del]

definition get_opt_file :: "get_opt_state \<Rightarrow> int \<Rightarrow> string option \<Rightarrow> opt_result" where
  "get_opt_file gos option arg =
     (if gos_errno gos \<noteq> GOS_OK then Ret (- 1, option, arg, gos)
      else if gos_pos gos < 0 then file_row gos option arg
      else if gos_last_opt gos < 0 \<or> int (length (gos_go gos)) \<le> gos_last_opt gos then Undef
      else let lopt = nat (gos_last_opt gos) in
        bindO (next_token (gos_buf gos) (gos_pos gos)) (\<lambda>(tok, pos).
          let gos = gos\<lparr>gos_pos := pos\<rparr> in
          if no_token tok then file_row gos (int lopt) arg
          else file_arg lopt (gos_go gos ! lopt) (the tok) gos))"

definition tgetopt :: "get_opt_state \<Rightarrow> int \<Rightarrow> string option \<Rightarrow> opt_result" where
  "tgetopt gos option arg =
     (case gos_type gos of
        GOS_ARGV \<Rightarrow> get_opt_argv gos option arg
      | GOS_FILE \<Rightarrow> get_opt_file gos option arg
      | GOS_ENV \<Rightarrow> get_opt_env gos option arg)"

section \<open>The sections of a file\<close>

definition SECT_CHUNK :: nat where "SECT_CHUNK = 20"

record sects =
  s_num :: nat
  s_last :: nat
  s_p :: "string arr"

definition sect_init :: "bool \<Rightarrow> bool \<Rightarrow> sects option" where
  "sect_init ok1 ok2 =
     (if ok1 \<and> ok2 then Some \<lparr>s_num = SECT_CHUNK, s_last = 0, s_p = arr_alloc SECT_CHUNK\<rparr> else None)"

definition sect_add :: "bool \<Rightarrow> sects \<Rightarrow> string \<Rightarrow> sects outcome" where
  "sect_add ok s str =
     bindO (if s_num s < s_last s
            then if \<not> ok then Err ENOMEM
              else Ret (s\<lparr>s_num := s_num s * 2, s_p := arr_realloc (s_p s) (s_num s * 2)\<rparr>)
            else Ret s)
       (\<lambda>s. bindO (arr_set (s_p s) (s_last s) str) (\<lambda>p. Ret (s\<lparr>s_p := p, s_last := s_last s + 1\<rparr>)))"

text \<open>The loop over the file; \<open>Inl\<close> is the error \<open>GOS_SYNTAX_ES\<close>. Allocations succeed.\<close>

function sections_loop :: "string \<Rightarrow> string \<Rightarrow> sects \<Rightarrow> (unit + sects) outcome" where
  "sections_loop f buf s =
     (case fgets MAX_STR f of None \<Rightarrow> Ret (Inr s)
      | Some (line, rest) \<Rightarrow>
        let buf = put_line line buf in
        bindO (next_token buf 0) (\<lambda>(tok, pos).
          case tok of
            Some t \<Rightarrow>
              if ch t 0 \<noteq> CHR ''['' then sections_loop rest buf s
              else if last t \<noteq> CHR '']'' then Ret (Inl ())
              else bindO (sect_add True s (tl (butlast t))) (\<lambda>s. sections_loop rest buf s)
          | None \<Rightarrow> sections_loop rest buf s))"
  by pat_completeness auto
termination
  by (relation "measure (\<lambda>(f, buf, s). length f)") (auto simp: MAX_STR_def dest!: fgets_shorter)

declare sections_loop.simps [simp del]

text \<open>
  The vector of names that is returned, \<open>None\<close> for \<open>NULL\<close>. The local buffer \<open>buf\<close> holds anything at
  first. The position in the file is restored, so the stream stays as it is; \<open>gos_errno\<close> is left at
  \<open>GOS_ERRNO\<close> even when all went well.
\<close>

definition tgetopt_sections :: "string \<Rightarrow> get_opt_state \<Rightarrow> (string list option \<times> get_opt_state) outcome" where
  "tgetopt_sections buf gos =
     (if gos_type gos \<noteq> GOS_FILE then Ret (None, gos\<lparr>gos_errno := GOS_EONLY_FILE\<rparr>)
      else case sect_init True True of None \<Rightarrow> Ret (None, gos\<lparr>gos_errno := GOS_ERRNO\<rparr>)
      | Some s \<Rightarrow>
        bindO (sections_loop (f_all (gos_fp gos)) buf s) (\<lambda>r.
          case r of Inl _ \<Rightarrow> Ret (None, gos\<lparr>gos_errno := GOS_SYNTAX_ES\<rparr>)
          | Inr s \<Rightarrow>
            if list_all (\<lambda>x. x \<noteq> None) (take (s_last s) (s_p s))
            then Ret (Some (map the (take (s_last s) (s_p s))), gos\<lparr>gos_errno := GOS_ERRNO\<rparr>)
            else Undef))"

section \<open>What a call of \<open>tgetopt\<close> returns\<close>

text \<open>
  The contract the option loop of the program relies on: a result 0 comes with an index of the
  table, an argument where the option requires one and none where it takes none; any other
  result is \<open>-1\<close> and leaves an error code.
\<close>

definition opt_sound :: "get_opt list \<Rightarrow> int \<times> int \<times> string option \<times> get_opt_state \<Rightarrow> bool" where
  "opt_sound go r = (case r of (res, option, arg, gos) \<Rightarrow>
     gos_go gos = go \<and>
     (res = 0 \<and> gos_errno gos = GOS_OK \<and> 0 \<le> option \<and> option < int (length go) \<and>
        (go_want_arg (go ! nat option) = REQ_ARG \<longrightarrow> arg \<noteq> None) \<and>
        (go_want_arg (go ! nat option) = NO_ARG \<longrightarrow> arg = None)
      \<or> res = - 1 \<and> gos_errno gos \<noteq> GOS_OK))"

named_theorems gos_codes

lemma gos_codes_distinct [gos_codes]:
  "GOS_ARG_REQ \<noteq> GOS_OK" "GOS_END_OF_OPTIONS \<noteq> GOS_OK" "GOS_UNKNOWN_OPTION \<noteq> GOS_OK" "GOS_DONT_ACCEPT \<noteq> GOS_OK"
  "GOS_END_OF_ARG_MARK \<noteq> GOS_OK" "GOS_EREAD \<noteq> GOS_OK" "GOS_SYNTAX_E \<noteq> GOS_OK" "GOS_SYNTAX_ES \<noteq> GOS_OK"
  by (simp_all add: GOS_OK_def GOS_ARG_REQ_def GOS_END_OF_OPTIONS_def GOS_UNKNOWN_OPTION_def GOS_DONT_ACCEPT_def
      GOS_END_OF_ARG_MARK_def GOS_EREAD_def GOS_SYNTAX_E_def GOS_SYNTAX_ES_def)

lemma go_find_Some:
  "go_find P gs i = Some (j, g) \<Longrightarrow> i \<le> j \<and> j < i + length gs \<and> gs ! (j - i) = g \<and> P g"
proof (induction gs arbitrary: i)
  case (Cons x gs)
  show ?case
  proof (cases "P x")
    case False
    then have "Suc i \<le> j \<and> j < Suc i + length gs \<and> gs ! (j - Suc i) = g \<and> P g"
      using Cons.IH [of "Suc i"] Cons.prems by simp
    then show ?thesis by (auto simp: nth_Cons' Suc_diff_le)
  qed (use Cons in auto)
qed simp

lemma go_find_0: "go_find P gs 0 = Some (j, g) \<Longrightarrow> j < length gs \<and> gs ! j = g \<and> P g"
  using go_find_Some [of P gs 0] by auto

lemma opt_ret_sound [outcome_rules]:
  "gos_errno gos = GOS_OK \<Longrightarrow> gos_go gos = go \<Longrightarrow> lopt < length go \<Longrightarrow>
   (go_want_arg (go ! lopt) = REQ_ARG \<longrightarrow> arg \<noteq> None) \<Longrightarrow> (go_want_arg (go ! lopt) = NO_ARG \<longrightarrow> arg = None) \<Longrightarrow>
   outcome_inv (opt_sound go) (opt_ret (int lopt) arg gos)"
  by (auto simp: opt_ret_def opt_sound_def)

lemma opt_err_sound [outcome_rules]:
  "err \<noteq> GOS_OK \<Longrightarrow> gos_go gos = go \<Longrightarrow> outcome_inv (opt_sound go) (opt_err err option arg gos)"
  by (auto simp: opt_err_def opt_sound_def)

lemma opt_neg_sound [outcome_rules]:
  "gos_errno gos \<noteq> GOS_OK \<Longrightarrow> gos_go gos = go \<Longrightarrow> outcome_inv (opt_sound go) (Ret (- 1, option, arg, gos))"
  by (auto simp: opt_sound_def)

lemma opt_Undef_sound [outcome_rules]: "outcome_inv P Undef"
  by simp

lemma short_opt_sound [outcome_rules]:
  "gos_errno gos = GOS_OK \<Longrightarrow> gos_go gos = go \<Longrightarrow> outcome_inv (opt_sound go) (short_opt larg gos option arg)"
  unfolding short_opt_def by (intro outcome_rules; auto simp: gos_codes dest!: go_find_0)

lemma long_opt_sound:
  assumes "gos_errno gos = GOS_OK" "gos_go gos = go" "long_opt larg gos = Some r"
  shows "outcome_inv (opt_sound go) r"
proof -
  obtain lopt g where "go_find (\<lambda>g. is_prefix (go_name g) larg \<and>
      (ch larg (length (go_name g)) = CHR ''='' \<or> ch larg (length (go_name g)) = NUL)) (gos_go gos) 0 = Some (lopt, g)"
    using assms(3) by (auto simp: long_opt_def split: option.splits)
  from this go_find_0 [OF this] show ?thesis
    using assms by (auto simp: long_opt_def Let_def gos_codes split: if_splits intro!: opt_ret_sound opt_err_sound)
qed

lemma get_opt_argv_sound [outcome_rules]: "gos_go gos = go \<Longrightarrow> outcome_inv (opt_sound go) (get_opt_argv gos option arg)"
  unfolding get_opt_argv_def
  by (intro outcome_rules; auto simp: gos_codes split: if_splits elim!: long_opt_sound [rotated 2])

lemma file_arg_sound [outcome_rules]:
  "gos_errno gos = GOS_OK \<Longrightarrow> gos_go gos = go \<Longrightarrow> lopt < length go \<Longrightarrow> g = go ! lopt \<Longrightarrow>
   outcome_inv (opt_sound go) (file_arg lopt g tok gos)"
  by (simp add: file_arg_def Let_def opt_sound_def gos_codes)

lemma file_no_arg_sound [outcome_rules]:
  "gos_errno gos = GOS_OK \<Longrightarrow> gos_go gos = go \<Longrightarrow> lopt < length go \<Longrightarrow> g = go ! lopt \<Longrightarrow>
   outcome_inv (opt_sound go) (file_no_arg lopt g gos arg)"
  by (simp add: file_no_arg_def opt_sound_def gos_codes)

lemma file_first_arg_sound [outcome_rules]:
  "gos_errno gos = GOS_OK \<Longrightarrow> gos_go gos = go \<Longrightarrow> lopt < length go \<Longrightarrow> g = go ! lopt \<Longrightarrow>
   outcome_inv (opt_sound go) (file_first_arg lopt g gos arg)"
  unfolding file_first_arg_def by (intro outcome_rules; simp add: gos_codes)

lemma file_row_sound [outcome_rules]:
  "gos_errno gos = GOS_OK \<Longrightarrow> gos_go gos = go \<Longrightarrow> outcome_inv (opt_sound go) (file_row gos option arg)"
proof (induction gos option arg rule: file_row.induct)
  case (1 gos option arg)
  show ?case
    unfolding file_row.simps [of gos option arg]
    by (intro outcome_rules "1.IH"; (assumption | rule refl)?; auto simp: "1.prems" gos_codes dest!: go_find_0)
qed

lemma get_opt_file_sound [outcome_rules]: "gos_go gos = go \<Longrightarrow> outcome_inv (opt_sound go) (get_opt_file gos option arg)"
  unfolding get_opt_file_def by (intro outcome_rules; auto simp: gos_codes nat_less_iff)

section \<open>Reading all options\<close>

text \<open>The options up to the first \<open>-1\<close>, as the program reads them.\<close>

fun opt_run :: "nat \<Rightarrow> get_opt_state \<Rightarrow> ((int \<times> string option) list \<times> get_opt_state) outcome" where
  "opt_run 0 gos = Undef"
| "opt_run (Suc n) gos =
     bindO (tgetopt gos 0 None) (\<lambda>(res, option, arg, gos).
       if res < 0 then Ret ([], gos)
       else bindO (opt_run n gos) (\<lambda>(xs, gos). Ret ((option, arg) # xs, gos)))"

declare opt_run.simps [simp del]

lemma opt_run_step:
  "tgetopt gos 0 None = Ret (0, option, arg, gos') \<Longrightarrow> opt_run n gos' = Ret (xs, gos'') \<Longrightarrow>
   opt_run (Suc n) gos = Ret ((option, arg) # xs, gos'')"
  by (simp add: opt_run.simps)

lemma opt_run_end: "tgetopt gos 0 None = Ret (- 1, option, arg, gos') \<Longrightarrow> opt_run (Suc n) gos = Ret ([], gos')"
  by (simp add: opt_run.simps)

section \<open>Command lines\<close>

text \<open>
  The ways to write an option: \<open>--name\<close>, \<open>--name=arg\<close>, \<open>-x arg\<close>, \<open>-xarg\<close>, and a cluster \<open>-xyz\<close> of options
  without arguments. Options are given by their index in the table.
\<close>

datatype item = Long nat "string option" | Sep nat string | Joined nat string | Cluster "nat list"

fun item_args :: "get_opt list \<Rightarrow> item \<Rightarrow> string list" where
  "item_args go (Long i None) = [''--'' @ go_name (go ! i)]"
| "item_args go (Long i (Some a)) = [''--'' @ go_name (go ! i) @ ''='' @ a]"
| "item_args go (Sep i a) = [[CHR ''-'', go_sname (go ! i)], a]"
| "item_args go (Joined i a) = [[CHR ''-'', go_sname (go ! i)] @ a]"
| "item_args go (Cluster is) = [CHR ''-'' # map (\<lambda>i. go_sname (go ! i)) is]"

fun item_opts :: "item \<Rightarrow> (int \<times> string option) list" where
  "item_opts (Long i a) = [(int i, a)]"
| "item_opts (Sep i a) = [(int i, Some a)]"
| "item_opts (Joined i a) = [(int i, Some a)]"
| "item_opts (Cluster is) = map (\<lambda>i. (int i, None)) is"

text \<open>A table whose names and letters are unambiguous, and the items that fit it.\<close>

definition table_ok :: "get_opt list \<Rightarrow> bool" where
  "table_ok go \<longleftrightarrow> distinct (map go_name go) \<and> distinct (filter (\<lambda>c. c \<noteq> CHR ''?'') (map go_sname go)) \<and>
     list_all (\<lambda>g. go_name g \<noteq> [] \<and> CHR ''='' \<notin> set (go_name g) \<and> NUL \<notin> set (go_name g) \<and>
       go_sname g \<noteq> NUL \<and> go_sname g \<noteq> CHR ''-'') go"

definition takes_arg :: "get_opt list \<Rightarrow> nat \<Rightarrow> string \<Rightarrow> bool" where
  "takes_arg go i a \<longleftrightarrow> i < length go \<and> go_want_arg (go ! i) \<noteq> NO_ARG \<and> NUL \<notin> set a"

definition has_letter :: "get_opt list \<Rightarrow> nat \<Rightarrow> bool" where
  "has_letter go i \<longleftrightarrow> i < length go \<and> go_sname (go ! i) \<noteq> CHR ''?''"

fun item_ok :: "get_opt list \<Rightarrow> item \<Rightarrow> bool" where
  "item_ok go (Long i None) = (i < length go \<and> go_want_arg (go ! i) \<noteq> REQ_ARG)"
| "item_ok go (Long i (Some a)) = takes_arg go i a"
| "item_ok go (Sep i a) = (takes_arg go i a \<and> has_letter go i \<and> ch a 0 \<noteq> CHR ''-'')"
| "item_ok go (Joined i a) = (takes_arg go i a \<and> has_letter go i \<and> a \<noteq> [])"
| "item_ok go (Cluster is) = (is \<noteq> [] \<and> list_all (\<lambda>i. has_letter go i \<and> go_want_arg (go ! i) = NO_ARG) is)"

lemma go_find_unique:
  "P (go ! i) \<Longrightarrow> i < length go \<Longrightarrow> (\<And>j. j < length go \<Longrightarrow> P (go ! j) \<Longrightarrow> j = i) \<Longrightarrow>
   go_find P go k = Some (k + i, go ! i)"
proof (induction go arbitrary: i k)
  case (Cons g go)
  show ?case
  proof (cases i)
    case 0
    then show ?thesis using Cons.prems by simp
  next
    case (Suc m)
    have "\<not> P g" using Cons.prems(3) [of 0] Suc by auto
    moreover have "go_find P go (Suc k) = Some (Suc k + m, go ! m)"
    proof (rule Cons.IH)
      show "j = m" if "j < length go" "P (go ! j)" for j using Cons.prems(3) [of "Suc j"] that Suc by simp
    qed (use Cons.prems Suc in auto)
    ultimately show ?thesis using Suc by simp
  qed
qed simp

lemma find_letter:
  assumes "table_ok go" "has_letter go i"
  shows "go_find (\<lambda>g. go_sname g \<noteq> CHR ''?'' \<and> go_sname (go ! i) = go_sname g) go 0 = Some (i, go ! i)"
proof -
  have "j = i" if j: "j < length go" "go_sname (go ! j) = go_sname (go ! i)" for j
  proof (rule ccontr)
    assume "j \<noteq> i"
    define a b where "a = min i j" and "b = max i j"
    have ab: "a < b" "b < length go" "go_sname (go ! a) = go_sname (go ! b)" "go_sname (go ! a) \<noteq> CHR ''?''"
      using \<open>j \<noteq> i\<close> j assms(2) by (auto simp: a_def b_def has_letter_def min_def max_def)
    let ?f = "filter (\<lambda>c. c \<noteq> CHR ''?'')" and ?s = "map go_sname go"
    have "?s = take b ?s @ (?s ! b) # drop (Suc b) ?s" using id_take_nth_drop [of b ?s] ab(2) by simp
    then have "?f ?s = ?f (take b ?s) @ ?f ((?s ! b) # drop (Suc b) ?s)" by (metis filter_append)
    moreover have "?s ! b \<in> set (?f (take b ?s))"
      using ab by (auto simp: in_set_conv_nth intro!: exI [of _ a])
    moreover have "?s ! b \<in> set (?f ((?s ! b) # drop (Suc b) ?s))" using ab by simp
    ultimately show False using assms(1) by (auto simp: table_ok_def)
  qed
  then show ?thesis
    using go_find_unique [of "\<lambda>g. go_sname g \<noteq> CHR ''?'' \<and> go_sname (go ! i) = go_sname g" go i 0] assms(2)
    by (simp add: has_letter_def)
qed

lemma ch_append: "ch (s @ t) i = (if i < length s then s ! i else ch t (i - length s))"
  by (auto simp: ch_def nth_append)

lemma is_prefix_iff: "is_prefix s t \<longleftrightarrow> take (length s) t = s"
  by (induction s t rule: is_prefix.induct) auto

lemma find_name:
  assumes "table_ok go" "i < length go" "rest = [] \<or> hd rest = CHR ''=''"
  shows "go_find (\<lambda>g. is_prefix (go_name g) (go_name (go ! i) @ rest) \<and>
      (ch (go_name (go ! i) @ rest) (length (go_name g)) = CHR ''='' \<or>
       ch (go_name (go ! i) @ rest) (length (go_name g)) = NUL)) go 0 = Some (i, go ! i)"
proof -
  let ?n = "go_name (go ! i)"
  let ?P = "\<lambda>g. is_prefix (go_name g) (?n @ rest) \<and>
      (ch (?n @ rest) (length (go_name g)) = CHR ''='' \<or> ch (?n @ rest) (length (go_name g)) = NUL)"
  have clean: "CHR ''='' \<notin> set (go_name (go ! j))" "NUL \<notin> set (go_name (go ! j))" if "j < length go" for j
    using assms(1) that by (auto simp: table_ok_def list_all_length)
  have "?P (go ! i)" using assms(3) by (cases rest) (auto simp: is_prefix_iff ch_def nth_append NUL_def)
  moreover have "j = i" if j: "j < length go" "?P (go ! j)" for j
  proof -
    let ?m = "go_name (go ! j)"
    have "\<not> length ?m < length ?n"
    proof
      assume less: "length ?m < length ?n"
      then have "?n ! length ?m = CHR ''='' \<or> ?n ! length ?m = NUL" using j(2) by (simp add: ch_append)
      then show False using clean [OF assms(2)] nth_mem [OF less] by metis
    qed
    moreover have pre: "take (length ?m) (?n @ rest) = ?m" using j(2) by (simp add: is_prefix_iff)
    moreover have "\<not> length ?n < length ?m"
    proof
      assume less: "length ?n < length ?m"
      then have "?m ! length ?n = (?n @ rest) ! length ?n" using pre by (metis nth_take)
      moreover have "rest \<noteq> []" using pre less by auto
      ultimately have "?m ! length ?n = CHR ''=''" using assms(3) by (cases rest) (auto simp: nth_append)
      then show False using clean(1) [OF j(1)] less nth_mem by metis
    qed
    ultimately have "?m = ?n" by (metis append_eq_conv_conj linorder_neqE_nat)
    then show "j = i"
      using assms(1,2) j(1) by (auto simp: table_ok_def distinct_conv_nth)
  qed
  ultimately show ?thesis using go_find_unique [of ?P go i 0] assms(2) by simp
qed

text \<open>The parser between two words of the command line, \<open>rest\<close> still to be read.\<close>

definition at_word :: "get_opt list \<Rightarrow> string list \<Rightarrow> get_opt_state \<Rightarrow> bool" where
  "at_word go rest gos \<longleftrightarrow> gos_go gos = go \<and> gos_type gos = GOS_ARGV \<and> gos_errno gos = GOS_OK \<and> gos_optind gos = 0 \<and>
     (\<exists>w. gos_argv gos = w # rest) \<and> gos_argc gos = 1 + int (length rest)"

lemma run_end:
  "at_word go [] gos \<Longrightarrow> \<exists>gos'. opt_run (Suc n) gos = Ret ([], gos') \<and> gos_errno gos' = GOS_END_OF_OPTIONS"
  by (rule exI, rule conjI, rule opt_run_end) (auto simp: at_word_def tgetopt_def get_opt_argv_def Let_def)

lemma run_long:
  assumes "table_ok go" "item_ok go (Long i a)" "at_word go (item_args go (Long i a) @ rest) gos"
  shows "\<exists>gos'. tgetopt gos 0 None = Ret (0, int i, a, gos') \<and> at_word go rest gos'"
proof -
  let ?n = "go_name (go ! i)"
  have i: "i < length go" and ne: "?n \<noteq> []"
    using assms(1,2) by (cases a; auto simp: takes_arg_def table_ok_def list_all_length)+
  define r where "r = (case a of None \<Rightarrow> [] | Some a \<Rightarrow> ''='' @ a)"
  have args: "item_args go (Long i a) = [''--'' @ ?n @ r]" by (cases a) (auto simp: r_def)
  obtain w where w: "gos_argv gos = w # (''--'' @ ?n @ r) # rest"
    using assms(3) by (auto simp: at_word_def args)
  have find: "go_find (\<lambda>g. is_prefix (go_name g) (?n @ r) \<and>
      (ch (?n @ r) (length (go_name g)) = CHR ''='' \<or> ch (?n @ r) (length (go_name g)) = NUL)) go 0 = Some (i, go ! i)"
    using find_name [OF assms(1) i, of r] by (cases a) (auto simp: r_def)
  have ch: "ch (?n @ r) (length ?n) = (if a = None then NUL else CHR ''='')"
    by (cases a) (auto simp: r_def ch_def NUL_def)
  let ?g = "gos\<lparr>gos_last_long := True, gos_argc := 1 + int (length rest), gos_argv := (''--'' @ ?n @ r) # rest\<rparr>"
  have "long_opt (?n @ r) ?g = Some (opt_ret (int i) a ?g)"
    using find ch assms(2,3)
    by (cases a) (auto simp: long_opt_def at_word_def takes_arg_def r_def NUL_def)
  then have "tgetopt gos 0 None = opt_ret (int i) a ?g"
    using assms(3) w ne by (auto simp: tgetopt_def get_opt_argv_def at_word_def args Let_def ch_def)
  then show ?thesis using assms(3) w by (auto simp: opt_ret_def at_word_def args)
qed

text \<open>The parser at the letter with index \<open>k\<close> of the word \<open>w\<close>.\<close>

definition at_letter :: "get_opt list \<Rightarrow> string \<Rightarrow> nat \<Rightarrow> string list \<Rightarrow> get_opt_state \<Rightarrow> bool" where
  "at_letter go w k rest gos \<longleftrightarrow> gos_go gos = go \<and> gos_type gos = GOS_ARGV \<and> gos_errno gos = GOS_OK \<and> gos_optind gos = k \<and>
     0 < k \<and> gos_argv gos = w # rest \<and> gos_argc gos = 1 + int (length rest)"

lemma letter_step: "at_letter go w k rest gos \<Longrightarrow> tgetopt gos 0 None = short_opt w (gos\<lparr>gos_last_long := True\<rparr>) 0 None"
  by (simp add: at_letter_def tgetopt_def get_opt_argv_def Let_def)

text \<open>A word that starts with a single dash is read at its first letter.\<close>

lemma word_step:
  assumes "at_word go ((CHR ''-'' # w) # rest) gos" "w \<noteq> []" "hd w \<noteq> CHR ''-''" "hd w \<noteq> NUL"
  shows "\<exists>g. at_letter go (CHR ''-'' # w) 1 rest g \<and> tgetopt gos 0 None = short_opt (CHR ''-'' # w) g 0 None"
proof -
  obtain c w' where w: "w = c # w'" using assms(2) by (cases w) auto
  obtain v where v: "gos_argv gos = v # (CHR ''-'' # w) # rest" using assms(1) by (auto simp: at_word_def)
  let ?g = "gos\<lparr>gos_last_long := True, gos_argc := 1 + int (length rest), gos_argv := (CHR ''-'' # w) # rest, gos_optind := 1\<rparr>"
  have "tgetopt gos 0 None = short_opt (CHR ''-'' # w) ?g 0 None"
    using assms v w by (simp add: tgetopt_def get_opt_argv_def at_word_def Let_def ch_def)
  moreover have "at_letter go (CHR ''-'' # w) 1 rest ?g"
    using assms(1) v by (simp add: at_word_def at_letter_def)
  ultimately show ?thesis by blast
qed

lemma letter_char:
  assumes "table_ok go" "has_letter go i"
  shows "go_sname (go ! i) \<noteq> CHR ''-''" "go_sname (go ! i) \<noteq> NUL"
  using assms by (auto simp: table_ok_def has_letter_def list_all_length)

text \<open>What one letter does.\<close>

lemma short_flag:
  assumes "table_ok go" "has_letter go i" "go_want_arg (go ! i) = NO_ARG" "at_letter go w k rest gos"
    "k < length w" "w ! k = go_sname (go ! i)" "NUL \<notin> set w"
  shows "\<exists>g. short_opt w gos 0 None = Ret (0, int i, None, g) \<and>
    (if Suc k = length w then at_word go rest g else at_letter go w (Suc k) rest g)"
proof -
  have "ch w (Suc k) = NUL \<longleftrightarrow> Suc k = length w"
    using assms(5,7) by (auto simp: ch_def NUL_def in_set_conv_nth)
  moreover have "ch w k = go_sname (go ! i)" using assms(5,6) by (simp add: ch_def)
  ultimately show ?thesis
    using find_letter [OF assms(1,2)] assms(3,4)
    by (auto simp: short_opt_def at_letter_def at_word_def opt_ret_def Let_def)
qed

lemma short_joined:
  assumes "table_ok go" "has_letter go i" "go_want_arg (go ! i) \<noteq> NO_ARG" "a \<noteq> []" "NUL \<notin> set a"
    "at_letter go (CHR ''-'' # go_sname (go ! i) # a) 1 rest gos"
  shows "\<exists>g. short_opt (CHR ''-'' # go_sname (go ! i) # a) gos 0 None = Ret (0, int i, Some a, g) \<and> at_word go rest g"
  using find_letter [OF assms(1,2)] assms(3-6)
  by (cases a) (auto simp: short_opt_def at_letter_def at_word_def opt_ret_def Let_def ch_def)

lemma short_sep:
  assumes "table_ok go" "has_letter go i" "go_want_arg (go ! i) \<noteq> NO_ARG" "ch a 0 \<noteq> CHR ''-''"
    "at_letter go [CHR ''-'', go_sname (go ! i)] 1 (a # rest) gos"
  shows "\<exists>g. short_opt [CHR ''-'', go_sname (go ! i)] gos 0 None = Ret (0, int i, Some a, g) \<and> at_word go rest g"
  using find_letter [OF assms(1,2)] assms(3-5)
  by (auto simp: short_opt_def at_letter_def at_word_def opt_ret_def Let_def ch_def NUL_def)

lemma run_cluster:
  assumes "table_ok go" "at_letter go w k rest gos" "k < length w" "NUL \<notin> set w"
    "drop k w = map (\<lambda>i. go_sname (go ! i)) is" "list_all (\<lambda>i. has_letter go i \<and> go_want_arg (go ! i) = NO_ARG) is"
    "\<And>g. at_word go rest g \<Longrightarrow> \<exists>g'. opt_run m g = Ret (xs, g') \<and> P g'"
  shows "\<exists>g'. opt_run (length is + m) gos = Ret (map (\<lambda>i. (int i, None)) is @ xs, g') \<and> P g'"
  using assms(2,3,5,6)
proof (induction "is" arbitrary: k gos)
  case (Cons i "is")
  have i: "has_letter go i" "go_want_arg (go ! i) = NO_ARG" and rest: "drop (Suc k) w = map (\<lambda>i. go_sname (go ! i)) is"
    and at: "w ! k = go_sname (go ! i)"
    using Cons.prems by (auto simp: Cons_nth_drop_Suc [symmetric])
  have "at_letter go w k rest (gos\<lparr>gos_last_long := True\<rparr>)" using Cons.prems(1) by (simp add: at_letter_def)
  then obtain g where g: "tgetopt gos 0 None = Ret (0, int i, None, g)"
    "if Suc k = length w then at_word go rest g else at_letter go w (Suc k) rest g"
    using short_flag [OF assms(1) i _ Cons.prems(2) at assms(4)] letter_step [OF Cons.prems(1)] by force
  have "\<exists>g'. opt_run (length is + m) g = Ret (map (\<lambda>i. (int i, None)) is @ xs, g') \<and> P g'"
  proof (cases "Suc k = length w")
    case True
    then have "is = []" using rest by simp
    then show ?thesis using g(2) True assms(7) by simp
  next
    case False
    then show ?thesis using g(2) Cons.prems rest by (intro Cons.IH [of "Suc k"]) auto
  qed
  then show ?case using opt_run_step [OF g(1)] by auto
qed (use assms in auto)

text \<open>One item, followed by anything that is read from the next word on.\<close>

lemma run_item:
  assumes "table_ok go" "item_ok go it" "at_word go (item_args go it @ rest) gos"
    "\<And>g. at_word go rest g \<Longrightarrow> \<exists>g'. opt_run m g = Ret (xs, g') \<and> P g'"
  shows "\<exists>g'. opt_run (length (item_opts it) + m) gos = Ret (item_opts it @ xs, g') \<and> P g'"
proof (cases it)
  case (Long i a)
  obtain g where "tgetopt gos 0 None = Ret (0, int i, a, g)" "at_word go rest g"
    using run_long [OF assms(1) assms(2,3) [unfolded Long]] by blast
  then show ?thesis using assms(4) [of g] opt_run_step by (fastforce simp: Long)
next
  case (Sep i a)
  have ok: "has_letter go i" "go_want_arg (go ! i) \<noteq> NO_ARG" "ch a 0 \<noteq> CHR ''-''"
    using assms(2) by (auto simp: Sep takes_arg_def)
  have w: "at_word go ((CHR ''-'' # [go_sname (go ! i)]) # a # rest) gos" using assms(3) by (simp add: Sep)
  obtain g where "tgetopt gos 0 None = Ret (0, int i, Some a, g)" "at_word go rest g"
    using word_step [OF w] letter_char [OF assms(1) ok(1)] short_sep [OF assms(1) ok] by fastforce
  then show ?thesis using assms(4) [of g] opt_run_step by (fastforce simp: Sep)
next
  case (Joined i a)
  have ok: "has_letter go i" "go_want_arg (go ! i) \<noteq> NO_ARG" "a \<noteq> []" "NUL \<notin> set a"
    using assms(2) by (auto simp: Joined takes_arg_def)
  have w: "at_word go ((CHR ''-'' # go_sname (go ! i) # a) # rest) gos" using assms(3) by (simp add: Joined)
  obtain g where "tgetopt gos 0 None = Ret (0, int i, Some a, g)" "at_word go rest g"
    using word_step [OF w] letter_char [OF assms(1) ok(1)] short_joined [OF assms(1) ok] by fastforce
  then show ?thesis using assms(4) [of g] opt_run_step by (fastforce simp: Joined)
next
  case (Cluster "is")
  obtain i is' where is': "is = i # is'" and ok: "list_all (\<lambda>i. has_letter go i \<and> go_want_arg (go ! i) = NO_ARG) is"
    using assms(2) by (cases "is") (auto simp: Cluster)
  let ?w = "map (\<lambda>i. go_sname (go ! i)) is"
  have nul: "NUL \<notin> set (CHR ''-'' # ?w)"
    using ok letter_char(2) [OF assms(1)] by (fastforce simp: list_all_iff NUL_def)
  have w: "at_word go ((CHR ''-'' # ?w) # rest) gos" using assms(3) by (simp add: Cluster)
  obtain g where g: "at_letter go (CHR ''-'' # ?w) 1 rest g" "tgetopt gos 0 None = short_opt (CHR ''-'' # ?w) g 0 None"
    using word_step [OF w] letter_char [OF assms(1), of i] ok is' by auto
  have i: "has_letter go i" "go_want_arg (go ! i) = NO_ARG" using ok is' by auto
  obtain h where h: "tgetopt gos 0 None = Ret (0, int i, None, h)"
    "if Suc 1 = length (CHR ''-'' # ?w) then at_word go rest h else at_letter go (CHR ''-'' # ?w) (Suc 1) rest h"
    using short_flag [OF assms(1) i g(1) _ _ nul] g(2) is' by auto
  have "\<exists>g'. opt_run (length is' + m) h = Ret (map (\<lambda>i. (int i, None)) is' @ xs, g') \<and> P g'"
  proof (cases "is' = []")
    case True
    then show ?thesis using h(2) is' assms(4) by simp
  next
    case False
    then show ?thesis
      using h(2) is' ok nul assms(4) by (intro run_cluster [OF assms(1), of "CHR ''-'' # ?w" "Suc 1"]) auto
  qed
  then show ?thesis using opt_run_step [OF h(1)] by (fastforce simp: Cluster is')
qed

lemma run_items:
  assumes "table_ok go"
  shows "list_all (item_ok go) its \<Longrightarrow> at_word go (concat (map (item_args go) its)) gos \<Longrightarrow>
    \<exists>g'. opt_run (length (concat (map item_opts its)) + 1) gos = Ret (concat (map item_opts its), g') \<and>
      gos_errno g' = GOS_END_OF_OPTIONS"
proof (induction its arbitrary: gos)
  case Nil
  then show ?case using run_end [of go gos 0] by simp
next
  case (Cons it its)
  show ?case
    using run_item [OF assms, of it "concat (map (item_args go) its)" gos "length (concat (map item_opts its)) + 1"
        "concat (map item_opts its)" "\<lambda>g. gos_errno g = GOS_END_OF_OPTIONS"] Cons
    by (simp add: add.assoc)
qed

section \<open>Properties\<close>

definition sample_go :: "get_opt list" where
  "sample_go = [\<lparr>go_opt_num = 0, go_name = ''host'', go_sname = CHR ''h'', go_want_arg = REQ_ARG\<rparr>,
     \<lparr>go_opt_num = 1, go_name = ''hostname'', go_sname = CHR ''?'', go_want_arg = REQ_ARG\<rparr>,
     \<lparr>go_opt_num = 2, go_name = ''version'', go_sname = CHR ''v'', go_want_arg = OPT_ARG\<rparr>,
     \<lparr>go_opt_num = 3, go_name = ''quiet'', go_sname = CHR ''q'', go_want_arg = NO_ARG\<rparr>,
     \<lparr>go_opt_num = 4, go_name = ''help'', go_sname = CHR ''x'', go_want_arg = NO_ARG\<rparr>]"

text \<open>
  C26. What the caller of \<open>tgetopt\<close> may rely on, for the command line and for configuration files:
  a result 0 comes with an index of the option table, with an argument if the option requires
  one and without if it takes none; every other result is \<open>-1\<close> with an error code, and then
  further calls return \<open>-1\<close> and change nothing.
\<close>

theorem tgetopt_contract:
  assumes "gos_type gos \<noteq> GOS_ENV" "tgetopt gos option arg = Ret (res, option', arg', gos')"
  shows "res = 0 \<and> gos_errno gos' = GOS_OK \<and> 0 \<le> option' \<and> option' < int (length (gos_go gos)) \<and>
        (go_want_arg (gos_go gos ! nat option') = REQ_ARG \<longrightarrow> arg' \<noteq> None) \<and>
        (go_want_arg (gos_go gos ! nat option') = NO_ARG \<longrightarrow> arg' = None)
      \<or> res = - 1 \<and> gos_errno gos' \<noteq> GOS_OK \<and>
        (\<forall>x a. gos_type gos' \<noteq> GOS_ENV \<longrightarrow> tgetopt gos' x a = Ret (- 1, x, a, gos'))"
proof -
  have "outcome_inv (opt_sound (gos_go gos)) (tgetopt gos option arg)"
    using assms(1) get_opt_argv_sound [OF refl] get_opt_file_sound [OF refl]
    by (cases "gos_type gos") (simp_all add: tgetopt_def)
  then have "opt_sound (gos_go gos) (res, option', arg', gos')" using assms(2) by simp
  moreover have "tgetopt gos' x a = Ret (- 1, x, a, gos')" if "gos_errno gos' \<noteq> GOS_OK" "gos_type gos' \<noteq> GOS_ENV" for x a
    using that by (cases "gos_type gos'") (simp_all add: tgetopt_def get_opt_argv_def get_opt_file_def)
  ultimately show ?thesis by (auto simp: opt_sound_def)
qed

theorem tgetopt_contract_witness:
  "\<exists>gos'. tgetopt (gos_zero\<lparr>gos_argc := 2, gos_argv := [''prog'', ''--host=a''], gos_go := sample_go\<rparr>) 7 None =
      Ret (0, 0, Some ''a'', gos') \<and> gos_errno gos' = GOS_OK \<and>
      (go_want_arg (sample_go ! nat 0) = REQ_ARG \<longrightarrow> Some ''a'' \<noteq> None)"
proof -
  let ?g = "gos_zero\<lparr>gos_argc := 2, gos_argv := [''prog'', ''--host=a''], gos_go := sample_go\<rparr>"
  obtain gos' where g: "tgetopt ?g 7 None = Ret (0, 0, Some ''a'', gos')"
    by (auto simp: tgetopt_def get_opt_argv_def long_opt_def opt_ret_def sample_go_def gos_zero_def GOS_OK_def ch_def NUL_def Let_def)
  have "gos_type ?g \<noteq> GOS_ENV" by (simp add: gos_zero_def)
  from tgetopt_contract [OF this g] g show ?thesis by auto
qed

text \<open>
  C27. Reading a command line gives back what was written: for every list of options, each
  written as \<open>--name\<close>, \<open>--name=arg\<close>, \<open>-x arg\<close>, \<open>-xarg\<close> or in a cluster \<open>-xyz\<close>, the calls of \<open>tgetopt\<close>
  return exactly these options with their arguments, in this order, and end with
  \<open>GOS_END_OF_OPTIONS\<close>; a name that is a prefix of another is no problem.
\<close>

theorem tgetopt_argv_roundtrip:
  assumes "table_ok go" "list_all (item_ok go) its"
    "tgetopt_argv_init True (prog # concat (map (item_args go) its)) go = Some gos"
  shows "\<exists>gos'. opt_run (length (concat (map item_opts its)) + 1) gos = Ret (concat (map item_opts its), gos') \<and>
    tgetopt_errno gos' = GOS_END_OF_OPTIONS"
  unfolding tgetopt_errno_def
proof (rule run_items [OF assms(1,2)])
  show "at_word go (concat (map (item_args go) its)) gos"
    using assms(3) by (auto simp: tgetopt_argv_init_def at_word_def gos_zero_def GOS_OK_def)
qed

theorem tgetopt_argv_roundtrip_witness:
  "\<exists>gos gos'. tgetopt_argv_init True [''prog'', ''--host=a=b'', ''-qx'', ''-v'', ''1.1'', ''-hc'', ''--version''] sample_go = Some gos \<and>
    opt_run 7 gos = Ret ([(0, Some ''a=b''), (3, None), (4, None), (2, Some ''1.1''), (0, Some ''c''), (2, None)], gos') \<and>
    tgetopt_errno gos' = GOS_END_OF_OPTIONS"
proof -
  let ?its = "[Long 0 (Some ''a=b''), Cluster [3, 4], Sep 2 ''1.1'', Joined 0 ''c'', Long 2 None]"
  have "table_ok sample_go" by (simp add: table_ok_def sample_go_def NUL_def)
  moreover have "list_all (item_ok sample_go) ?its"
    by (simp add: takes_arg_def has_letter_def sample_go_def NUL_def ch_def)
  moreover obtain gos where g: "tgetopt_argv_init True [''prog'', ''--host=a=b'', ''-qx'', ''-v'', ''1.1'', ''-hc'', ''--version''] sample_go = Some gos"
    by (simp add: tgetopt_argv_init_def)
  ultimately show ?thesis
    using tgetopt_argv_roundtrip [of sample_go ?its "''prog''" gos]
    by (simp add: sample_go_def numeral_eq_Suc)
qed

end
