(* ===== verification/Tgetopt_Err.thy ===== *)
theory Tgetopt_Err
  imports Tgetopt E_Err Parserow
begin

text \<open>
  The messages of the option parser (tgetopt.c 89-101 and 116-178), built in a buffer of \<open>MAX_STR\<close> bytes
  that belongs to its state; whatever is in the buffer before is an argument, as is the text of
  \<open>strerror\<close> for the error of the stream.
\<close>

section \<open>The table of messages\<close>

definition ERR_LEN :: nat where "ERR_LEN = 40"

definition gos_err_rows :: "string list" where
  "gos_err_rows =
     [''no error'',
      [CHR 0x27] @ ''%s'' @ [CHR 0x27] @ '' requires argument'',
      ''end of options'',
      ''unknown option: %s'',
      [CHR 0x27] @ ''%s'' @ [CHR 0x27] @ '' doesn'' @ [CHR 0x27] @ ''t accept arguments (%s)'',
      ''reached end of argument mark'',
      ''error reading config file: %s'',
      ''syntax error expected '' @ [CHR 0x27] @ '':'' @ [CHR 0x27] @ '' or '' @ [CHR 0x27] @ ''='' @ [CHR 0x27],
      ''syntax error expected '' @ [CHR 0x27] @ '']'' @ [CHR 0x27],
      ''syntax error expected '' @ [CHR 0x27] @ ''#'' @ [CHR 0x27] @ '' or end of line'',
      ''sections only avaliable in config file'']"

text \<open>A row has \<open>ERR_LEN\<close> bytes; a text of that length has no terminator, and the next row follows.\<close>

definition gos_err :: "nat \<Rightarrow> string" where
  "gos_err i = cstr (drop (ERR_LEN * i) (concat (map (\<lambda>r. take ERR_LEN (r @ replicate ERR_LEN NUL)) gos_err_rows)))"

definition GOS_SYNTAX_ES2 :: int where "GOS_SYNTAX_ES2 = 9"

text \<open>The text \<open>printf\<close> makes of a format with \<open>%s\<close> only; a missing or \<open>NULL\<close> argument is undefined.\<close>

fun fmt_s :: "string \<Rightarrow> string option list \<Rightarrow> string outcome" where
  "fmt_s [] args = Ret []"
| "fmt_s [c] args = Ret [c]"
| "fmt_s (c # d # f) args =
     (if c = CHR ''%'' \<and> d = CHR ''s''
      then case args of Some a # args \<Rightarrow> bindO (fmt_s f args) (\<lambda>t. Ret (a @ t)) | _ \<Rightarrow> Undef
      else bindO (fmt_s (d # f) args) (\<lambda>t. Ret (c # t)))"

definition dec_int :: "int \<Rightarrow> string" where
  "dec_int n = (if n < 0 then ''-'' @ dec (nat (- n)) else dec (nat n))"

section \<open>tgetopt_strerror\<close>

definition strcat_buf :: "char arr \<Rightarrow> string \<Rightarrow> char arr outcome" where
  "strcat_buf buf s = bindO (arr_cstr buf) (\<lambda>t. arr_copy buf (length t) (map Some (s @ [NUL])) 0 (length s + 1))"

fun pad_loop :: "nat \<Rightarrow> nat \<Rightarrow> char arr \<Rightarrow> (nat \<times> char arr) outcome" where
  "pad_loop num 0 buf = Ret (num, buf)"
| "pad_loop num (Suc pos) buf =
     (if num < MAX_STR - 2 then bindO (strcat_buf buf '' '') (\<lambda>buf. pad_loop (num + 1) pos buf) else Ret (num, buf))"

text \<open>
  The message for a syntax error: the line, a mark under the place, and the text. \<open>num\<close> counts one byte
  less than the mark and its newline have, so the text overwrites the newline.
\<close>

definition syntax_message :: "char arr \<Rightarrow> string \<Rightarrow> int \<Rightarrow> nat \<Rightarrow> char arr outcome" where
  "syntax_message ebuf line pos gerr =
     bindO (snprintf_at ebuf 0 MAX_STR (line @ [CHR 0x0A])) (\<lambda>buf.
       bindO (pad_loop (length line + 1) (u32 (nat pos)) buf) (\<lambda>(num, buf).
         bindO (strcat_buf buf ([CHR ''^''] @ [CHR 0x0A])) (\<lambda>buf.
           let num = num + 1; col = ''column '' @ dec_int (pos + 1) @ '': '' in
           bindO (snprintf_at buf num (u64_sub MAX_STR num) col) (\<lambda>buf.
             let num = num + length col in
             bindO (fmt_s (gos_err gerr) []) (\<lambda>t. snprintf_at buf num (u64_sub MAX_STR num) t)))))"

text \<open>
  The name of the last option is looked up for every message. The table ends with an entry without a
  name, to which \<open>gos_last_opt\<close> never points. A negative \<open>gos_pos\<close>, converted to unsigned, fills the buffer with
  blanks, and the mark goes behind it.
\<close>

definition tgetopt_strerror :: "string \<Rightarrow> char arr \<Rightarrow> get_opt_state \<Rightarrow> string outcome" where
  "tgetopt_strerror oerr ebuf gos =
     (if gos_last_opt gos < 0 \<or> int (length (gos_go gos)) \<le> gos_last_opt gos then Undef
      else let g = gos_go gos ! nat (gos_last_opt gos);
               opt_name = (if gos_last_long gos then go_name g else cstr [go_sname g]);
               gerr = gos_errno gos;
               say = (\<lambda>args. bindO (fmt_s (gos_err (nat gerr)) args) (\<lambda>t. snprintf_at ebuf 0 MAX_STR t)) in
        bindO (if gerr = GOS_OK \<or> gerr = GOS_END_OF_OPTIONS \<or> gerr = GOS_END_OF_ARG_MARK then say []
               else if gerr = GOS_ARG_REQ then say [Some opt_name]
               else if gerr = GOS_UNKNOWN_OPTION then say [gos_last_arg gos]
               else if gerr = GOS_DONT_ACCEPT then say [Some opt_name, gos_last_arg gos]
               else if gerr = GOS_EREAD then say [Some oerr]
               else if gerr = GOS_SYNTAX_E \<or> gerr = GOS_SYNTAX_ES \<or> gerr = GOS_SYNTAX_ES2
               then if gos_pos gos < 0 then Undef else syntax_message ebuf (cstr (gos_buf gos)) (gos_pos gos) (nat gerr)
               else snprintf_at ebuf 0 MAX_STR (''unknown error code '' @ dec_int gerr)) arr_cstr)"

section \<open>What the messages are\<close>

lemma strcat_buf_ok:
  assumes "buf_holds t buf" "no_nul t"
  shows "if length t + length s < E_MAX_STR then \<exists>b. strcat_buf buf s = Ret b \<and> buf_holds (t @ s) b else strcat_buf buf s = Undef"
proof -
  obtain rest where buf: "buf = map Some t @ Some NUL # rest" and len: "length buf = E_MAX_STR"
    using assms(1) by (auto simp: buf_holds_def)
  have eq: "strcat_buf buf s = arr_copy buf (length t) (map Some (s @ [NUL])) 0 (length s + 1)"
    by (simp add: strcat_buf_def arr_cstr_holds [OF assms])
  show ?thesis
  proof (cases "length t + length s < E_MAX_STR")
    case True
    then have "strcat_buf buf s = Ret (map Some (t @ s) @ Some NUL # drop (length s) rest)"
      using len unfolding eq by (simp add: arr_copy_def buf)
    moreover have "length s \<le> length rest" using True len by (simp add: buf)
    ultimately show ?thesis using True len by (auto simp: buf_holds_def buf)
  next
    case False
    then show ?thesis using len unfolding eq by (simp add: arr_copy_def)
  qed
qed

lemma pad_loop_ok:
  assumes "buf_holds t buf" "no_nul t" "length t = num" "num + pos \<le> MAX_STR - 2"
  shows "\<exists>b. pad_loop num pos buf = Ret (num + pos, b) \<and> buf_holds (t @ replicate pos (CHR '' '')) b"
  using assms
proof (induction pos arbitrary: num t buf)
  case (Suc pos)
  obtain b where b: "strcat_buf buf '' '' = Ret b" "buf_holds (t @ '' '') b"
    using strcat_buf_ok [OF Suc.prems(1,2), of "'' ''"] Suc.prems(3,4) by (auto simp: E_MAX_STR_def MAX_STR_def)
  have "\<exists>b'. pad_loop (num + 1) pos b = Ret (num + 1 + pos, b') \<and> buf_holds ((t @ '' '') @ replicate pos (CHR '' '')) b'"
    using Suc.prems b(2) by (intro Suc.IH) (auto simp: no_nul_def NUL_def)
  then show ?case using b(1) Suc.prems(4) by (auto simp: MAX_STR_def replicate_app_Cons_same)
qed auto

lemma pad_loop_full:
  assumes "buf_holds t buf" "no_nul t" "length t = num" "num \<le> MAX_STR - 2" "MAX_STR - 2 \<le> num + pos"
  shows "\<exists>b u. pad_loop num pos buf = Ret (MAX_STR - 2, b) \<and> buf_holds u b \<and> no_nul u \<and> length u = MAX_STR - 2"
  using assms
proof (induction pos arbitrary: num t buf)
  case 0
  then show ?case by auto
next
  case (Suc pos)
  show ?case
  proof (cases "num = MAX_STR - 2")
    case True
    then show ?thesis using Suc.prems by auto
  next
    case False
    then have lt: "num < MAX_STR - 2" using Suc.prems(4) by simp
    obtain b where b: "strcat_buf buf '' '' = Ret b" "buf_holds (t @ '' '') b"
      using strcat_buf_ok [OF Suc.prems(1,2), of "'' ''"] Suc.prems(3) lt by (auto simp: E_MAX_STR_def MAX_STR_def)
    have "\<exists>b' u. pad_loop (num + 1) pos b = Ret (MAX_STR - 2, b') \<and> buf_holds u b' \<and> no_nul u \<and> length u = MAX_STR - 2"
      using Suc.prems(2,3,5) lt by (intro Suc.IH [OF b(2)]) (auto simp: no_nul_def NUL_def)
    then show ?thesis using b(1) lt by simp
  qed
qed

lemma dec_no_nul: "no_nul (dec n)"
  using dec_digits [of NUL n] by (auto simp: no_nul_def isdigit_def NUL_def)

lemma snprintf_from:
  assumes "buf_holds (u @ v) buf"
  shows "\<exists>b. snprintf_at buf (length u) (E_MAX_STR - length u) s = Ret b \<and> buf_holds (take (E_MAX_STR - 1) (u @ s)) b"
  using holds_take [OF assms] by (intro snprintf_holds) (auto simp: take_map dest: arg_cong [of _ _ "take (length u)"])

lemma strcat_full:
  assumes "buf_holds u buf" "no_nul u" "E_MAX_STR \<le> length u + length s"
  shows "strcat_buf buf s = Undef"
  using strcat_buf_ok [OF assms(1,2), of s] assms(3) by simp

text \<open>The error text after the column, in a buffer that holds what comes before as far as it fits.\<close>

lemma snprintf_last:
  assumes "buf_holds (take (E_MAX_STR - 1) u) buf" "length u < 2 ^ 64"
  shows "if length u \<le> E_MAX_STR
    then \<exists>b. snprintf_at buf (length u) (u64_sub E_MAX_STR (length u)) s = Ret b \<and> buf_holds (take (E_MAX_STR - 1) (u @ s)) b
    else snprintf_at buf (length u) (u64_sub E_MAX_STR (length u)) s = Undef"
proof -
  consider "length u < E_MAX_STR" | "length u = E_MAX_STR" | "E_MAX_STR < length u" by linarith
  then show ?thesis
  proof cases
    case 1
    then have "take (E_MAX_STR - 1) u = u" by simp
    then have "buf_holds (u @ []) buf" using assms(1) by simp
    then show ?thesis using 1 snprintf_from [of u "[]" buf s] by (simp add: u64_sub_def)
  next
    case 2
    then have "take (E_MAX_STR - 1) (u @ s) = take (E_MAX_STR - 1) u" by simp
    then show ?thesis using 2 assms(1) by (simp add: u64_sub_def snprintf_at_def)
  next
    case 3
    have "length buf = E_MAX_STR" using assms(1) by (simp add: buf_holds_def)
    then show ?thesis
      using 3 assms(2) snprintf_at_outside [of buf "length u" "u64_sub E_MAX_STR (length u)" s] by (simp add: u64_sub_def E_MAX_STR_def)
  qed
qed

lemma MAX_STR_eq: "MAX_STR = E_MAX_STR"
  by (simp add: MAX_STR_def E_MAX_STR_def)

lemma pad_loop_stop: "MAX_STR - 2 \<le> num \<Longrightarrow> pad_loop num pos buf = Ret (num, buf)"
  by (cases pos) simp_all

definition column :: "nat \<Rightarrow> string" where "column pos = ''column '' @ dec (pos + 1) @ '': ''"

definition marked :: "string \<Rightarrow> nat \<Rightarrow> string" where
  "marked line pos = line @ [CHR 0x0A] @ replicate pos (CHR '' '') @ ''^''"

lemma syntax_overrun:
  assumes "length ebuf = E_MAX_STR" "no_nul line" "E_MAX_STR \<le> length line + u32 (nat pos) + 3"
  shows "syntax_message ebuf line pos gerr = Undef"
proof -
  let ?t = "line @ [CHR 0x0A]" and ?p = "u32 (nat pos)"
  have nn: "no_nul (take n ?t)" for n using assms(2) by (auto simp: no_nul_def NUL_def dest: in_set_takeD)
  obtain b where b: "snprintf_at ebuf 0 MAX_STR ?t = Ret b" "buf_holds (take (E_MAX_STR - 1) ?t) b"
    using snprintf_holds [of ebuf "[]" ?t] assms(1) by (auto simp: MAX_STR_eq)
  have "\<exists>num b' u. pad_loop (length line + 1) ?p b = Ret (num, b') \<and> buf_holds u b' \<and> no_nul u \<and> E_MAX_STR \<le> length u + 2"
  proof (cases "length line + 1 \<le> MAX_STR - 2")
    case True
    then have "take (E_MAX_STR - 1) ?t = ?t" by (simp add: MAX_STR_eq)
    then have "\<exists>b' u. pad_loop (length line + 1) ?p b = Ret (MAX_STR - 2, b') \<and> buf_holds u b' \<and> no_nul u \<and> length u = MAX_STR - 2"
      using b(2) nn [of "E_MAX_STR - 1"] True assms(3) by (intro pad_loop_full) (auto simp: MAX_STR_eq)
    then show ?thesis by (fastforce simp: MAX_STR_eq)
  next
    case False
    then have "pad_loop (length line + 1) ?p b = Ret (length line + 1, b)" by (intro pad_loop_stop) simp
    moreover have "E_MAX_STR \<le> length (take (E_MAX_STR - 1) ?t) + 2" using False by (simp add: MAX_STR_eq)
    ultimately show ?thesis using b(2) nn by blast
  qed
  then obtain num b' u where u: "pad_loop (length line + 1) ?p b = Ret (num, b')" "buf_holds u b'" "no_nul u" "E_MAX_STR \<le> length u + 2"
    by blast
  have "strcat_buf b' ([CHR ''^''] @ [CHR 0x0A]) = Undef" using strcat_full [OF u(2,3)] u(4) by simp
  then show ?thesis unfolding syntax_message_def b(1) bindO.simps u(1) prod.case by simp
qed

lemma length_dec_le: "length (dec n) \<le> n + 1"
proof (induction n rule: dec.induct)
  case (1 n)
  then show ?case by (subst dec.simps) auto
qed

lemma syntax_fits:
  assumes "length ebuf = E_MAX_STR" "no_nul line" "length line + u32 (nat pos) + 3 < E_MAX_STR" "0 \<le> pos" "u32 (nat pos) = nat pos"
    "fmt_s (gos_err gerr) [] = Ret msg"
  shows "if length (marked line (nat pos) @ column (nat pos)) \<le> E_MAX_STR
    then \<exists>b. syntax_message ebuf line pos gerr = Ret b \<and> buf_holds (take (E_MAX_STR - 1) (marked line (nat pos) @ column (nat pos) @ msg)) b
    else syntax_message ebuf line pos gerr = Undef"
proof -
  let ?t = "line @ [CHR 0x0A]" and ?p = "nat pos"
  let ?m = "marked line ?p" and ?c = "column ?p"
  have len: "length line + ?p + 3 < E_MAX_STR" using assms(3,5) by simp
  have nn: "no_nul (?t @ replicate ?p (CHR '' ''))" using assms(2) by (auto simp: no_nul_def NUL_def)
  obtain b1 where b1: "snprintf_at ebuf 0 MAX_STR ?t = Ret b1" "buf_holds (take (E_MAX_STR - 1) ?t) b1"
    using snprintf_holds [of ebuf "[]" ?t] assms(1) by (auto simp: MAX_STR_eq)
  have t1: "buf_holds ?t b1" using b1(2) len by simp
  have "\<exists>b. pad_loop (length line + 1) ?p b1 = Ret (length line + 1 + ?p, b) \<and> buf_holds (?t @ replicate ?p (CHR '' '')) b"
    using t1 assms(2) len by (intro pad_loop_ok) (auto simp: no_nul_def NUL_def MAX_STR_eq)
  then obtain b2 where b2: "pad_loop (length line + 1) ?p b1 = Ret (length line + 1 + ?p, b2)" "buf_holds (?t @ replicate ?p (CHR '' '')) b2"
    by blast
  obtain b3 where b3: "strcat_buf b2 ([CHR ''^''] @ [CHR 0x0A]) = Ret b3"
    "buf_holds ((?t @ replicate ?p (CHR '' '')) @ [CHR ''^''] @ [CHR 0x0A]) b3"
    using strcat_buf_ok [OF b2(2) nn, of "[CHR ''^''] @ [CHR 0x0A]"] len by auto
  have t3: "buf_holds (?m @ [CHR 0x0A]) b3" using b3(2) by (simp add: marked_def)
  have num: "length line + 1 + ?p + 1 = length ?m" by (simp add: marked_def)
  have mlen: "length ?m < E_MAX_STR" using len by (simp add: marked_def)
  obtain b4 where b4: "snprintf_at b3 (length ?m) (u64_sub MAX_STR (length ?m)) ?c = Ret b4"
    "buf_holds (take (E_MAX_STR - 1) (?m @ ?c)) b4"
    using snprintf_from [OF t3, of ?c] mlen by (auto simp: u64_sub_def MAX_STR_eq)
  have col: "''column '' @ dec_int (pos + 1) @ '': '' = ?c"
    using assms(4) by (simp add: column_def dec_int_def nat_add_distrib)
  have last: "length ?m + length ?c = length (?m @ ?c)" by simp
  have run: "syntax_message ebuf line pos gerr = snprintf_at b4 (length (?m @ ?c)) (u64_sub MAX_STR (length (?m @ ?c))) msg"
    unfolding syntax_message_def
    by (simp only: b1(1) bindO.simps assms(5) b2(1) prod.case b3(1) Let_def num col b4(1) last assms(6))
  have "length ?c \<le> ?p + 20" using length_dec_le [of "?p + 1"] by (simp add: column_def)
  then have "length (?m @ ?c) < 2 ^ 64" using mlen len by (simp add: E_MAX_STR_def)
  then show ?thesis using snprintf_last [OF b4(2), of msg] unfolding run MAX_STR_eq append_assoc by blast
qed

lemma no_nul_cstr: "no_nul (cstr s)"
  by (auto simp: no_nul_def cstr_def dest: set_takeWhileD)

lemmas gos_code_defs = GOS_OK_def GOS_ARG_REQ_def GOS_UNKNOWN_OPTION_def GOS_DONT_ACCEPT_def GOS_END_OF_OPTIONS_def
  GOS_END_OF_ARG_MARK_def GOS_EREAD_def GOS_SYNTAX_E_def GOS_SYNTAX_ES_def

lemma gos_err_texts:
  "gos_err 7 = ''syntax error expected '' @ [CHR 0x27] @ '':'' @ [CHR 0x27] @ '' or '' @ [CHR 0x27] @ ''='' @ [CHR 0x27]"
  "gos_err 8 = ''syntax error expected '' @ [CHR 0x27] @ '']'' @ [CHR 0x27]"
  by code_simp+

lemma gos_err_syntax: "fmt_s (gos_err 7) [] = Ret (gos_err 7)" "fmt_s (gos_err 8) [] = Ret (gos_err 8)"
  unfolding gos_err_texts by simp_all

lemma no_nul_marked: "no_nul line \<Longrightarrow> no_nul (marked line pos @ column pos @ gos_err i)"
  using dec_no_nul [of "pos + 1"] no_nul_cstr by (auto simp: no_nul_def marked_def column_def NUL_def gos_err_def)

text \<open>
  The message for a syntax error in a line is the line, a mark under the place, the column and the
  text, cut to 1023 bytes, exactly when all before the text fits 1024 bytes; else the buffer overruns.
\<close>

theorem syntax_message_exact:
  assumes "length ebuf = MAX_STR" "0 \<le> gos_last_opt gos" "gos_last_opt gos < int (length (gos_go gos))"
    "0 \<le> gos_pos gos" "gos_pos gos < 2 ^ 31" "gos_errno gos = GOS_SYNTAX_E \<or> gos_errno gos = GOS_SYNTAX_ES"
  shows "tgetopt_strerror oerr ebuf gos =
    (let before = marked (cstr (gos_buf gos)) (nat (gos_pos gos)) @ column (nat (gos_pos gos)) in
     if length before \<le> MAX_STR then Ret (take (MAX_STR - 1) (before @ gos_err (nat (gos_errno gos)))) else Undef)"
proof -
  let ?l = "cstr (gos_buf gos)" and ?p = "nat (gos_pos gos)" and ?e = "nat (gos_errno gos)"
  let ?b = "marked ?l ?p @ column ?p"
  have u32: "u32 ?p = ?p" using assms(4,5) by (intro u32_id) (simp add: nat_less_iff)
  have fmt: "fmt_s (gos_err ?e) [] = Ret (gos_err ?e)" using assms(6) gos_err_syntax by (auto simp: GOS_SYNTAX_E_def GOS_SYNTAX_ES_def)
  have code: "gos_errno gos \<noteq> GOS_OK \<and> gos_errno gos \<noteq> GOS_END_OF_OPTIONS \<and> gos_errno gos \<noteq> GOS_END_OF_ARG_MARK \<and>
      gos_errno gos \<noteq> GOS_ARG_REQ \<and> gos_errno gos \<noteq> GOS_UNKNOWN_OPTION \<and> gos_errno gos \<noteq> GOS_DONT_ACCEPT \<and> gos_errno gos \<noteq> GOS_EREAD"
    using assms(6) by (auto simp: gos_code_defs)
  have kind: "gos_errno gos = GOS_SYNTAX_E \<or> gos_errno gos = GOS_SYNTAX_ES \<or> gos_errno gos = GOS_SYNTAX_ES2" using assms(6) by blast
  have range: "\<not> (gos_last_opt gos < 0 \<or> int (length (gos_go gos)) \<le> gos_last_opt gos)" "\<not> gos_pos gos < 0" using assms(2-4) by simp_all
  have eq: "tgetopt_strerror oerr ebuf gos = bindO (syntax_message ebuf ?l (gos_pos gos) ?e) arr_cstr"
    unfolding tgetopt_strerror_def if_not_P [OF range(1)] Let_def using code range(2)
    by (simp only: simp_thms if_True if_False if_P [OF kind])
  have len: "length ebuf = E_MAX_STR" using assms(1) by (simp add: MAX_STR_eq)
  show ?thesis
  proof (cases "length ?l + ?p + 3 < E_MAX_STR")
    case True
    have fits: "if length ?b \<le> E_MAX_STR
      then \<exists>b. syntax_message ebuf ?l (gos_pos gos) ?e = Ret b \<and> buf_holds (take (E_MAX_STR - 1) (marked ?l ?p @ column ?p @ gos_err ?e)) b
      else syntax_message ebuf ?l (gos_pos gos) ?e = Undef"
      using True u32 by (intro syntax_fits len no_nul_cstr assms(4) fmt) simp_all
    have nn: "no_nul (take (E_MAX_STR - 1) (marked ?l ?p @ column ?p @ gos_err ?e))"
      by (intro no_nul_take no_nul_marked no_nul_cstr)
    show ?thesis
    proof (cases "length ?b \<le> E_MAX_STR")
      case True
      then obtain b where b: "syntax_message ebuf ?l (gos_pos gos) ?e = Ret b"
        "buf_holds (take (E_MAX_STR - 1) (marked ?l ?p @ column ?p @ gos_err ?e)) b"
        using fits by (simp only: if_True) blast
      have "tgetopt_strerror oerr ebuf gos = Ret (take (E_MAX_STR - 1) (marked ?l ?p @ column ?p @ gos_err ?e))"
        unfolding eq b(1) bindO.simps by (rule arr_cstr_holds [OF b(2) nn])
      then show ?thesis using True unfolding Let_def MAX_STR_eq append_assoc by (simp only: if_True)
    next
      case False
      then have "syntax_message ebuf ?l (gos_pos gos) ?e = Undef" using fits by (simp only: if_False)
      then show ?thesis unfolding eq Let_def MAX_STR_eq if_not_P [OF False] by simp
    qed
  next
    case False
    then have "syntax_message ebuf ?l (gos_pos gos) ?e = Undef" using u32 by (intro syntax_overrun len no_nul_cstr) simp
    moreover have "\<not> length ?b \<le> E_MAX_STR" using False by (simp add: marked_def column_def)
    ultimately show ?thesis unfolding eq Let_def MAX_STR_eq by simp
  qed
qed

lemma syntax_message_exact_witness:
  "tgetopt_strerror [] (replicate MAX_STR None)
     (gos_zero\<lparr>gos_buf := ''host x'' @ [NUL], gos_pos := 5, gos_errno := GOS_SYNTAX_E,
        gos_go := [\<lparr>go_opt_num = 0, go_name = ''host'', go_sname = CHR ''h'', go_want_arg = REQ_ARG\<rparr>]\<rparr>) =
   Ret (''host x'' @ [CHR 0x0A] @ ''     ^column 6: '' @ gos_err 7)"
proof -
  let ?g = "gos_zero\<lparr>gos_buf := ''host x'' @ [NUL], gos_pos := 5, gos_errno := GOS_SYNTAX_E,
        gos_go := [\<lparr>go_opt_num = 0, go_name = ''host'', go_sname = CHR ''h'', go_want_arg = REQ_ARG\<rparr>]\<rparr>"
  have line: "marked (cstr (gos_buf ?g)) 5 @ column 5 = ''host x'' @ [CHR 0x0A] @ ''     ^column 6: ''"
  proof -
    have "column 5 = ''column 6: ''" by code_simp
    then show ?thesis by (simp add: marked_def cstr_def NUL_def eval_nat_numeral)
  qed
  have "length (gos_err 7) < 40" unfolding gos_err_texts by simp
  then have short: "take (MAX_STR - 1) ((''host x'' @ [CHR 0x0A] @ ''     ^column 6: '') @ gos_err 7) = (''host x'' @ [CHR 0x0A] @ ''     ^column 6: '') @ gos_err 7"
    by (intro take_all) (simp add: MAX_STR_def)
  have zero: "gos_last_opt gos_zero = 0" by (simp add: gos_zero_def)
  have g: "gos_last_opt ?g = 0" "gos_go ?g \<noteq> []" "gos_pos ?g = 5" "gos_errno ?g = 7" by (simp_all add: gos_zero_def GOS_SYNTAX_E_def)
  have n: "nat (gos_pos ?g) = 5" "nat (gos_errno ?g) = 7" "length (gos_go ?g) = 1" by (simp_all add: gos_zero_def GOS_SYNTAX_E_def)
  have "length (marked (cstr (gos_buf ?g)) 5 @ column 5) \<le> MAX_STR" unfolding line by (simp add: MAX_STR_def)
  then show ?thesis
    using syntax_message_exact [of "replicate MAX_STR None" ?g "[]"]
    unfolding n Let_def line short by (simp add: g zero GOS_SYNTAX_E_def)
qed

text \<open>
  An option of the command line that is not in the table leaves \<open>gos_last_opt\<close> at -1, and the message for it
  starts with a look at the entry in front of the table.
\<close>

definition unknown_marked :: "int \<times> int \<times> string option \<times> get_opt_state \<Rightarrow> bool" where
  "unknown_marked = (\<lambda>(r, option, arg, gos). gos_errno gos = GOS_UNKNOWN_OPTION \<longrightarrow> gos_last_opt gos = - 1)"

lemma unknown_marked_simp: "unknown_marked (r, option, arg, gos) = (gos_errno gos = GOS_UNKNOWN_OPTION \<longrightarrow> gos_last_opt gos = - 1)"
  by (simp add: unknown_marked_def)

lemma argv_unknown_marked:
  assumes "gos_errno gos = GOS_OK"
  shows "outcome_inv unknown_marked (get_opt_argv gos option arg)"
proof -
  have short: "outcome_inv unknown_marked (short_opt larg g option arg)" if "gos_errno g = GOS_OK" for larg g option arg
    using that
    by (auto simp: short_opt_def Let_def opt_ret_def opt_err_def unknown_marked_def gos_code_defs split: option.splits list.splits)
  have long: "outcome_inv unknown_marked r" if "long_opt larg g = Some r" "gos_errno g = GOS_OK" for larg g r
    using that
    by (auto simp: long_opt_def Let_def opt_ret_def opt_err_def unknown_marked_def gos_code_defs split: option.splits if_splits)
  show ?thesis
    unfolding get_opt_argv_def Let_def
    by (intro outcome_rules short; auto simp: assms gos_code_defs unknown_marked_simp opt_err_def split: if_splits elim!: long)
qed

theorem unknown_option_message:
  assumes "gos_errno gos = GOS_OK" "get_opt_argv gos option arg = Ret (r, option', arg', gos')" "gos_errno gos' = GOS_UNKNOWN_OPTION"
  shows "tgetopt_strerror oerr ebuf gos' = Undef"
  using argv_unknown_marked [OF assms(1), of option arg] assms(2,3) by (simp add: unknown_marked_def tgetopt_strerror_def)

lemma unknown_option_message_witness:
  "case get_opt_argv (gos_zero\<lparr>gos_argc := 2, gos_argv := [''prog'', ''--hots'']\<rparr>) 0 None of
     Ret (r, option, arg, gos) \<Rightarrow> r = - 1 \<and> arg = Some ''hots'' \<and> tgetopt_strerror [] (replicate MAX_STR None) gos = Undef
   | _ \<Rightarrow> False"
proof -
  let ?g = "gos_zero\<lparr>gos_argc := 2, gos_argv := [''prog'', ''--hots'']\<rparr>"
  obtain gos where g: "get_opt_argv ?g 0 None = Ret (- 1, - 1, Some ''hots'', gos)" "gos_errno gos = GOS_UNKNOWN_OPTION"
    by (auto simp: get_opt_argv_def long_opt_def opt_err_def gos_zero_def GOS_OK_def ch_def NUL_def Let_def)
  have "gos_errno ?g = GOS_OK" by (simp add: gos_zero_def GOS_OK_def)
  then show ?thesis using unknown_option_message [OF _ g] g(1) by simp
qed

text \<open>The text for the third kind of syntax error fills its row, and the next row is printed after it.\<close>

lemma gos_err_runs_on: "gos_err 9 = ''syntax error expected '' @ [CHR 0x27] @ ''#'' @ [CHR 0x27] @ '' or end of linesections only avaliable in config file''"
  by code_simp

end
