(* ===== verification/Tgetopt_File.thy ===== *)
theory Tgetopt_File
  imports Tgetopt
begin

text \<open>
  Configuration files (get_opt_file, tgetopt_sections and next_token of tgetopt.c): what the
  parser returns for a file, against the rows the file consists of.
\<close>

section \<open>Tokens of a line\<close>

text \<open>The characters of a word that is not quoted.\<close>

definition word_char :: "char \<Rightarrow> bool" where
  "word_char c \<longleftrightarrow> c \<noteq> NUL \<and> \<not> in_set white_space c \<and> c \<noteq> CHR 0x22 \<and> \<not> in_set delimiters c \<and> c \<noteq> CHR 0x0A"

definition word_end :: "char \<Rightarrow> bool" where
  "word_end c \<longleftrightarrow> c = NUL \<or> in_set white_space c \<or> in_set delimiters c"

lemma word_end_char: "word_end c \<Longrightarrow> \<not> word_char c" "word_end c \<Longrightarrow> c \<noteq> CHR 0x22"
  by (auto simp: word_end_def word_char_def NUL_def in_set_def white_space_def delimiters_def)

lemma rd_append: "rd (pre @ c # post) (length pre) = Ret c"
  by (simp add: rd_def)

lemma skip_white_run:
  "list_all (in_set white_space) ws \<Longrightarrow> \<not> in_set white_space c \<Longrightarrow>
   skip_white (pre @ ws @ c # post) (length pre) = Ret (length pre + length ws)"
proof (induction ws arbitrary: pre)
  case Nil
  then show ?case using rd_append [of pre c post] by (subst skip_white.simps) simp
next
  case (Cons w ws)
  have "skip_white ((pre @ [w]) @ ws @ c # post) (length (pre @ [w])) = Ret (length (pre @ [w]) + length ws)"
    using Cons.prems by (intro Cons.IH) auto
  then show ?case
    using Cons.prems(1) rd_append [of pre w "ws @ c # post"] by (subst skip_white.simps) simp
qed

lemma token_loop_run:
  "list_all word_char w \<Longrightarrow> word_end c \<Longrightarrow> length tok + length w \<le> MAX_STR \<Longrightarrow>
   token_loop (pre @ w @ c # post) (length pre) tok = Ret (tok @ w, length pre + length w)"
proof (induction w arbitrary: pre tok)
  case Nil
  then show ?case
    using rd_append [of pre c post] word_end_char(2) [of c] by (subst token_loop.simps) (auto simp: word_end_def)
next
  case (Cons x w)
  have "token_loop ((pre @ [x]) @ w @ c # post) (length (pre @ [x])) (tok @ [x]) =
      Ret ((tok @ [x]) @ w, length (pre @ [x]) + length w)"
    using Cons.prems by (intro Cons.IH) auto
  moreover have "x \<noteq> NUL" "\<not> in_set white_space x" "x \<noteq> CHR 0x22" "\<not> in_set delimiters x"
    using Cons.prems(1) by (auto simp: word_char_def)
  ultimately show ?case
    using Cons.prems(3) rd_append [of pre x "w @ c # post"]
    by (subst token_loop.simps) (simp add: add_tok_def)
qed

lemma cstr_word: "NUL \<notin> set w \<Longrightarrow> cstr (w @ [NUL]) = w"
  by (auto simp: cstr_def takeWhile_append)

text \<open>The three kinds of tokens, at a position in the middle of a line.\<close>

lemma next_token_word:
  assumes "list_all (in_set white_space) ws" "list_all word_char w" "w \<noteq> []" "word_end c" "length w < MAX_STR"
  shows "next_token (pre @ ws @ w @ c # post) (int (length pre)) = Ret (Some w, int (length (pre @ ws @ w)))"
proof -
  obtain x w' where w: "w = x # w'" using assms(3) by (cases w) auto
  have x: "x \<noteq> NUL" "\<not> in_set white_space x" "\<not> in_set delimiters x" using assms(2) w by (auto simp: word_char_def)
  have skip: "skip_white (pre @ ws @ w @ c # post) (length pre) = Ret (length (pre @ ws))"
    using skip_white_run [OF assms(1) x(2), of pre "w' @ c # post"] w by simp
  have loop: "token_loop (pre @ ws @ w @ c # post) (length (pre @ ws)) [] = Ret (w, length (pre @ ws @ w))"
    using token_loop_run [OF assms(2,4), of "[]" "pre @ ws" post] assms(5) by simp
  have first: "\<exists>d. rd (pre @ ws @ w @ c # post) (length pre) = Ret d \<and> d \<noteq> NUL"
    using assms(1) x(1) by (cases ws) (auto simp: rd_def w in_set_def white_space_def NUL_def)
  have at: "rd (pre @ ws @ w @ c # post) (length (pre @ ws)) = Ret x"
    using rd_append [of "pre @ ws" x "w' @ c # post"] w by simp
  have "NUL \<notin> set w" using assms(2) by (auto simp: list_all_iff word_char_def)
  then show ?thesis
    using first skip loop at x assms(5) by (auto simp: next_token_def add_tok_def cstr_word)
qed

lemma next_token_delim:
  assumes "list_all (in_set white_space) ws" "in_set delimiters d"
  shows "next_token (pre @ ws @ d # post) (int (length pre)) = Ret (Some [d], int (length (pre @ ws)) + 1)"
proof -
  have d: "d \<noteq> NUL" "\<not> in_set white_space d" using assms(2) by (auto simp: in_set_def delimiters_def white_space_def NUL_def)
  have first: "\<exists>x. rd (pre @ ws @ d # post) (length pre) = Ret x \<and> x \<noteq> NUL"
    using assms(1) d(1) by (cases ws) (auto simp: rd_def in_set_def white_space_def NUL_def)
  show ?thesis
    using first skip_white_run [OF assms(1) d(2), of pre post] rd_append [of "pre @ ws" d post] d assms(2) cstr_word [of "[d]"]
    by (auto simp: next_token_def add_tok_def MAX_STR_def)
qed

lemma next_token_end:
  assumes "list_all (in_set white_space) ws"
  shows "next_token (pre @ ws @ NUL # post) (int (length pre)) = Ret (None, - 1)"
proof -
  have "\<not> in_set white_space NUL" by (simp add: in_set_def white_space_def NUL_def)
  from skip_white_run [OF assms this, of pre post] show ?thesis
    using rd_append [of "pre @ ws" NUL post] by (cases ws) (auto simp: next_token_def rd_def)
qed

section \<open>Rows\<close>

text \<open>The rows of a file; a setting may have a remark behind it.\<close>

datatype row = Empty | Remark string | Header string | Setting string string "string option"

fun row_text :: "row \<Rightarrow> string" where
  "row_text Empty = []"
| "row_text (Remark t) = ''#'' @ t"
| "row_text (Header s) = ''['' @ s @ '']''"
| "row_text (Setting n a c) = n @ '' = '' @ a @ (case c of None \<Rightarrow> [] | Some t \<Rightarrow> '' #'' @ t)"

definition file_text :: "row list \<Rightarrow> string" where
  "file_text rows = concat (map (\<lambda>r. row_text r @ [CHR 0x0A]) rows)"

definition is_word :: "string \<Rightarrow> bool" where
  "is_word w \<longleftrightarrow> w \<noteq> [] \<and> list_all word_char w"

fun row_ok :: "row \<Rightarrow> bool" where
  "row_ok Empty = True"
| "row_ok (Remark t) = True"
| "row_ok (Header s) = list_all word_char s"
| "row_ok (Setting n a c) = (is_word n \<and> hd n \<noteq> CHR ''['' \<and> is_word a)"

definition line_ok :: "string \<Rightarrow> bool" where
  "line_ok t \<longleftrightarrow> length t + 1 < MAX_STR \<and> NUL \<notin> set t \<and> CHR 0x0A \<notin> set t"

text \<open>What a file says about the section \<open>path\<close>, \<open>b\<close> telling whether its start belongs to it.\<close>

fun settings :: "get_opt list \<Rightarrow> string \<Rightarrow> bool \<Rightarrow> row list \<Rightarrow> (int \<times> string option) list" where
  "settings go path b [] = []"
| "settings go path b (Header s # rows) = settings go path (s = path) rows"
| "settings go path b (Setting n a c # rows) =
     (case (if b then go_find (\<lambda>g. go_name g = n) go 0 else None) of
        Some (i, g) \<Rightarrow> (int i, Some a) # settings go path b rows
      | None \<Rightarrow> settings go path b rows)"
| "settings go path b (_ # rows) = settings go path b rows"

text \<open>The settings of the section name options that take an argument.\<close>

fun known :: "get_opt list \<Rightarrow> string \<Rightarrow> bool \<Rightarrow> row list \<Rightarrow> bool" where
  "known go path b [] = True"
| "known go path b (Header s # rows) = known go path (s = path) rows"
| "known go path b (Setting n a c # rows) =
     ((b \<longrightarrow> (case go_find (\<lambda>g. go_name g = n) go 0 of None \<Rightarrow> False | Some (i, g) \<Rightarrow> go_want_arg g \<noteq> NO_ARG)) \<and>
      known go path b rows)"
| "known go path b (_ # rows) = known go path b rows"

lemma fgets_row:
  assumes "line_ok t"
  shows "fgets MAX_STR (t @ CHR 0x0A # f) = Some (t @ [CHR 0x0A], f)"
  using assms by (intro fgets_line) (auto simp: line_ok_def)

lemma put_row:
  assumes "line_ok t"
  shows "put_line (t @ [CHR 0x0A]) buf = t @ NUL # NUL # drop (length t + 2) buf"
proof -
  have "cstr ((t @ [CHR 0x0A]) @ [NUL] @ drop (length t + 2) buf) = t @ [CHR 0x0A]"
    using assms by (auto simp: cstr_def line_ok_def takeWhile_append NUL_def)
  then show ?thesis by (simp add: put_line_def Let_def list_update_append nth_append)
qed

text \<open>The state between two rows.\<close>

definition at_row :: "get_opt list \<Rightarrow> string \<Rightarrow> bool \<Rightarrow> row list \<Rightarrow> get_opt_state \<Rightarrow> bool" where
  "at_row go path b rows gos \<longleftrightarrow> gos_go gos = go \<and> gos_type gos = GOS_FILE \<and> gos_errno gos = GOS_OK \<and>
     gos_path gos = path \<and> gos_in_sect gos = b \<and> f_rest (gos_fp gos) = file_text rows \<and> \<not> f_err (gos_fp gos)"

lemma at_row_pos [simp]: "at_row go path b rows (gos\<lparr>gos_pos := p\<rparr>) = at_row go path b rows gos"
  by (simp add: at_row_def)

text \<open>The rest of a row after its setting has been returned.\<close>

definition at_tail :: "get_opt_state \<Rightarrow> bool" where
  "at_tail gos \<longleftrightarrow> 0 \<le> gos_pos gos \<and> 0 \<le> gos_last_opt gos \<and> gos_last_opt gos < int (length (gos_go gos)) \<and>
     (\<exists>tok pos. next_token (gos_buf gos) (gos_pos gos) = Ret (tok, pos) \<and> no_token tok)"

lemma tail_step:
  assumes "at_row go path b rows gos" "at_tail gos"
  shows "\<exists>pos. tgetopt gos option arg = file_row (gos\<lparr>gos_pos := pos\<rparr>) (gos_last_opt gos) arg"
  using assms by (auto simp: at_row_def at_tail_def tgetopt_def get_opt_file_def Let_def)

lemma row_loaded:
  assumes "at_row go path b (r # rows) gos" "line_ok (row_text r)"
  defines "buf \<equiv> row_text r @ NUL # NUL # drop (length (row_text r) + 2) (gos_buf gos)"
  shows "fgets MAX_STR (f_rest (gos_fp gos)) = Some (row_text r @ [CHR 0x0A], file_text rows)"
    "put_line (row_text r @ [CHR 0x0A]) (gos_buf gos) = buf"
    "at_row go path b' rows (gos\<lparr>gos_buf := buf, gos_fp := (gos_fp gos)\<lparr>f_rest := file_text rows\<rparr>, gos_in_sect := b'\<rparr>)"
  using fgets_row [OF assms(2), of "file_text rows"] put_row [OF assms(2), of "gos_buf gos"] assms(1)
  by (simp_all add: at_row_def file_text_def buf_def)

lemma no_token_simps [simp]:
  "no_token None" "word_char c \<Longrightarrow> \<not> no_token (Some (c # w))" "no_token (Some ''#'')" "\<not> no_token (Some ''='')"
  "\<not> no_token (Some (CHR ''['' # w))"
  by (auto simp: no_token_def ch_def in_set_def comment_def word_char_def delimiters_def)

text \<open>One row that sets nothing.\<close>

lemma row_step_idle:
  assumes "at_row go path b (r # rows) gos" "line_ok (row_text r)" "row_ok r"
    "case r of Setting n a c \<Rightarrow> \<not> b | _ \<Rightarrow> True"
  shows "\<exists>g. file_row gos option arg = file_row g option arg \<and>
    at_row go path (case r of Header s \<Rightarrow> s = path | _ \<Rightarrow> b) rows g"
proof -
  define buf where "buf = row_text r @ NUL # NUL # drop (length (row_text r) + 2) (gos_buf gos)"
  note ld = row_loaded [OF assms(1,2), folded buf_def]
  let ?g = "gos\<lparr>gos_buf := buf, gos_fp := (gos_fp gos)\<lparr>f_rest := file_text rows\<rparr>\<rparr>"
  have g: "at_row go path b rows ?g" using assms(1) ld(3) [of b] by (simp add: at_row_def)
  have b: "gos_in_sect gos = b" "gos_path gos = path" using assms(1) by (auto simp: at_row_def)
  let ?z = "drop (length (row_text r) + 2) (gos_buf gos)"
  show ?thesis
  proof (cases r)
    case Empty
    have "next_token buf 0 = Ret (None, - 1)" using next_token_end [of "[]" "[]"] by (simp add: buf_def Empty)
    then show ?thesis using ld(1,2) g by (subst file_row.simps) (auto simp: Let_def Empty)
  next
    case (Remark t)
    have "next_token buf 0 = Ret (Some ''#'', 1)"
      using next_token_delim [of "[]" "CHR ''#''" "[]"] by (simp add: buf_def Remark in_set_def delimiters_def)
    then show ?thesis using ld(1,2) g by (subst file_row.simps) (auto simp: Let_def Remark)
  next
    case (Header s)
    let ?h = "''['' @ s @ '']''"
    have w: "list_all word_char ?h" using assms(3)
      by (simp add: Header word_char_def NUL_def in_set_def white_space_def delimiters_def)
    have len: "length ?h < MAX_STR" using assms(2) by (simp add: Header line_ok_def)
    have 1: "next_token buf 0 = Ret (Some ?h, int (length ?h))"
      using next_token_word [OF _ w _ _ len, of "[]" NUL "[]" "NUL # ?z"] by (simp add: buf_def Header word_end_def)
    have 2: "next_token buf (int (length ?h)) = Ret (None, - 1)"
      using next_token_end [of "[]" ?h "NUL # ?z"] by (simp add: buf_def Header)
    show ?thesis using ld(1,2) ld(3) [of "s = path"] 1 2 b
      by (subst file_row.simps) (auto simp: Let_def Header ch_def butlast_append at_row_def)
  next
    case (Setting n a c)
    have n: "list_all word_char n" "n \<noteq> []" "hd n \<noteq> CHR ''[''" and nb: "\<not> b"
      using assms(3,4) by (auto simp: Setting is_word_def)
    have len: "length n < MAX_STR" using assms(2) by (simp add: Setting line_ok_def)
    have 1: "next_token buf 0 = Ret (Some n, int (length n))"
      using next_token_word [OF _ n(1,2) _ len, of "[]" "CHR '' ''" "[]"]
      by (simp add: buf_def Setting word_end_def in_set_def white_space_def)
    obtain x n' where x: "n = x # n'" "word_char x" "x \<noteq> CHR ''[''" using n by (cases n) auto
    show ?thesis using ld(1,2) g 1 x nb b
      by (subst file_row.simps) (auto simp: Let_def Setting ch_def at_row_def)
  qed
qed

lemma go_find_name: "go_find (\<lambda>g. go_name g = n) go 0 = Some (i, g) \<Longrightarrow> i < length go \<and> go ! i = g"
  using go_find_0 by blast

text \<open>A setting of the section.\<close>

lemma row_step_setting:
  assumes "at_row go path True (Setting n a c # rows) gos" "line_ok (row_text (Setting n a c))" "row_ok (Setting n a c)"
    "go_find (\<lambda>g. go_name g = n) go 0 = Some (i, g)" "go_want_arg g \<noteq> NO_ARG"
  shows "\<exists>h. file_row gos option arg = Ret (0, int i, Some a, h) \<and> at_row go path True rows h \<and> at_tail h"
proof -
  let ?r = "Setting n a c"
  define tl where "tl = (case c of None \<Rightarrow> [] | Some t \<Rightarrow> '' #'' @ t)"
  define z where "z = NUL # drop (length (row_text ?r) + 2) (gos_buf gos)"
  define buf where "buf = n @ '' = '' @ a @ tl @ NUL # z"
  have buf: "row_text ?r @ NUL # NUL # drop (length (row_text ?r) + 2) (gos_buf gos) = buf"
    by (simp add: buf_def tl_def z_def)
  note ld = row_loaded [OF assms(1,2), unfolded buf]
  have n: "list_all word_char n" "n \<noteq> []" and a: "list_all word_char a" "a \<noteq> []"
    using assms(3) by (auto simp: is_word_def)
  have len: "length n < MAX_STR" "length a < MAX_STR" using assms(2) by (auto simp: line_ok_def)
  have ws: "list_all (in_set white_space) '' ''" "in_set delimiters CHR ''=''" "word_end CHR '' ''"
    by (simp_all add: in_set_def white_space_def delimiters_def word_end_def)
  obtain e tl' where e: "tl @ NUL # z = e # tl'" "word_end e"
    by (cases c) (auto simp: tl_def word_end_def in_set_def white_space_def)
  have 1: "next_token buf 0 = Ret (Some n, int (length n))"
    using next_token_word [OF _ n ws(3) len(1), of "[]" "[]"] by (simp add: buf_def)
  have 2: "next_token buf (int (length n)) = Ret (Some ''='', int (length (n @ '' ='')))"
    using next_token_delim [OF ws(1,2), of n] by (simp add: buf_def)
  have 3: "next_token buf (int (length (n @ '' =''))) = Ret (Some a, int (length (n @ '' = '' @ a)))"
    using next_token_word [OF ws(1) a e(2) len(2), of "n @ '' =''" tl'] e(1) by (simp add: buf_def)
  have 4: "\<exists>tok pos. next_token buf (int (length (n @ '' = '' @ a))) = Ret (tok, pos) \<and> no_token tok"
  proof (cases c)
    case None
    then show ?thesis using next_token_end [of "[]" "n @ '' = '' @ a" z] by (simp add: buf_def tl_def)
  next
    case (Some t)
    have "in_set delimiters CHR ''#''" by (simp add: in_set_def delimiters_def)
    from next_token_delim [OF ws(1) this, of "n @ '' = '' @ a" "t @ NUL # z"] show ?thesis
      by (auto simp: buf_def tl_def Some)
  qed
  obtain x n' where x: "n = x # n'" "word_char x" "x \<noteq> CHR ''[''" using n assms(3) by (cases n) auto
  obtain y a' where y: "a = y # a'" "word_char y" using a by (cases a) auto
  have st: "gos_in_sect gos" "gos_path gos = path" "gos_go gos = go" using assms(1) by (auto simp: at_row_def)
  let ?h = "gos\<lparr>gos_buf := buf, gos_fp := (gos_fp gos)\<lparr>f_rest := file_text rows\<rparr>, gos_in_sect := True,
      gos_pos := int (length (n @ '' = '' @ a)), gos_last_opt := int i, gos_last_arg := Some a\<rparr>"
  have "file_row gos option arg = Ret (0, int i, Some a, ?h)"
    using ld(1,2) 1 2 3 x y st assms(4,5)
    by (subst file_row.simps) (simp add: Let_def ch_def file_first_arg_def file_arg_def in_set_def)
  moreover have "at_row go path True rows ?h" using ld(3) [of True] by (simp add: at_row_def)
  moreover have "at_tail ?h" using 4 go_find_name [OF assms(4)] st by (simp add: at_tail_def)
  ultimately show ?thesis by blast
qed

section \<open>Whole files\<close>

lemma file_row_end:
  "at_row go path b [] gos \<Longrightarrow>
   file_row gos option arg = Ret (- 1, option, arg, gos\<lparr>gos_pos := 0, gos_errno := GOS_END_OF_OPTIONS\<rparr>)"
  by (subst file_row.simps) (simp add: at_row_def file_text_def fgets_def)

text \<open>Reading on from the start of a row.\<close>

definition run_from :: "nat \<Rightarrow> get_opt_state \<Rightarrow> int \<Rightarrow> string option \<Rightarrow> ((int \<times> string option) list \<times> get_opt_state) outcome" where
  "run_from n gos option arg =
     bindO (file_row gos option arg) (\<lambda>(res, option, arg, gos).
       if res < 0 then Ret ([], gos) else bindO (opt_run n gos) (\<lambda>(xs, gos). Ret ((option, arg) # xs, gos)))"

lemma opt_run_tail:
  assumes "at_row go path b rows gos" "at_tail gos"
  shows "\<exists>pos. opt_run (Suc n) gos = run_from n (gos\<lparr>gos_pos := pos\<rparr>) (gos_last_opt gos) None"
  using tail_step [OF assms, of 0 None] by (auto simp: opt_run.simps run_from_def)

lemma opt_run_row:
  assumes "at_row go path b rows gos" "gos_pos gos < 0"
  shows "opt_run (Suc n) gos = run_from n gos 0 None"
  using assms by (simp add: opt_run.simps run_from_def tgetopt_def get_opt_file_def at_row_def)

lemma run_file:
  "at_row go path b rows gos \<Longrightarrow> list_all (\<lambda>r. row_ok r \<and> line_ok (row_text r)) rows \<Longrightarrow> known go path b rows \<Longrightarrow>
   \<exists>g. run_from (length (settings go path b rows)) gos option arg = Ret (settings go path b rows, g) \<and>
     gos_errno g = GOS_END_OF_OPTIONS"
proof (induction rows arbitrary: b gos option arg)
  case Nil
  then show ?case using file_row_end [OF Nil(1)] by (simp add: run_from_def)
next
  case (Cons r rows)
  have ok: "row_ok r" "line_ok (row_text r)" using Cons.prems(2) by auto
  show ?case
  proof (cases "case r of Setting n a c \<Rightarrow> \<not> b | _ \<Rightarrow> True")
    case True
    define b' where "b' = (case r of Header s \<Rightarrow> s = path | _ \<Rightarrow> b)"
    obtain g where g: "file_row gos option arg = file_row g option arg" "at_row go path b' rows g"
      unfolding b'_def using row_step_idle [OF Cons.prems(1) ok(2,1) True] by blast
    have "settings go path b (r # rows) = settings go path b' rows" "known go path b' rows"
      using True Cons.prems(3) by (auto simp: b'_def split: row.splits)
    then show ?thesis using Cons.IH [OF g(2)] Cons.prems(2) g(1) by (simp add: run_from_def)
  next
    case False
    then obtain n a c where r: "r = Setting n a c" and b: "b" by (auto split: row.splits)
    obtain i h where find: "go_find (\<lambda>g. go_name g = n) go 0 = Some (i, h)" "go_want_arg h \<noteq> NO_ARG" "known go path True rows"
      using Cons.prems(3) b r by (auto split: option.splits)
    have at: "at_row go path True (Setting n a c # rows) gos" using Cons.prems(1) b r by simp
    obtain g where g: "file_row gos option arg = Ret (0, int i, Some a, g)" "at_row go path True rows g" "at_tail g"
      using row_step_setting [OF at _ _ find(1,2)] ok r by blast
    obtain pos where "opt_run (Suc (length (settings go path True rows))) g =
        run_from (length (settings go path True rows)) (g\<lparr>gos_pos := pos\<rparr>) (gos_last_opt g) None"
      using opt_run_tail [OF g(2,3)] by blast
    then have "\<exists>g'. opt_run (Suc (length (settings go path True rows))) g = Ret (settings go path True rows, g') \<and>
        gos_errno g' = GOS_END_OF_OPTIONS"
      using Cons.IH [of True "g\<lparr>gos_pos := pos\<rparr>"] g(2) Cons.prems(2) find(3) by simp
    then show ?thesis using g(1) find(1) b r by (auto simp: run_from_def)
  qed
qed

section \<open>The list of sections\<close>

fun headers :: "row list \<Rightarrow> string list" where
  "headers [] = []"
| "headers (Header s # rows) = s # headers rows"
| "headers (_ # rows) = headers rows"

text \<open>The first token of a row.\<close>

lemma row_first_token:
  assumes "row_ok r" "line_ok (row_text r)"
  shows "\<exists>tok pos. next_token (row_text r @ NUL # NUL # z) 0 = Ret (tok, pos) \<and>
    (case r of Header s \<Rightarrow> tok = Some (''['' @ s @ '']'') | _ \<Rightarrow> (\<forall>t. tok = Some t \<longrightarrow> ch t 0 \<noteq> CHR ''[''))"
proof (cases r)
  case Empty
  then show ?thesis using next_token_end [of "[]" "[]" "NUL # z"] by simp
next
  case (Remark t)
  then show ?thesis
    using next_token_delim [of "[]" "CHR ''#''" "[]" "t @ NUL # NUL # z"] by (simp add: in_set_def delimiters_def ch_def)
next
  case (Header s)
  let ?h = "''['' @ s @ '']''"
  have "list_all word_char ?h" "length ?h < MAX_STR"
    using assms by (auto simp: Header word_char_def NUL_def in_set_def white_space_def delimiters_def line_ok_def)
  then show ?thesis
    using next_token_word [of "[]" ?h NUL "[]" "NUL # z"] by (simp add: Header word_end_def)
next
  case (Setting n a c)
  have "list_all word_char n" "n \<noteq> []" "length n < MAX_STR" "hd n \<noteq> CHR ''[''"
    using assms by (auto simp: Setting is_word_def line_ok_def)
  then show ?thesis
    using next_token_word [of "[]" n "CHR '' ''" "[]"]
    by (cases n) (auto simp: Setting word_end_def in_set_def white_space_def ch_def)
qed

lemma sect_add_room:
  "s_last s < s_num s \<Longrightarrow> length (s_p s) = s_num s \<Longrightarrow>
   sect_add True s x = Ret (s\<lparr>s_p := (s_p s)[s_last s := Some x], s_last := s_last s + 1\<rparr>)"
  by (simp add: sect_add_def)

lemma sect_add_full: "s_last s = s_num s \<Longrightarrow> length (s_p s) = s_num s \<Longrightarrow> sect_add ok s x = Undef"
  by (simp add: sect_add_def arr_set_def)

lemma sections_run:
  "list_all (\<lambda>r. row_ok r \<and> line_ok (row_text r)) rows \<Longrightarrow> length (s_p s) = s_num s \<Longrightarrow> s_last s = length xs \<Longrightarrow>
   take (length xs) (s_p s) = map Some xs \<Longrightarrow> length xs \<le> s_num s \<Longrightarrow>
   (if length (xs @ headers rows) \<le> s_num s
    then \<exists>s'. sections_loop (file_text rows) buf s = Ret (Inr s') \<and> s_last s' = length (xs @ headers rows) \<and>
      take (s_last s') (s_p s') = map Some (xs @ headers rows)
    else sections_loop (file_text rows) buf s = Undef)"
proof (induction rows arbitrary: s xs buf)
  case Nil
  then show ?case by (subst sections_loop.simps) (simp add: file_text_def fgets_def)
next
  case (Cons r rows)
  have ok: "row_ok r" "line_ok (row_text r)" using Cons.prems(1) by auto
  define z where "z = drop (length (row_text r) + 2) buf"
  let ?buf = "row_text r @ NUL # NUL # z"
  obtain tok pos where tok: "next_token ?buf 0 = Ret (tok, pos)"
    "case r of Header s \<Rightarrow> tok = Some (''['' @ s @ '']'') | _ \<Rightarrow> (\<forall>t. tok = Some t \<longrightarrow> ch t 0 \<noteq> CHR ''['')"
    using row_first_token [OF ok, of z] by blast
  have line: "fgets MAX_STR (file_text (r # rows)) = Some (row_text r @ [CHR 0x0A], file_text rows)"
    "put_line (row_text r @ [CHR 0x0A]) buf = ?buf"
    using fgets_row [OF ok(2)] put_row [OF ok(2)] by (simp_all add: file_text_def z_def)
  show ?case
  proof (cases "\<exists>h. r = Header h")
    case False
    have "headers (r # rows) = headers rows" using False by (cases r) auto
    moreover have "\<forall>t. tok = Some t \<longrightarrow> ch t 0 \<noteq> CHR ''[''" using tok(2) False by (cases r) auto
    then have "sections_loop (file_text (r # rows)) buf s = sections_loop (file_text rows) ?buf s"
      using tok(1) line by (subst sections_loop.simps) (cases tok, simp_all)
    ultimately show ?thesis using Cons.IH [of s xs ?buf] Cons.prems by (auto split: if_splits)
  next
    case True
    then obtain h where r: "r = Header h" by blast
    have eq: "sections_loop (file_text (r # rows)) buf s = bindO (sect_add True s h) (\<lambda>s. sections_loop (file_text rows) ?buf s)"
      using tok line r by (subst sections_loop.simps) (simp add: ch_def butlast_append)
    show ?thesis
    proof (cases "length xs = s_num s")
      case True
      then show ?thesis using eq sect_add_full [of s True h] Cons.prems r by simp
    next
      case False
      let ?s = "s\<lparr>s_p := (s_p s)[s_last s := Some h], s_last := s_last s + 1\<rparr>"
      have "take (length (xs @ [h])) (s_p ?s) = map Some (xs @ [h])"
        using Cons.prems False by (simp add: take_Suc_conv_app_nth)
      then show ?thesis
        using eq sect_add_room [of s h] Cons.IH [of ?s "xs @ [h]" ?buf] Cons.prems False r
        by (auto split: if_splits)
    qed
  qed
qed

section \<open>Quoted strings\<close>

definition plain_char :: "char \<Rightarrow> bool" where
  "plain_char c \<longleftrightarrow> c \<noteq> NUL \<and> c \<noteq> CHR 0x22 \<and> c \<noteq> CHR 0x5C"

lemma copy_out_run:
  "list_all plain_char w \<Longrightarrow> length tok + length w \<le> MAX_STR \<Longrightarrow>
   copy_out_loop (pre @ w @ CHR 0x22 # post) (length pre) tok = Ret (tok @ w, length pre + length w)"
proof (induction w arbitrary: pre tok)
  case Nil
  then show ?case using rd_append [of pre "CHR 0x22" post] by (subst copy_out_loop.simps) simp
next
  case (Cons x w)
  have "copy_out_loop ((pre @ [x]) @ w @ CHR 0x22 # post) (length (pre @ [x])) (tok @ [x]) =
      Ret ((tok @ [x]) @ w, length (pre @ [x]) + length w)"
    using Cons.prems by (intro Cons.IH) auto
  moreover have "x \<noteq> NUL" "x \<noteq> CHR 0x22" "x \<noteq> CHR 0x5C" using Cons.prems(1) by (auto simp: plain_char_def)
  ultimately show ?case
    using Cons.prems(2) rd_append [of pre x "w @ CHR 0x22 # post"]
    by (subst copy_out_loop.simps) (simp add: add_tok_def)
qed

text \<open>A string in quotes inside a token, and the byte that is lost behind it.\<close>

lemma token_loop_quoted:
  assumes "list_all plain_char w" "length tok + length w \<le> MAX_STR"
  shows "token_loop (pre @ CHR 0x22 # w @ CHR 0x22 # c # post) (length pre) tok =
    token_loop (pre @ CHR 0x22 # w @ CHR 0x22 # c # post) (length pre + length w + 3) (tok @ w)"
proof -
  let ?buf = "pre @ CHR 0x22 # w @ CHR 0x22 # c # post"
  have 1: "rd ?buf (length pre) = Ret (CHR 0x22)" by (rule rd_append)
  have 2: "copy_out_loop ?buf (length pre + 1) tok = Ret (tok @ w, length pre + 1 + length w)"
    using copy_out_run [OF assms, of "pre @ [CHR 0x22]" "c # post"] by simp
  have 3: "rd ?buf (length pre + 1 + length w) = Ret (CHR 0x22)"
    using rd_append [of "pre @ CHR 0x22 # w" "CHR 0x22" "c # post"] by simp
  have "copy_out_string ?buf tok (length pre) = Ret (tok @ w, length pre + length w + 2)"
    using 1 2 3 by (simp add: copy_out_string_def NUL_def)
  then show ?thesis
    using 1 by (subst token_loop.simps) (simp add: NUL_def in_set_def white_space_def numeral_eq_Suc)
qed

section \<open>Properties\<close>

text \<open>
  C28. Reading a configuration file: for every file of blank lines, remarks, section headers and
  settings, the calls of \<open>tgetopt\<close> return exactly the settings of the selected section, in the
  order of the file, whatever stands in the other sections, and end with \<open>GOS_END_OF_OPTIONS\<close>.
  Without a section the start of the file up to the first header is read.
\<close>

theorem tgetopt_file_settings:
  assumes "list_all (\<lambda>r. row_ok r \<and> line_ok (row_text r)) rows"
    "known go (case path of None \<Rightarrow> [] | Some p \<Rightarrow> p) (path = None \<or> path = Some []) rows"
    "tgetopt_file_init True \<lparr>f_all = file_text rows, f_rest = file_text rows, f_err = False\<rparr> path go = Some gos"
  defines "xs \<equiv> settings go (case path of None \<Rightarrow> [] | Some p \<Rightarrow> p) (path = None \<or> path = Some []) rows"
  shows "\<exists>gos'. opt_run (length xs + 1) gos = Ret (xs, gos') \<and> tgetopt_errno gos' = GOS_END_OF_OPTIONS"
proof -
  have at: "at_row go (case path of None \<Rightarrow> [] | Some p \<Rightarrow> p) (path = None \<or> path = Some []) rows gos" "gos_pos gos < 0"
    using assms(3) by (auto simp: tgetopt_file_init_def at_row_def gos_zero_def GOS_OK_def)
  then show ?thesis
    unfolding xs_def tgetopt_errno_def using run_file [OF at(1) assms(1,2)] opt_run_row [OF at] by simp
qed

definition sample_rows :: "row list" where
  "sample_rows = [Header ''common'', Setting ''version'' ''1.1'' (Some '' compat''), Empty, Remark '' servers'',
     Header ''gnu'', Setting ''host'' ''prep.ai.mit.edu'' None, Setting ''version'' ''1.1'' None]"

theorem tgetopt_file_settings_witness:
  "\<exists>gos gos'. tgetopt_file_init True \<lparr>f_all = file_text sample_rows, f_rest = file_text sample_rows, f_err = False\<rparr>
      (Some ''gnu'') sample_go = Some gos \<and>
    opt_run 3 gos = Ret ([(0, Some ''prep.ai.mit.edu''), (2, Some ''1.1'')], gos') \<and> tgetopt_errno gos' = GOS_END_OF_OPTIONS"
proof -
  have "list_all (\<lambda>r. row_ok r \<and> line_ok (row_text r)) sample_rows"
    by (simp add: sample_rows_def is_word_def word_char_def NUL_def in_set_def white_space_def delimiters_def
        line_ok_def MAX_STR_def)
  moreover have "known sample_go ''gnu'' False sample_rows"
    by (simp add: sample_rows_def sample_go_def)
  moreover have "settings sample_go ''gnu'' False sample_rows = [(0, Some ''prep.ai.mit.edu''), (2, Some ''1.1'')]"
    by (simp add: sample_rows_def sample_go_def)
  moreover obtain gos where "tgetopt_file_init True \<lparr>f_all = file_text sample_rows, f_rest = file_text sample_rows, f_err = False\<rparr>
      (Some ''gnu'') sample_go = Some gos" by (simp add: tgetopt_file_init_def)
  ultimately show ?thesis
    using tgetopt_file_settings [of sample_rows sample_go "Some ''gnu''" gos] by (simp add: numeral_eq_Suc)
qed

text \<open>
  \<open>tgetopt_sections\<close> returns the section names of a file in their order as long as there are at
  most \<open>SECT_CHUNK\<close> of them; with one more, \<open>sect_add\<close> writes behind the array.
\<close>

theorem tgetopt_sections_bound:
  assumes "list_all (\<lambda>r. row_ok r \<and> line_ok (row_text r)) rows" "gos_type gos = GOS_FILE" "f_all (gos_fp gos) = file_text rows"
  shows "tgetopt_sections buf gos =
    (if length (headers rows) \<le> SECT_CHUNK then Ret (Some (headers rows), gos\<lparr>gos_errno := GOS_ERRNO\<rparr>) else Undef)"
proof -
  let ?s = "\<lparr>s_num = SECT_CHUNK, s_last = 0, s_p = arr_alloc SECT_CHUNK\<rparr>"
  have run: "if length (headers rows) \<le> SECT_CHUNK
    then \<exists>s'. sections_loop (file_text rows) buf ?s = Ret (Inr s') \<and> s_last s' = length (headers rows) \<and>
      take (s_last s') (s_p s') = map Some (headers rows)
    else sections_loop (file_text rows) buf ?s = Undef"
    using sections_run [OF assms(1), of ?s "[]" buf] by (auto split: if_splits)
  show ?thesis
  proof (cases "length (headers rows) \<le> SECT_CHUNK")
    case True
    then obtain s' where "sections_loop (file_text rows) buf ?s = Ret (Inr s')" "take (s_last s') (s_p s') = map Some (headers rows)"
      using run by auto
    then show ?thesis using True assms(2,3) by (simp add: tgetopt_sections_def sect_init_def list_all_iff o_def)
  next
    case False
    then show ?thesis using run assms(2,3) by (simp add: tgetopt_sections_def sect_init_def)
  qed
qed

theorem tgetopt_sections_bound_witness:
  "tgetopt_sections [] (gos_zero\<lparr>gos_type := GOS_FILE, gos_fp := \<lparr>f_all = file_text sample_rows, f_rest = [], f_err = False\<rparr>\<rparr>) =
     Ret (Some [''common'', ''gnu''], gos_zero\<lparr>gos_type := GOS_FILE,
       gos_fp := \<lparr>f_all = file_text sample_rows, f_rest = [], f_err = False\<rparr>, gos_errno := GOS_ERRNO\<rparr>) \<and>
   tgetopt_sections [] (gos_zero\<lparr>gos_type := GOS_FILE, gos_fp := \<lparr>f_all = file_text (replicate 21 (Header ''s'')), f_rest = [], f_err = False\<rparr>\<rparr>) = Undef"
proof -
  have "list_all (\<lambda>r. row_ok r \<and> line_ok (row_text r)) sample_rows"
    by (simp add: sample_rows_def is_word_def word_char_def NUL_def in_set_def white_space_def delimiters_def
        line_ok_def MAX_STR_def)
  moreover have "list_all (\<lambda>r. row_ok r \<and> line_ok (row_text r)) (replicate 21 (Header ''s''))"
    by (simp add: list_all_iff word_char_def NUL_def in_set_def white_space_def delimiters_def line_ok_def MAX_STR_def)
  moreover have "headers (replicate 21 (Header ''s'')) = replicate 21 ''s''" by (simp add: numeral_eq_Suc)
  ultimately show ?thesis
    using tgetopt_sections_bound [of sample_rows "gos_zero\<lparr>gos_type := GOS_FILE, gos_fp := \<lparr>f_all = file_text sample_rows, f_rest = [], f_err = False\<rparr>\<rparr>" "[]"]
      tgetopt_sections_bound [of "replicate 21 (Header ''s'')" "gos_zero\<lparr>gos_type := GOS_FILE, gos_fp := \<lparr>f_all = file_text (replicate 21 (Header ''s'')), f_rest = [], f_err = False\<rparr>\<rparr>" "[]"]
    by (simp add: SECT_CHUNK_def sample_rows_def)
qed

text \<open>
  Two quoted strings with a comma between them are one token: after a closing quote
  \<open>next_token\<close> steps over the comma and goes on with the second string.
\<close>

theorem next_token_merges_quoted:
  assumes "list_all plain_char x" "list_all plain_char y" "length x + length y < MAX_STR"
  shows "next_token (CHR 0x22 # x @ CHR 0x22 # CHR '','' # CHR 0x22 # y @ [CHR 0x22, NUL, NUL]) 0 =
    Ret (Some (x @ y), int (length x + length y + 6))"
proof -
  let ?buf = "CHR 0x22 # x @ CHR 0x22 # CHR '','' # CHR 0x22 # y @ [CHR 0x22, NUL, NUL]"
  have nul: "NUL \<notin> set (x @ y)" using assms(1,2) by (auto simp: list_all_iff plain_char_def)
  have "skip_white ?buf 0 = Ret 0" by (subst skip_white.simps) (simp add: rd_def in_set_def white_space_def)
  moreover have "token_loop ?buf 0 [] = token_loop ?buf (length x + 3) x"
    using token_loop_quoted [OF assms(1), of "[]" "[]"] assms(3) by simp
  moreover have "token_loop ?buf (length x + 3) x = token_loop ?buf (length x + length y + 6) (x @ y)"
    using token_loop_quoted [OF assms(2), of x "CHR 0x22 # x @ [CHR 0x22, CHR '','']" NUL "[NUL]"] assms(3)
    by (simp add: numeral_eq_Suc)
  moreover have "token_loop ?buf (length x + length y + 6) (x @ y) = Ret (x @ y, length x + length y + 6)"
    by (subst token_loop.simps) (simp add: rd_def nth_append nth_Cons')
  ultimately show ?thesis
    using assms(3) cstr_word [OF nul] by (simp add: next_token_def rd_def NUL_def in_set_def delimiters_def add_tok_def)
qed

theorem next_token_merges_quoted_witness:
  "next_token ([CHR 0x22] @ ''a b'' @ [CHR 0x22, CHR '','', CHR 0x22] @ ''c'' @ [CHR 0x22, NUL, NUL]) 0 = Ret (Some ''a bc'', 10)"
  using next_token_merges_quoted [of "''a b''" "''c''"] by (simp add: plain_char_def NUL_def MAX_STR_def)

end
