(* ===== verification/Heap_List.thy ===== *)
theory Heap_List
  imports Spegla_Prelude
begin

text \<open>
  The binary heap of container.c (\<open>struct heap_list\<close>, lines 1320-1541), the structure
  that orders both directory listings before they are merged. The elements sit at the
  indices \<open>0 .. heap_keys - 1\<close>; the parent of \<open>i\<close> is \<open>i >> 1\<close>, so index 0 is the
  root, its only proper child is 1, and from there on it is the usual 1-based heap.
\<close>

section \<open>Model\<close>

record 'a heap_list =
  heap_size :: nat
  heap_keys :: nat
  heap_comp_fun :: "'a \<Rightarrow> 'a \<Rightarrow> int"
  heap_data :: "'a arr"

definition HEAP_CHUNK :: nat where
  "HEAP_CHUNK = 2"

text \<open>The children are computed as \<open>int\<close>; the shift overflows from \<open>2 ^ 30\<close> on.\<close>

definition HEAP_LEFT :: "nat \<Rightarrow> nat outcome" where
  "HEAP_LEFT i = (if i < 2 ^ 30 then Ret (2 * i) else Undef)"

definition HEAP_RIGHT :: "nat \<Rightarrow> nat outcome" where
  "HEAP_RIGHT i = (if i < 2 ^ 30 then Ret (2 * i + 1) else Undef)"

text \<open>The flags \<open>ok1\<close>, \<open>ok2\<close>, \<open>ok\<close> say whether the allocations of a call succeed.\<close>

definition heap_init :: "bool \<Rightarrow> bool \<Rightarrow> bool \<Rightarrow> ('a \<Rightarrow> 'a \<Rightarrow> int) \<Rightarrow> 'a heap_list outcome" where
  "heap_init container_err_exit ok1 ok2 comp_fun =
     (if \<not> ok1 then alloc_fail container_err_exit
      else if \<not> ok2 then alloc_fail container_err_exit
      else Ret \<lparr>heap_size = HEAP_CHUNK, heap_keys = 0, heap_comp_fun = comp_fun,
                heap_data = arr_alloc HEAP_CHUNK\<rparr>)"

definition heap_clone :: "bool \<Rightarrow> bool \<Rightarrow> bool \<Rightarrow> 'a heap_list option \<Rightarrow> 'a heap_list outcome" where
  "heap_clone container_err_exit ok1 ok2 h =
     (case h of None \<Rightarrow> Err EOTHER
      | Some h \<Rightarrow>
        if \<not> ok1 then alloc_fail container_err_exit
        else if \<not> ok2 then alloc_fail container_err_exit
        else bindO (arr_copy (arr_alloc (heap_size h)) 0 (heap_data h) 0 (heap_size h))
               (\<lambda>d. Ret (h\<lparr>heap_data := d\<rparr>)))"

text \<open>\<open>heap_free\<close> calls \<open>free_fun\<close> on the elements in index order; the model returns them.\<close>

fun heap_free_loop :: "'a arr \<Rightarrow> nat \<Rightarrow> nat \<Rightarrow> 'a list outcome" where
  "heap_free_loop p i 0 = Ret []"
| "heap_free_loop p i (Suc n) =
     bindO (arr_get p i) (\<lambda>x. bindO (heap_free_loop p (Suc i) n) (\<lambda>xs. Ret (x # xs)))"

definition heap_free :: "'a heap_list \<Rightarrow> bool \<Rightarrow> 'a list outcome" where
  "heap_free h free_fun_given =
     (if free_fun_given then heap_free_loop (heap_data h) 0 (heap_keys h) else Ret [])"

definition heap_inc :: "bool \<Rightarrow> 'a heap_list \<Rightarrow> 'a heap_list outcome" where
  "heap_inc ok h =
     (let size = u32 (heap_size h * 2) in
      if \<not> ok then Err ENOMEM
      else Ret (h\<lparr>heap_data := arr_realloc (heap_data h) size, heap_size := size\<rparr>))"

definition heap_decr :: "bool \<Rightarrow> 'a heap_list \<Rightarrow> 'a heap_list" where
  "heap_decr ok h =
     (if heap_size h = HEAP_CHUNK then h
      else let size = heap_size h div 2 in
        if \<not> ok then h
        else h\<lparr>heap_data := arr_realloc (heap_data h) size, heap_size := size\<rparr>)"

definition heap_exchange :: "'a arr \<Rightarrow> nat \<Rightarrow> nat \<Rightarrow> 'a arr outcome" where
  "heap_exchange p a b =
     bindO (arr_get p a) (\<lambda>tmp. bindO (arr_get p b) (\<lambda>y.
       bindO (arr_set p a y) (\<lambda>p1. arr_set p1 b tmp)))"

text \<open>The guard \<open>a < heap_keys && comp_fun (p[a], p[b]) > 0\<close>.\<close>

definition heap_gt :: "('a \<Rightarrow> 'a \<Rightarrow> int) \<Rightarrow> nat \<Rightarrow> 'a arr \<Rightarrow> nat \<Rightarrow> nat \<Rightarrow> bool outcome" where
  "heap_gt cmp keys p a b =
     (if a < keys
      then bindO (arr_get p a) (\<lambda>x. bindO (arr_get p b) (\<lambda>y. Ret (0 < cmp x y)))
      else Ret False)"

function heap_heapify :: "('a \<Rightarrow> 'a \<Rightarrow> int) \<Rightarrow> nat \<Rightarrow> 'a arr \<Rightarrow> nat \<Rightarrow> 'a arr outcome" where
  "heap_heapify cmp keys p i =
     bindO (HEAP_LEFT i) (\<lambda>l. bindO (HEAP_RIGHT i) (\<lambda>r.
       bindO (heap_gt cmp keys p l i) (\<lambda>b1.
         let largest = (if b1 then l else i) in
         bindO (heap_gt cmp keys p r largest) (\<lambda>b2.
           let largest = (if b2 then r else largest) in
           if largest \<noteq> i
           then bindO (heap_exchange p i largest) (\<lambda>p'. heap_heapify cmp keys p' largest)
           else Ret p))))"
  by pat_completeness auto
termination
  by (relation "measure (\<lambda>(cmp, keys, p, i). keys - i)")
    (auto simp: HEAP_LEFT_def HEAP_RIGHT_def heap_gt_def split: if_splits)

fun heap_push_loop :: "('a \<Rightarrow> 'a \<Rightarrow> int) \<Rightarrow> 'a \<Rightarrow> 'a arr \<Rightarrow> nat \<Rightarrow> ('a arr \<times> nat) outcome" where
  "heap_push_loop cmp data p i =
     (if 0 < i
      then bindO (arr_get p (i div 2)) (\<lambda>v.
        if cmp v data < 0
        then bindO (arr_set p i v) (\<lambda>p'. heap_push_loop cmp data p' (i div 2))
        else Ret (p, i))
      else Ret (p, i))"

declare heap_heapify.simps [simp del] heap_push_loop.simps [simp del]

text \<open>\<open>i = h->heap_keys\<close> converts to \<open>int\<close>, so the model follows the code below \<open>2 ^ 31\<close> keys.\<close>

definition heap_push :: "bool \<Rightarrow> 'a heap_list \<Rightarrow> 'a \<Rightarrow> 'a heap_list outcome" where
  "heap_push ok h data =
     bindO (if heap_keys h = heap_size h then heap_inc ok h else Ret h) (\<lambda>h.
       if 2 ^ 31 \<le> heap_keys h then Undef
       else bindO (heap_push_loop (heap_comp_fun h) data (heap_data h) (heap_keys h)) (\<lambda>(p, i).
         bindO (arr_set p i data) (\<lambda>p'.
           Ret (h\<lparr>heap_data := p', heap_keys := u32 (heap_keys h + 1)\<rparr>))))"

definition heap_peek :: "'a heap_list option \<Rightarrow> 'a outcome" where
  "heap_peek h =
     (case h of None \<Rightarrow> Err ENOENT
      | Some h \<Rightarrow> if heap_keys h = 0 then Err ENOENT else arr_get (heap_data h) 0)"

definition heap_pop :: "bool \<Rightarrow> 'a heap_list option \<Rightarrow> ('a \<times> 'a heap_list) outcome" where
  "heap_pop ok h =
     (case h of None \<Rightarrow> Err ENOENT
      | Some h \<Rightarrow>
        if heap_keys h = 0 then Err ENOENT
        else bindO (arr_get (heap_data h) 0) (\<lambda>x.
          let h = (if heap_keys h < heap_size h div 2 then heap_decr ok h else h);
              h = h\<lparr>heap_keys := heap_keys h - 1\<rparr> in
          bindO (arr_get (heap_data h) (heap_keys h)) (\<lambda>v.
            bindO (arr_set (heap_data h) 0 v) (\<lambda>p.
              bindO (heap_heapify (heap_comp_fun h) (heap_keys h) p 0) (\<lambda>p'.
                Ret (x, h\<lparr>heap_data := p'\<rparr>))))))"

definition heap_count :: "'a heap_list \<Rightarrow> nat" where
  "heap_count h = heap_keys h"

text \<open>
  \<open>heap_walk\<close> compares the signed position with the unsigned size; the comparison is
  signed on machines whose \<open>ssize_t\<close> is wider than 32 bits.
\<close>

definition heap_walk :: "'a heap_list \<Rightarrow> int \<Rightarrow> ('a \<times> int) outcome" where
  "heap_walk h pos =
     (if int (heap_size h) < pos then Err ENOENT
      else if pos < 0 then Undef
      else bindO (arr_get (heap_data h) (nat pos)) (\<lambda>x. Ret (x, pos + 1)))"

definition heap_walk_back :: "'a heap_list \<Rightarrow> int \<Rightarrow> ('a \<times> int) outcome" where
  "heap_walk_back h pos =
     (if pos < 0 then Err ENOENT
      else bindO (arr_get (heap_data h) (nat pos)) (\<lambda>x. Ret (x, pos - 1)))"

section \<open>Abstraction and invariant\<close>

definition heap_elems :: "'a heap_list \<Rightarrow> 'a list" where
  "heap_elems h = map the (take (heap_keys h) (heap_data h))"

definition heap_ordered :: "('a \<Rightarrow> 'a \<Rightarrow> int) \<Rightarrow> 'a list \<Rightarrow> bool" where
  "heap_ordered cmp xs \<longleftrightarrow> (\<forall>j < length xs. 0 < j \<longrightarrow> 0 \<le> cmp (xs ! (j div 2)) (xs ! j))"

definition heap_wf :: "'a heap_list \<Rightarrow> bool" where
  "heap_wf h \<longleftrightarrow> heap_size h = length (heap_data h) \<and> heap_keys h \<le> heap_size h \<and>
     0 < heap_size h \<and> heap_size h < 2 ^ 32 \<and> None \<notin> set (take (heap_keys h) (heap_data h))"

definition heap_invar :: "('a \<Rightarrow> 'a \<Rightarrow> int) \<Rightarrow> 'a heap_list \<Rightarrow> bool" where
  "heap_invar cmp h \<longleftrightarrow> heap_wf h \<and> heap_comp_fun h = cmp \<and> heap_ordered cmp (heap_elems h)"

text \<open>What the loops compute on the list of elements.\<close>

function sift_down :: "('a \<Rightarrow> 'a \<Rightarrow> int) \<Rightarrow> 'a list \<Rightarrow> nat \<Rightarrow> 'a list" where
  "sift_down cmp xs i =
     (let l = 2 * i; r = 2 * i + 1;
          m = (if l < length xs \<and> 0 < cmp (xs ! l) (xs ! i) then l else i);
          m = (if r < length xs \<and> 0 < cmp (xs ! r) (xs ! m) then r else m)
      in if m \<noteq> i then sift_down cmp (xs[i := xs ! m, m := xs ! i]) m else xs)"
  by pat_completeness auto
termination
  by (relation "measure (\<lambda>(cmp, xs, i). length xs - i)") (auto simp: Let_def split: if_splits)

fun sift_up :: "('a \<Rightarrow> 'a \<Rightarrow> int) \<Rightarrow> 'a \<Rightarrow> 'a list \<Rightarrow> nat \<Rightarrow> 'a list" where
  "sift_up cmp d ys i =
     (if 0 < i \<and> cmp (ys ! (i div 2)) d < 0
      then sift_up cmp d (ys[i := ys ! (i div 2)]) (i div 2)
      else ys[i := d])"

declare sift_down.simps [simp del] sift_up.simps [simp del]

text \<open>Arrays that hold the elements in front.\<close>

lemma heap_data_front:
  assumes "heap_wf h"
  obtains rest where "heap_data h = map Some (heap_elems h) @ rest"
    "length (heap_elems h) = heap_keys h"
proof -
  have "\<forall>c \<in> set (take (heap_keys h) (heap_data h)). Some (the c) = c"
    using assms unfolding heap_wf_def by (metis option.collapse)
  then have "map Some (heap_elems h) = take (heap_keys h) (heap_data h)"
    by (simp add: heap_elems_def map_idI)
  moreover have "length (heap_elems h) = heap_keys h"
    using assms by (simp add: heap_elems_def heap_wf_def)
  ultimately show thesis
    using that [of "drop (heap_keys h) (heap_data h)"] by simp
qed

lemma heap_elems_front:
  "heap_data h = map Some xs @ rest \<Longrightarrow> heap_keys h = length xs \<Longrightarrow> heap_elems h = xs"
  by (simp add: heap_elems_def)

lemma heap_wf_front:
  "heap_data h = map Some xs @ rest \<Longrightarrow> heap_keys h = length xs \<Longrightarrow>
   heap_wf h \<longleftrightarrow> heap_size h = length xs + length rest \<and> 0 < heap_size h \<and> heap_size h < 2 ^ 32"
  by (auto simp: heap_wf_def)

text \<open>The loops of the code refine the list functions, with no access out of range.\<close>

lemma heap_exchange_front:
  "a < length xs \<Longrightarrow> b < length xs \<Longrightarrow>
   heap_exchange (map Some xs @ rest) a b = Ret (map Some (xs[a := xs ! b, b := xs ! a]) @ rest)"
  by (simp add: heap_exchange_def arr_simps)

lemma heap_gt_front:
  "b < length xs \<Longrightarrow>
   heap_gt cmp (length xs) (map Some xs @ rest) a b =
     Ret (a < length xs \<and> 0 < cmp (xs ! a) (xs ! b))"
  by (simp add: heap_gt_def arr_simps)

lemma heap_heapify_refines:
  assumes "i < length xs" "length xs \<le> 2 ^ 30"
  shows "heap_heapify cmp (length xs) (map Some xs @ rest) i =
    Ret (map Some (sift_down cmp xs i) @ rest)"
  using assms
proof (induction cmp xs i rule: sift_down.induct)
  case (1 cmp xs i)
  define m1 where "m1 = (if 2 * i < length xs \<and> 0 < cmp (xs ! (2 * i)) (xs ! i) then 2 * i else i)"
  define m where "m = (if 2 * i + 1 < length xs \<and> 0 < cmp (xs ! (2 * i + 1)) (xs ! m1)
    then 2 * i + 1 else m1)"
  have m1: "m1 < length xs" and m: "m < length xs"
    using 1(2) by (auto simp: m1_def m_def)
  have step: "heap_heapify cmp (length xs) (map Some xs @ rest) i =
    (if m \<noteq> i then heap_heapify cmp (length xs) (map Some (xs[i := xs ! m, m := xs ! i]) @ rest) m
     else Ret (map Some xs @ rest))"
    using 1(2,3)
    by (subst heap_heapify.simps)
      (auto simp: HEAP_LEFT_def HEAP_RIGHT_def heap_gt_front heap_exchange_front Let_def
        m1_def m_def)
  have down: "sift_down cmp xs i =
    (if m \<noteq> i then sift_down cmp (xs[i := xs ! m, m := xs ! i]) m else xs)"
    unfolding m_def m1_def by (rule sift_down.simps [unfolded Let_def])
  show ?case
  proof (cases "m = i")
    case True
    then show ?thesis using step down by simp
  next
    case False
    have "heap_heapify cmp (length xs) (map Some (xs[i := xs ! m, m := xs ! i]) @ rest) m =
      Ret (map Some (sift_down cmp (xs[i := xs ! m, m := xs ! i]) m) @ rest)"
      using 1(1) [OF refl refl m1_def m_def] False m 1(3) by simp
    then show ?thesis using step down False by simp
  qed
qed

lemma heap_push_loop_refines:
  assumes "i < length ys"
  shows "\<exists>q j. heap_push_loop cmp d ((map Some ys @ rest)[i := c]) i = Ret (q, j) \<and>
    j < length q \<and> q[j := Some d] = map Some (sift_up cmp d ys i) @ rest"
  using assms
proof (induction cmp d ys i arbitrary: c rule: sift_up.induct)
  case (1 cmp d ys i)
  show ?case
  proof (cases "0 < i \<and> cmp (ys ! (i div 2)) d < 0")
    case True
    let ?p = "(map Some ys @ rest)[i := c]"
    have lt: "i div 2 < i" "i div 2 < length ys"
      using True 1(2) by auto
    have get: "arr_get ?p (i div 2) = Ret (ys ! (i div 2))"
      using lt by (simp add: arr_get_Ret nth_append)
    have eq: "?p[i := Some (ys ! (i div 2))] = map Some (ys[i := ys ! (i div 2)]) @ rest"
      using 1(2) by (simp add: list_update_append map_update)
    have id: "map Some (ys[i := ys ! (i div 2)]) @ rest =
      (map Some (ys[i := ys ! (i div 2)]) @ rest)[i div 2 := Some (ys ! (i div 2))]"
      using lt by (intro nth_equalityI) (auto simp: nth_append nth_list_update)
    have "\<exists>q j. heap_push_loop cmp d
       ((map Some (ys[i := ys ! (i div 2)]) @ rest)[i div 2 := Some (ys ! (i div 2))]) (i div 2) = Ret (q, j) \<and>
       j < length q \<and> q[j := Some d] =
         map Some (sift_up cmp d (ys[i := ys ! (i div 2)]) (i div 2)) @ rest"
      using 1(1) [OF True] 1(2) by simp
    then show ?thesis
      using True 1(2) get eq id
      by (subst (1) heap_push_loop.simps) (simp add: sift_up.simps [of cmp d ys] arr_set_def)
  next
    case False
    have "i div 2 < length ys" using 1(2) by (simp add: less_le_trans)
    with False show ?thesis using 1(2)
      by (subst heap_push_loop.simps)
        (auto simp: arr_get_def nth_append nth_list_update sift_up.simps [of cmp d ys]
          list_update_append map_update)
  qed
qed

section \<open>Multisets\<close>

lemma length_sift_down [simp]: "length (sift_down cmp xs i) = length xs"
  by (induction cmp xs i rule: sift_down.induct) (subst sift_down.simps, simp add: Let_def)

lemma mset_sift_down: "i < length xs \<Longrightarrow> mset (sift_down cmp xs i) = mset xs"
proof (induction cmp xs i rule: sift_down.induct)
  case (1 cmp xs i)
  show ?case
    using 1 by (subst sift_down.simps) (auto simp: Let_def mset_swap)
qed

lemma length_sift_up [simp]: "length (sift_up cmp d ys i) = length ys"
  by (induction cmp d ys i rule: sift_up.induct) (subst sift_up.simps, simp)

lemma mset_sift_up: "i < length ys \<Longrightarrow> mset (sift_up cmp d ys i) = mset (ys[i := d])"
proof (induction cmp d ys i rule: sift_up.induct)
  case (1 cmp d ys i)
  show ?case
  proof (cases "0 < i \<and> cmp (ys ! (i div 2)) d < 0")
    case True
    let ?z = "ys[i := d]"
    have lt: "i div 2 < length ys" "i div 2 \<noteq> i" using True 1(2) by auto
    have "ys[i := ys ! (i div 2), i div 2 := d] = ?z[i := ?z ! (i div 2), i div 2 := ?z ! i]"
      using lt 1(2) by simp
    also have "mset \<dots> = mset ?z"
      by (rule mset_swap) (use lt 1(2) in simp_all)
    finally have "mset (ys[i := ys ! (i div 2), i div 2 := d]) = mset ?z" .
    then show ?thesis using 1 True lt by (subst sift_up.simps) simp
  next
    case False
    then show ?thesis by (subst sift_up.simps) auto
  qed
qed

section \<open>Heap order\<close>

context comparator
begin

text \<open>Heap order with the element at \<open>k\<close> possibly too small for its place.\<close>

definition down_inv :: "'a list \<Rightarrow> nat \<Rightarrow> bool" where
  "down_inv xs k \<longleftrightarrow>
     (\<forall>j < length xs. 0 < j \<longrightarrow> j div 2 \<noteq> k \<longrightarrow> 0 \<le> cmp (xs ! (j div 2)) (xs ! j)) \<and>
     (\<forall>j < length xs. 0 < j \<longrightarrow> j div 2 = k \<longrightarrow> 0 < k \<longrightarrow> 0 \<le> cmp (xs ! (k div 2)) (xs ! j))"

text \<open>Heap order around a hole at \<open>i\<close> that \<open>d\<close> is going to fill or to pass through.\<close>

definition up_inv :: "'a \<Rightarrow> 'a list \<Rightarrow> nat \<Rightarrow> bool" where
  "up_inv d ys i \<longleftrightarrow>
     (\<forall>j < length ys. 0 < j \<longrightarrow> j \<noteq> i \<longrightarrow> j div 2 \<noteq> i \<longrightarrow> 0 \<le> cmp (ys ! (j div 2)) (ys ! j)) \<and>
     (\<forall>j < length ys. 0 < j \<longrightarrow> j \<noteq> i \<longrightarrow> j div 2 = i \<longrightarrow> 0 \<le> cmp d (ys ! j)) \<and>
     (\<forall>j < length ys. 0 < j \<longrightarrow> j \<noteq> i \<longrightarrow> j div 2 = i \<longrightarrow> 0 < i \<longrightarrow> 0 \<le> cmp (ys ! (i div 2)) (ys ! j))"

lemma down_inv_stop:
  assumes "down_inv xs k" "k < length xs"
    and "\<And>j. j < length xs \<Longrightarrow> 0 < j \<Longrightarrow> j div 2 = k \<Longrightarrow> 0 \<le> cmp (xs ! k) (xs ! j)"
  shows "heap_ordered cmp xs"
  using assms unfolding down_inv_def heap_ordered_def by metis

lemma down_inv_swap:
  assumes inv: "down_inv xs k" and k: "k < length xs" and m: "m < length xs" "m div 2 = k" "0 < m" "m \<noteq> k"
    and gt: "0 \<le> cmp (xs ! m) (xs ! k)"
    and big: "\<And>j. j < length xs \<Longrightarrow> 0 < j \<Longrightarrow> j \<noteq> k \<Longrightarrow> j div 2 = k \<Longrightarrow> 0 \<le> cmp (xs ! m) (xs ! j)"
  shows "down_inv (xs[k := xs ! m, m := xs ! k]) m"
proof -
  let ?z = "xs[k := xs ! m, m := xs ! k]"
  have ord: "\<And>j. j < length xs \<Longrightarrow> 0 < j \<Longrightarrow> j div 2 \<noteq> k \<Longrightarrow> 0 \<le> cmp (xs ! (j div 2)) (xs ! j)"
    and par: "\<And>j. j < length xs \<Longrightarrow> 0 < j \<Longrightarrow> j div 2 = k \<Longrightarrow> 0 < k \<Longrightarrow> 0 \<le> cmp (xs ! (k div 2)) (xs ! j)"
    using inv by (auto simp: down_inv_def)
  have z: "?z ! j = (if j = m then xs ! k else if j = k then xs ! m else xs ! j)" if "j < length xs" for j
    using that k m by (simp add: nth_list_update)
  have "0 \<le> cmp (?z ! (j div 2)) (?z ! j)" if j: "j < length xs" "0 < j" "j div 2 \<noteq> m" for j
  proof (cases "j div 2 = k")
    case True
    then have "?z ! (j div 2) = xs ! m" using z [of k] k m by simp
    then show ?thesis using z [OF j(1)] True gt big [OF j(1,2)] cmp_refl by auto
  next
    case False
    then have "?z ! (j div 2) = xs ! (j div 2)" using z [of "j div 2"] j by simp
    moreover have "j \<noteq> m" using False m by auto
    ultimately show ?thesis using z [OF j(1)] ord [OF j(1,2) False] par [OF m(1,3,2)] False j by auto
  qed
  moreover have "0 \<le> cmp (?z ! (m div 2)) (?z ! j)"
    if j: "j < length xs" "0 < j" "j div 2 = m" for j
  proof -
    have ne: "j \<noteq> m" "j \<noteq> k" "j div 2 \<noteq> k" using j m by auto
    have "0 \<le> cmp (xs ! m) (xs ! j)" using ord [OF j(1,2) ne(3)] j by simp
    then show ?thesis using z [OF j(1)] z [OF k] ne m by simp
  qed
  ultimately show ?thesis unfolding down_inv_def length_list_update by blast
qed

lemma heap_ordered_sift_down:
  "i < length xs \<Longrightarrow> down_inv xs i \<Longrightarrow> heap_ordered cmp (sift_down cmp xs i)"
proof (induction "length xs - i" arbitrary: xs i rule: less_induct)
  case less
  define m1 where "m1 = (if 2 * i < length xs \<and> 0 < cmp (xs ! (2 * i)) (xs ! i) then 2 * i else i)"
  define m where "m = (if 2 * i + 1 < length xs \<and> 0 < cmp (xs ! (2 * i + 1)) (xs ! m1)
    then 2 * i + 1 else m1)"
  have down: "sift_down cmp xs i =
    (if m \<noteq> i then sift_down cmp (xs[i := xs ! m, m := xs ! i]) m else xs)"
    unfolding m_def m1_def by (rule sift_down.simps [unfolded Let_def])
  have kids: "j = 2 * i \<or> j = 2 * i + 1" if "j div 2 = i" for j :: nat
    using that by presburger
  have big1: "2 * i < length xs \<Longrightarrow> 0 \<le> cmp (xs ! m1) (xs ! (2 * i))" and ge1: "0 \<le> cmp (xs ! m1) (xs ! i)"
    using cmp_refl cmp_le_flip by (auto simp: m1_def not_less)
  have up: "0 \<le> cmp (xs ! m) (xs ! m1)"
    using cmp_refl by (auto simp: m_def)
  have big2: "2 * i + 1 < length xs \<Longrightarrow> 0 \<le> cmp (xs ! m) (xs ! (2 * i + 1))"
    using cmp_refl cmp_le_flip by (auto simp: m_def not_less)
  have big: "0 \<le> cmp (xs ! m) (xs ! j)" if "j < length xs" "j div 2 = i" for j
    using kids [OF that(2)] big1 big2 up cmp_trans that(1) by blast
  show ?case
  proof (cases "m = i")
    case True
    then show ?thesis using down down_inv_stop [OF less.prems(2,1)] big by simp
  next
    case False
    have m: "m < length xs" "m div 2 = i" "0 < m" "m \<noteq> i"
      using False by (auto simp: m_def m1_def split: if_splits)
    have "0 \<le> cmp (xs ! m) (xs ! i)"
      using up ge1 by (rule cmp_trans)
    then have "down_inv (xs[i := xs ! m, m := xs ! i]) m"
      using down_inv_swap [OF less.prems(2,1) m] big by blast
    moreover have "i < m" using m by auto
    ultimately have "heap_ordered cmp (sift_down cmp (xs[i := xs ! m, m := xs ! i]) m)"
      using less.hyps [of "xs[i := xs ! m, m := xs ! i]" m] m by simp
    then show ?thesis using down False by simp
  qed
qed

lemma up_inv_move:
  assumes inv: "up_inv d ys i" and i: "i < length ys" "0 < i" and lt: "cmp (ys ! (i div 2)) d < 0"
  shows "up_inv d (ys[i := ys ! (i div 2)]) (i div 2)"
proof -
  let ?p = "i div 2" and ?z = "ys[i := ys ! (i div 2)]"
  have ord: "\<And>j. j < length ys \<Longrightarrow> 0 < j \<Longrightarrow> j \<noteq> i \<Longrightarrow> j div 2 \<noteq> i \<Longrightarrow> 0 \<le> cmp (ys ! (j div 2)) (ys ! j)"
    and par: "\<And>j. j < length ys \<Longrightarrow> 0 < j \<Longrightarrow> j \<noteq> i \<Longrightarrow> j div 2 = i \<Longrightarrow> 0 \<le> cmp (ys ! ?p) (ys ! j)"
    using inv i by (auto simp: up_inv_def)
  have p: "?p < i" "?p < length ys" using i by auto
  have z: "?z ! j = (if j = i then ys ! ?p else ys ! j)" if "j < length ys" for j
    using that by (simp add: nth_list_update)
  have dp: "0 \<le> cmp d (ys ! ?p)" using lt cmp_less_flip by (simp add: less_imp_le)
  have gp: "0 \<le> cmp (ys ! (?p div 2)) (ys ! ?p)" if "0 < ?p"
    using ord [of ?p] that p by simp
  have sib: "0 \<le> cmp (ys ! ?p) (?z ! j)" if "j < length ys" "0 < j" "j div 2 = ?p" for j
  proof (cases "j = i")
    case True
    then show ?thesis using z [OF that(1)] cmp_refl by simp
  next
    case False
    then show ?thesis using z [OF that(1)] ord [OF that(1,2) False] that(3) p by simp
  qed
  have "0 \<le> cmp (?z ! (j div 2)) (?z ! j)" if "j < length ys" "0 < j" "j div 2 \<noteq> ?p" for j
    using z [OF that(1)] z [of "j div 2"] ord [OF that(1,2)] par [OF that(1,2)] that p
    by (cases "j = i"; cases "j div 2 = i") auto
  moreover have "0 \<le> cmp (?z ! (?p div 2)) (?z ! j)" if "j < length ys" "0 < j" "j div 2 = ?p" "0 < ?p" for j
    using cmp_trans [OF gp sib] that z [of "?p div 2"] p by auto
  ultimately show ?thesis
    using cmp_trans [OF dp sib] by (simp add: up_inv_def)
qed

lemma up_inv_stop:
  assumes inv: "up_inv d ys i" and i: "i < length ys" and ge: "0 < i \<Longrightarrow> 0 \<le> cmp (ys ! (i div 2)) d"
  shows "heap_ordered cmp (ys[i := d])"
proof -
  have "0 \<le> cmp (ys[i := d] ! (j div 2)) (ys[i := d] ! j)" if "j < length ys" "0 < j" for j
    using assms that unfolding up_inv_def
    by (cases "j = i"; cases "j div 2 = i") (auto simp: nth_list_update)
  then show ?thesis by (simp add: heap_ordered_def)
qed

lemma heap_ordered_sift_up:
  "i < length ys \<Longrightarrow> up_inv d ys i \<Longrightarrow> heap_ordered cmp (sift_up cmp d ys i)"
proof (induction i arbitrary: ys rule: less_induct)
  case (less i)
  show ?case
  proof (cases "0 < i \<and> cmp (ys ! (i div 2)) d < 0")
    case True
    then show ?thesis using less.prems less.IH [of "i div 2"] up_inv_move [OF less.prems(2,1)]
      by (subst sift_up.simps) auto
  next
    case False
    then show ?thesis using up_inv_stop [OF less.prems(2,1)] by (subst sift_up.simps) auto
  qed
qed

lemma up_inv_append: "heap_ordered cmp xs \<Longrightarrow> up_inv d (xs @ [c]) (length xs)"
  by (auto simp: up_inv_def heap_ordered_def nth_append)

lemma heap_ordered_root:
  assumes "heap_ordered cmp xs" "i < length xs"
  shows "0 \<le> cmp (xs ! 0) (xs ! i)"
  using assms(2)
proof (induction i rule: less_induct)
  case (less i)
  show ?case
  proof (cases "i = 0")
    case False
    then have "0 \<le> cmp (xs ! 0) (xs ! (i div 2))" "0 \<le> cmp (xs ! (i div 2)) (xs ! i)"
      using less assms(1) by (auto simp: heap_ordered_def)
    then show ?thesis by (rule cmp_trans)
  qed (simp add: cmp_refl)
qed

lemma down_inv_pop:
  assumes "heap_ordered cmp xs" "2 \<le> length xs"
  shows "down_inv ((butlast xs)[0 := last xs]) 0"
  using assms by (auto simp: down_inv_def heap_ordered_def nth_list_update nth_butlast)

end

section \<open>The operations keep the invariant\<close>

text \<open>How far the model reaches: the indices and shifts of the code stay within \<open>int\<close>.\<close>

definition heap_small :: "'a heap_list \<Rightarrow> bool" where
  "heap_small h \<longleftrightarrow> heap_keys h < 2 ^ 30"

lemma heap_inc_wf:
  assumes "heap_wf h" "heap_small h" "heap_keys h = heap_size h" "heap_inc ok h = Ret h'"
  shows "heap_wf h' \<and> heap_elems h' = heap_elems h \<and> heap_keys h' = heap_keys h \<and>
    heap_keys h' < heap_size h' \<and> heap_comp_fun h' = heap_comp_fun h"
proof -
  obtain rest where d: "heap_data h = map Some (heap_elems h) @ rest"
    and len: "length (heap_elems h) = heap_keys h"
    using heap_data_front [OF assms(1)] .
  have size: "u32 (heap_size h * 2) = 2 * heap_size h"
    using assms by (simp add: heap_small_def width_simps)
  obtain rest' where r: "arr_realloc (heap_data h) (2 * heap_size h) = map Some (heap_elems h) @ rest'"
    using arr_realloc_front [of "heap_elems h" "2 * heap_size h" rest] d len assms(3) by auto
  have h': "h' = h\<lparr>heap_data := map Some (heap_elems h) @ rest', heap_size := 2 * heap_size h\<rparr>"
    using assms(4) size r by (auto simp: heap_inc_def Let_def split: if_splits)
  have tot: "length (heap_elems h) + length rest' = 2 * heap_size h"
    using arg_cong [OF r, of length] by simp
  have "heap_elems h' = heap_elems h"
    by (rule heap_elems_front [of _ _ rest']) (use h' len in simp_all)
  moreover have "heap_wf h'"
    using assms tot len h'
    by (subst heap_wf_front [of _ "heap_elems h" rest']) (auto simp: heap_wf_def heap_small_def)
  moreover have "0 < heap_size h" using assms(1) unfolding heap_wf_def by blast
  ultimately show ?thesis using assms(3) h' by simp
qed

lemma heap_decr_wf:
  assumes "heap_wf h" "heap_keys h < heap_size h div 2"
  shows "heap_wf (heap_decr ok h) \<and> heap_elems (heap_decr ok h) = heap_elems h \<and>
    heap_keys (heap_decr ok h) = heap_keys h \<and> heap_comp_fun (heap_decr ok h) = heap_comp_fun h"
proof -
  obtain rest where d: "heap_data h = map Some (heap_elems h) @ rest"
    and len: "length (heap_elems h) = heap_keys h"
    using heap_data_front [OF assms(1)] .
  obtain rest' where r: "arr_realloc (heap_data h) (heap_size h div 2) = map Some (heap_elems h) @ rest'"
    using arr_realloc_front [of "heap_elems h" "heap_size h div 2" rest] d len assms(2) by auto
  have tot: "length (heap_elems h) + length rest' = heap_size h div 2"
    using arg_cong [OF r, of length] by simp
  let ?g = "h\<lparr>heap_data := map Some (heap_elems h) @ rest', heap_size := heap_size h div 2\<rparr>"
  have "heap_elems ?g = heap_elems h"
    by (rule heap_elems_front [of _ _ rest']) (use len in simp_all)
  moreover have "heap_wf ?g"
    using assms tot len
    by (subst heap_wf_front [of _ "heap_elems h" rest']) (auto simp: heap_wf_def)
  ultimately show ?thesis using assms r by (auto simp: heap_decr_def Let_def)
qed

lemma heap_push_front:
  assumes "heap_wf h" "heap_keys h < heap_size h" "heap_small h"
  shows "\<exists>h'. heap_push ok h d = Ret h' \<and> heap_wf h' \<and> heap_comp_fun h' = heap_comp_fun h \<and>
    heap_elems h' = sift_up (heap_comp_fun h) d (heap_elems h @ [d]) (heap_keys h)"
proof -
  obtain rest where dat: "heap_data h = map Some (heap_elems h) @ rest"
    and len: "length (heap_elems h) = heap_keys h"
    using heap_data_front [OF assms(1)] .
  obtain c rest' where rest: "rest = c # rest'"
    using assms dat len by (cases rest) (auto simp: heap_wf_def)
  let ?ys = "heap_elems h @ [d]"
  have p: "heap_data h = (map Some ?ys @ rest')[heap_keys h := c]"
    using dat rest by (simp add: list_update_append flip: len)
  obtain q j where q: "heap_push_loop (heap_comp_fun h) d (heap_data h) (heap_keys h) = Ret (q, j)"
    "j < length q" "q[j := Some d] = map Some (sift_up (heap_comp_fun h) d ?ys (heap_keys h)) @ rest'"
    using heap_push_loop_refines [of "heap_keys h" ?ys "heap_comp_fun h" d rest' c] p len by auto
  let ?h = "h\<lparr>heap_data := q[j := Some d], heap_keys := heap_keys h + 1\<rparr>"
  have "heap_push ok h d = Ret ?h"
    using q(1,2) assms by (simp add: heap_push_def heap_small_def width_simps arr_set_def)
  moreover have "heap_elems ?h = sift_up (heap_comp_fun h) d ?ys (heap_keys h)"
    by (rule heap_elems_front [of _ _ rest']) (use q(3) len in simp_all)
  moreover have "heap_wf ?h"
    using assms(1) dat rest len
    by (subst heap_wf_front [of _ "sift_up (heap_comp_fun h) d ?ys (heap_keys h)" rest'])
      (use q(3) in \<open>simp_all add: heap_wf_def\<close>)
  ultimately show ?thesis by auto
qed

lemma heap_push_ok:
  assumes "comparator cmp" "heap_invar cmp h" "heap_small h"
  shows "heap_push True h d = Ret h' \<Longrightarrow> heap_invar cmp h' \<and> mset (heap_elems h') = add_mset d (mset (heap_elems h))"
    and "\<exists>h'. heap_push True h d = Ret h'"
proof -
  obtain h1 where h1: "heap_push True h d = heap_push True h1 d" "heap_wf h1"
    "heap_keys h1 < heap_size h1" "heap_keys h1 = heap_keys h"
    "heap_elems h1 = heap_elems h" "heap_comp_fun h1 = cmp"
  proof (cases "heap_keys h = heap_size h")
    case True
    obtain g where g: "heap_inc True h = Ret g" by (auto simp: heap_inc_def Let_def)
    have "heap_wf g" "heap_elems g = heap_elems h" "heap_keys g = heap_keys h"
      "heap_keys g < heap_size g" "heap_comp_fun g = cmp"
      using heap_inc_wf [OF _ assms(3) True g] assms(2) by (auto simp: heap_invar_def)
    moreover from this True g have "heap_push True h d = heap_push True g d"
      by (simp add: heap_push_def)
    ultimately show thesis using that by blast
  next
    case False
    then show thesis using that [of h] assms(2) by (auto simp: heap_invar_def heap_wf_def)
  qed
  have len: "length (heap_elems h1) = heap_keys h1"
    using h1(2) by (simp add: heap_wf_def heap_elems_def)
  obtain g where g: "heap_push True h1 d = Ret g" "heap_wf g" "heap_comp_fun g = cmp"
    "heap_elems g = sift_up cmp d (heap_elems h1 @ [d]) (heap_keys h1)"
    using heap_push_front [OF h1(2,3), of True d] assms(3) h1 by (auto simp: heap_small_def)
  have "heap_ordered cmp (sift_up cmp d (heap_elems h1 @ [d]) (length (heap_elems h1)))"
    by (rule comparator.heap_ordered_sift_up [OF assms(1)])
      (use comparator.up_inv_append [OF assms(1)] assms(2) h1(5) in \<open>simp_all add: heap_invar_def\<close>)
  then have "heap_ordered cmp (heap_elems g)" using g(4) len by simp
  moreover have "mset (heap_elems g) = add_mset d (mset (heap_elems h))"
    using g(4) h1(5) by (simp add: mset_sift_up list_update_append flip: len)
  ultimately show "heap_push True h d = Ret h' \<Longrightarrow> heap_invar cmp h' \<and> mset (heap_elems h') = add_mset d (mset (heap_elems h))"
    and "\<exists>h'. heap_push True h d = Ret h'"
    using g h1(1) by (auto simp: heap_invar_def)
qed

lemma heap_peek_root:
  assumes "heap_wf h" "heap_keys h \<noteq> 0"
  shows "heap_peek (Some h) = Ret (heap_elems h ! 0)"
proof -
  obtain rest where "heap_data h = map Some (heap_elems h) @ rest"
    and "length (heap_elems h) = heap_keys h"
    using heap_data_front [OF assms(1)] .
  then show ?thesis using assms by (simp add: heap_peek_def arr_simps)
qed

lemma heap_heapify_empty: "heap_heapify cmp 0 p 0 = Ret p"
  by (subst heap_heapify.simps) (simp add: HEAP_LEFT_def HEAP_RIGHT_def heap_gt_def)

lemma heap_pop_front:
  assumes wf: "heap_wf h" and ne: "heap_keys h \<noteq> 0" and small: "heap_keys h \<le> 2 ^ 30"
  defines "xs \<equiv> heap_elems h"
  shows "\<exists>h'. heap_pop ok (Some h) = Ret (xs ! 0, h') \<and> heap_wf h' \<and>
    heap_comp_fun h' = heap_comp_fun h \<and>
    heap_elems h' = (if length xs = 1 then []
      else sift_down (heap_comp_fun h) ((butlast xs)[0 := last xs]) 0)"
proof -
  define g where "g = (if heap_keys h < heap_size h div 2 then heap_decr ok h else h)"
  have g: "heap_wf g" "heap_elems g = xs" "heap_keys g = heap_keys h" "heap_comp_fun g = heap_comp_fun h"
    using heap_decr_wf [OF wf, of ok] wf by (auto simp: g_def xs_def)
  obtain rest0 where d0: "heap_data h = map Some xs @ rest0"
    using heap_data_front [OF wf] unfolding xs_def .
  obtain rest where d: "heap_data g = map Some xs @ rest" and len: "length xs = heap_keys h"
    using heap_data_front [OF g(1)] g(2,3) by metis
  have split: "xs = butlast xs @ [last xs]" "xs \<noteq> []"
    using len ne by (metis append_butlast_last_id list.size(3), auto)
  define zs where "zs = (butlast xs)[0 := last xs]"
  let ?g = "g\<lparr>heap_keys := heap_keys h - 1\<rparr>"
  have pop: "heap_pop ok (Some h) =
    bindO (arr_set (heap_data g) 0 (last xs)) (\<lambda>p.
      bindO (heap_heapify (heap_comp_fun h) (heap_keys h - 1) p 0) (\<lambda>p'.
        Ret (xs ! 0, ?g\<lparr>heap_data := p'\<rparr>)))"
    using ne len split d0 d g(3,4)
    by (simp add: heap_pop_def arr_simps Let_def last_conv_nth flip: g_def)
  have sz: "0 < heap_size g" "heap_size g < 2 ^ 32" "heap_size g = length xs + length rest"
    using g(1) d len by (auto simp: heap_wf_def)
  show ?thesis
  proof (cases "length xs = 1")
    case True
    then have k: "heap_keys h - 1 = 0" using len by simp
    let ?p = "map Some (xs[0 := last xs]) @ rest"
    have "heap_pop ok (Some h) = Ret (xs ! 0, ?g\<lparr>heap_data := ?p\<rparr>)"
      using pop d split(2) k by (simp add: arr_simps heap_heapify_empty)
    then show ?thesis
      using True sz k g(4) by (auto simp: heap_wf_def heap_elems_def)
  next
    case False
    have lz: "length zs = heap_keys h - 1" "0 < length zs" using False len ne by (auto simp: zs_def)
    have upd: "xs[0 := last xs] = zs @ [last xs]"
      by (subst split(1)) (use lz in \<open>simp add: zs_def list_update_append\<close>)
    let ?p = "map Some (sift_down (heap_comp_fun h) zs 0) @ (Some (last xs) # rest)"
    have h: "heap_heapify (heap_comp_fun h) (length zs) (map Some zs @ (Some (last xs) # rest)) 0 = Ret ?p"
      using lz small by (intro heap_heapify_refines) auto
    have "heap_pop ok (Some h) = Ret (xs ! 0, ?g\<lparr>heap_data := ?p\<rparr>)"
      using pop d split(2) upd h lz by (simp add: arr_simps)
    moreover have "heap_elems (?g\<lparr>heap_data := ?p\<rparr>) = sift_down (heap_comp_fun h) zs 0"
      by (rule heap_elems_front [of _ _ "Some (last xs) # rest"]) (use lz in simp_all)
    moreover have "heap_wf (?g\<lparr>heap_data := ?p\<rparr>)"
      by (subst heap_wf_front [of _ "sift_down (heap_comp_fun h) zs 0" "Some (last xs) # rest"])
        (use sz lz len ne in simp_all)
    ultimately show ?thesis using False g(4) by (auto simp: zs_def)
  qed
qed

lemma mset_pop_elems: "2 \<le> length xs \<Longrightarrow> add_mset (xs ! 0) (mset ((butlast xs)[0 := last xs])) = mset xs"
proof -
  assume len: "2 \<le> length xs"
  obtain y ys where xs: "xs = y # ys" "ys \<noteq> []" using len by (cases xs; cases "tl xs") auto
  have "ys \<noteq> [] \<Longrightarrow> add_mset (last ys) (mset (butlast ys)) = mset ys"
    by (induction ys) auto
  then show ?thesis using xs by simp
qed

lemma heap_pop_ok:
  assumes cmp: "comparator cmp" and inv: "heap_invar cmp h" and ne: "heap_keys h \<noteq> 0"
    and small: "heap_keys h \<le> 2 ^ 30"
  shows "\<exists>x h'. heap_pop ok (Some h) = Ret (x, h') \<and> heap_peek (Some h) = Ret x \<and> heap_invar cmp h' \<and>
    mset (heap_elems h) = add_mset x (mset (heap_elems h')) \<and> heap_keys h' = heap_keys h - 1 \<and>
    (\<forall>y \<in> set (heap_elems h). 0 \<le> cmp x y)"
proof -
  let ?xs = "heap_elems h"
  have wf: "heap_wf h" and ord: "heap_ordered cmp ?xs" and fn: "heap_comp_fun h = cmp"
    using inv by (auto simp: heap_invar_def)
  have len: "length ?xs = heap_keys h" using wf by (simp add: heap_wf_def heap_elems_def)
  obtain h' where h': "heap_pop ok (Some h) = Ret (?xs ! 0, h')" "heap_wf h'" "heap_comp_fun h' = cmp"
    "heap_elems h' = (if length ?xs = 1 then [] else sift_down cmp ((butlast ?xs)[0 := last ?xs]) 0)"
    using heap_pop_front [OF wf ne small, of ok] fn by auto
  have len': "length (heap_elems h') = heap_keys h'" using h'(2) by (simp add: heap_wf_def heap_elems_def)
  have "heap_ordered cmp (heap_elems h') \<and> mset ?xs = add_mset (?xs ! 0) (mset (heap_elems h'))"
  proof (cases "length ?xs = 1")
    case True
    then show ?thesis using h'(4) by (auto simp: heap_ordered_def length_Suc_conv)
  next
    case False
    then have two: "2 \<le> length ?xs" using len ne by simp
    have "heap_ordered cmp (sift_down cmp ((butlast ?xs)[0 := last ?xs]) 0)"
      by (rule comparator.heap_ordered_sift_down [OF cmp])
        (use two comparator.down_inv_pop [OF cmp ord two] in simp_all)
    moreover have "mset (sift_down cmp ((butlast ?xs)[0 := last ?xs]) 0) = mset ((butlast ?xs)[0 := last ?xs])"
      using two by (intro mset_sift_down) simp
    ultimately show ?thesis using False h'(4) mset_pop_elems [OF two] by simp
  qed
  moreover have "\<forall>y \<in> set ?xs. 0 \<le> cmp (?xs ! 0) y"
    using comparator.heap_ordered_root [OF cmp ord] by (auto simp: in_set_conv_nth)
  moreover have "heap_keys h' = heap_keys h - 1"
    using calculation(1) len len' by (metis add_diff_cancel_left' plus_1_eq_Suc size_add_mset size_mset)
  ultimately show ?thesis
    using h' heap_peek_root [OF wf ne] by (auto simp: heap_invar_def)
qed

lemma heap_init_ok:
  "heap_init ee True True cmp = Ret h \<Longrightarrow> heap_invar cmp h \<and> heap_elems h = [] \<and> heap_keys h = 0"
  by (auto simp: heap_init_def HEAP_CHUNK_def heap_invar_def heap_wf_def heap_elems_def heap_ordered_def)

lemma heap_elems_empty: "heap_wf h \<Longrightarrow> heap_elems h = [] \<longleftrightarrow> heap_keys h = 0"
  by (auto simp: heap_wf_def heap_elems_def)

lemma heap_length_elems: "heap_wf h \<Longrightarrow> length (heap_elems h) = heap_keys h"
  by (simp add: heap_wf_def heap_elems_def)

section \<open>The interface the directory merge relies on\<close>

text \<open>
  What \<open>sp_sync_dir\<close> uses of its two listings: the empty queue reports \<open>ENOENT\<close>, a
  non-empty one shows and hands out an element that no other element precedes.
\<close>

locale priority_queue = comparator cmp for cmp :: "'a \<Rightarrow> 'a \<Rightarrow> int" +
  fixes pq_invar :: "'q \<Rightarrow> bool"
    and pq_elems :: "'q \<Rightarrow> 'a multiset"
    and pq_peek :: "'q \<Rightarrow> 'a outcome"
    and pq_pop :: "bool \<Rightarrow> 'q \<Rightarrow> ('a \<times> 'q) outcome"
  assumes pq_peek_empty: "pq_invar q \<Longrightarrow> pq_elems q = {#} \<Longrightarrow> pq_peek q = Err ENOENT"
    and pq_pop_empty: "pq_invar q \<Longrightarrow> pq_elems q = {#} \<Longrightarrow> pq_pop ok q = Err ENOENT"
    and pq_pop_ok: "pq_invar q \<Longrightarrow> pq_elems q \<noteq> {#} \<Longrightarrow>
      \<exists>x q'. pq_pop ok q = Ret (x, q') \<and> pq_peek q = Ret x \<and> pq_invar q' \<and>
        pq_elems q = add_mset x (pq_elems q') \<and> (\<forall>y \<in># pq_elems q. 0 \<le> cmp x y)"
begin

text \<open>A queue that holds a strictly ordered list hands the list out in order.\<close>

definition holds :: "'q \<Rightarrow> 'a list \<Rightarrow> bool" where
  "holds q xs \<longleftrightarrow> pq_invar q \<and> pq_elems q = mset xs \<and> sorted_wrt (\<lambda>x y. 0 < cmp x y) xs"

lemma holds_Nil: "holds q [] \<Longrightarrow> pq_peek q = Err ENOENT"
  by (simp add: holds_def pq_peek_empty)

lemma holds_Cons:
  assumes "holds q (x # xs)"
  shows "pq_peek q = Ret x \<and> (\<exists>q'. pq_pop ok q = Ret (x, q') \<and> holds q' xs)"
proof -
  have q: "pq_invar q" "pq_elems q = mset (x # xs)" "mset (x # xs) \<noteq> {#}"
    using assms by (auto simp: holds_def)
  obtain y q' where y: "pq_pop ok q = Ret (y, q')" "pq_peek q = Ret y" "pq_invar q'"
    "mset (x # xs) = add_mset y (pq_elems q')" "\<forall>z \<in># mset (x # xs). 0 \<le> cmp y z"
    using pq_pop_ok [OF q(1), of ok] q(3) unfolding q(2) by blast
  have "y = x"
  proof (rule ccontr)
    assume "y \<noteq> x"
    moreover have "y \<in># mset (x # xs)" unfolding y(4) by simp
    ultimately have "y \<in> set xs" by simp
    then have "0 < cmp x y" using assms by (auto simp: holds_def)
    then show False using y(5) cmp_flip [of x y] by auto
  qed
  then show ?thesis using y assms by (auto simp: holds_def)
qed

end

text \<open>Every heap over a comparison function is such a queue, within the index range.\<close>

sublocale comparator < heap: priority_queue cmp
  "\<lambda>h. heap_invar cmp h \<and> heap_keys h \<le> 2 ^ 30" "\<lambda>h. mset (heap_elems h)"
  "\<lambda>h. heap_peek (Some h)" "\<lambda>ok h. heap_pop ok (Some h)"
proof unfold_locales
  show "heap_peek (Some h) = Err ENOENT" "heap_pop ok (Some h) = Err ENOENT"
    if "heap_invar cmp h \<and> heap_keys h \<le> 2 ^ 30" "mset (heap_elems h) = {#}" for h ok
    using that heap_elems_empty [of h] by (auto simp: heap_peek_def heap_pop_def heap_invar_def)
next
  fix h :: "'a heap_list" and ok
  assume h: "heap_invar cmp h \<and> heap_keys h \<le> 2 ^ 30" "mset (heap_elems h) \<noteq> {#}"
  then have "heap_keys h \<noteq> 0" using heap_elems_empty [of h] by (auto simp: heap_invar_def)
  then obtain x h' where x: "heap_pop ok (Some h) = Ret (x, h')" "heap_peek (Some h) = Ret x"
    "heap_invar cmp h'" "mset (heap_elems h) = add_mset x (mset (heap_elems h'))"
    "heap_keys h' = heap_keys h - 1" "\<forall>y \<in> set (heap_elems h). 0 \<le> cmp x y"
    using heap_pop_ok [OF comparator_axioms, of h ok] h by blast
  have "heap_keys h' \<le> 2 ^ 30" using h(1) x(5) by auto
  moreover have "\<forall>y \<in># mset (heap_elems h). 0 \<le> cmp x y"
    using x(6) by (simp only: set_mset_mset)
  ultimately show "\<exists>x h'. heap_pop ok (Some h) = Ret (x, h') \<and> heap_peek (Some h) = Ret x \<and>
      (heap_invar cmp h' \<and> heap_keys h' \<le> 2 ^ 30) \<and>
      mset (heap_elems h) = add_mset x (mset (heap_elems h')) \<and> (\<forall>y \<in># mset (heap_elems h). 0 \<le> cmp x y)"
    using x(1-4) by blast
qed

section \<open>Sequences of pushes and pops\<close>

definition heap_push_all :: "'a heap_list \<Rightarrow> 'a list \<Rightarrow> 'a heap_list outcome" where
  "heap_push_all = foldO (heap_push True)"

definition heap_drain :: "nat \<Rightarrow> 'a heap_list \<Rightarrow> 'a list outcome" where
  "heap_drain n = drainO n (\<lambda>h. heap_pop True (Some h))"

lemma heap_push_all_ok:
  assumes "comparator cmp" "heap_invar cmp h" "heap_keys h + length xs \<le> 2 ^ 30"
  shows "\<exists>h'. heap_push_all h xs = Ret h' \<and> heap_invar cmp h' \<and>
    mset (heap_elems h') = mset xs + mset (heap_elems h)"
  using assms(2,3) unfolding heap_push_all_def
proof (induction xs arbitrary: h)
  case (Cons x xs)
  have small: "heap_small h" using Cons.prems by (simp add: heap_small_def)
  obtain g where g: "heap_push True h x = Ret g" "heap_invar cmp g"
    "mset (heap_elems g) = add_mset x (mset (heap_elems h))"
    using heap_push_ok [OF assms(1) Cons.prems(1) small, of x] by blast
  have "heap_keys g = Suc (heap_keys h)"
    using g Cons.prems(1) heap_length_elems by (metis heap_invar_def size_add_mset size_mset)
  then show ?case using Cons.IH [OF g(2)] Cons.prems g by auto
qed simp

lemma heap_drain_ok:
  assumes cmp: "comparator cmp" and "heap_invar cmp h" "heap_keys h < n" "heap_keys h \<le> 2 ^ 30"
  shows "\<exists>ys. heap_drain n h = Ret ys \<and> mset ys = mset (heap_elems h) \<and> sorted_wrt (\<lambda>x y. 0 \<le> cmp x y) ys"
  using assms(2-) unfolding heap_drain_def
proof (induction n arbitrary: h)
  case (Suc n)
  show ?case
  proof (cases "heap_keys h = 0")
    case True
    then show ?thesis using Suc.prems heap_elems_empty [of h] by (simp add: heap_pop_def heap_invar_def)
  next
    case False
    obtain x g where g: "heap_pop True (Some h) = Ret (x, g)" "heap_invar cmp g"
      "mset (heap_elems h) = add_mset x (mset (heap_elems g))" "heap_keys g = heap_keys h - 1"
      "\<forall>y \<in> set (heap_elems h). 0 \<le> cmp x y"
      using heap_pop_ok [OF cmp Suc.prems(1) False Suc.prems(3), of True] by auto
    obtain ys where ys: "drainO n (\<lambda>h. heap_pop True (Some h)) g = Ret ys" "mset ys = mset (heap_elems g)"
      "sorted_wrt (\<lambda>x y. 0 \<le> cmp x y) ys"
      using Suc.IH [OF g(2)] g(4) Suc.prems False by fastforce
    have "set ys \<subseteq> set (heap_elems h)"
      using ys(2) g(3) by (metis set_mset_add_mset_insert set_mset_mset subset_insertI)
    then show ?thesis using g ys by auto
  qed
qed simp

section \<open>Properties\<close>

text \<open>The comparison of natural numbers by which the examples below order their elements.\<close>

definition nat_cmp :: "nat \<Rightarrow> nat \<Rightarrow> int" where
  "nat_cmp a b = int a - int b"

interpretation nat_cmp: comparator nat_cmp
  by unfold_locales (auto simp: nat_cmp_def)

text \<open>
  C8. \<open>heap_push\<close> on a heap with room in the index range succeeds when the allocation does,
  keeps the array well formed and heap ordered, and adds exactly the pushed element.
\<close>

theorem heap_push_correct:
  assumes "comparator cmp" "heap_invar cmp h" "heap_keys h < 2 ^ 30"
  shows "\<exists>h'. heap_push True h d = Ret h' \<and> heap_invar cmp h' \<and>
    mset (heap_elems h') = add_mset d (mset (heap_elems h))"
  using heap_push_ok [OF assms(1,2), of d] assms(3) by (auto simp: heap_small_def)

theorem heap_push_correct_witness:
  "\<exists>h'. heap_push True \<lparr>heap_size = 2, heap_keys = 2, heap_comp_fun = nat_cmp, heap_data = [Some 5, Some 3]\<rparr> 7 = Ret h' \<and>
     heap_invar nat_cmp h' \<and> mset (heap_elems h') = {#7, 5, 3#}"
  using heap_push_correct [OF nat_cmp.comparator_axioms,
      of "\<lparr>heap_size = 2, heap_keys = 2, heap_comp_fun = nat_cmp, heap_data = [Some 5, Some 3]\<rparr>" 7]
  by (simp add: heap_invar_def heap_wf_def heap_elems_def heap_ordered_def nat_cmp_def less_2_cases_iff)

text \<open>
  C9. \<open>heap_pop\<close> on a non-empty heap hands out the element \<open>heap_peek\<close> shows, which no other
  element precedes in the order of \<open>heap_comp_fun\<close>; what is left is a heap of the other
  elements, whether or not the shrinking \<open>realloc\<close> succeeds. No access is out of range.
\<close>

theorem heap_pop_correct:
  assumes "comparator cmp" "heap_invar cmp h" "heap_keys h \<noteq> 0" "heap_keys h \<le> 2 ^ 30"
  shows "\<exists>x h'. heap_pop ok (Some h) = Ret (x, h') \<and> heap_peek (Some h) = Ret x \<and> heap_invar cmp h' \<and>
    mset (heap_elems h) = add_mset x (mset (heap_elems h')) \<and>
    (\<forall>y \<in> set (heap_elems h). 0 \<le> cmp x y)"
  using heap_pop_ok [OF assms, of ok] by blast

theorem heap_pop_correct_witness:
  "\<exists>x h'. heap_pop True (Some \<lparr>heap_size = 2, heap_keys = 2, heap_comp_fun = nat_cmp, heap_data = [Some 5, Some 3]\<rparr>) = Ret (x, h') \<and>
     heap_invar nat_cmp h' \<and> {#5, 3#} = add_mset x (mset (heap_elems h'))"
proof -
  let ?h = "\<lparr>heap_size = 2, heap_keys = 2, heap_comp_fun = nat_cmp, heap_data = [Some 5, Some 3]\<rparr>"
  have h: "heap_invar nat_cmp ?h" "heap_keys ?h \<noteq> 0" "heap_keys ?h \<le> 2 ^ 30" "mset (heap_elems ?h) = {#5, 3#}"
    by (simp_all add: heap_invar_def heap_wf_def heap_elems_def heap_ordered_def nat_cmp_def less_2_cases_iff)
  show ?thesis
    using heap_pop_correct [OF nat_cmp.comparator_axioms h(1-3), of True] unfolding h(4) by blast
qed

text \<open>
  Pushing any list into a fresh heap and popping until \<open>ENOENT\<close> ends after as many pops as
  there are elements and yields the elements sorted by \<open>heap_comp_fun\<close>.
\<close>

theorem heap_sorts:
  assumes "comparator cmp" "length xs \<le> 2 ^ 30" "heap_init ee True True cmp = Ret h"
  shows "\<exists>h' ys. heap_push_all h xs = Ret h' \<and> heap_drain (Suc (length xs)) h' = Ret ys \<and>
    mset ys = mset xs \<and> sorted_wrt (\<lambda>x y. 0 \<le> cmp x y) ys"
proof -
  have h: "heap_invar cmp h" "heap_elems h = []" "heap_keys h = 0"
    using heap_init_ok [OF assms(3)] by auto
  obtain g where g: "heap_push_all h xs = Ret g" "heap_invar cmp g" "mset (heap_elems g) = mset xs"
    using heap_push_all_ok [OF assms(1) h(1), of xs] h(2,3) assms(2) by auto
  have "heap_keys g = length xs"
    using g heap_length_elems by (metis heap_invar_def size_mset)
  then show ?thesis using heap_drain_ok [OF assms(1) g(2), of "Suc (length xs)"] g assms(2) by simp
qed

theorem heap_sorts_witness:
  "\<exists>h' ys. heap_push_all \<lparr>heap_size = 2, heap_keys = 0, heap_comp_fun = nat_cmp, heap_data = [None, None]\<rparr> [3, 7, 5] = Ret h' \<and>
     heap_drain (Suc (length [3, 7, 5::nat])) h' = Ret ys \<and> mset ys = mset [3, 7, 5] \<and>
     sorted_wrt (\<lambda>x y. 0 \<le> nat_cmp x y) ys"
proof (rule heap_sorts [OF nat_cmp.comparator_axioms])
  have two: "[None, None] = replicate 2 None" by (simp add: numeral_2_eq_2)
  show "heap_init False True True nat_cmp =
      Ret \<lparr>heap_size = 2, heap_keys = 0, heap_comp_fun = nat_cmp, heap_data = [None, None]\<rparr>"
    unfolding two by (simp add: heap_init_def HEAP_CHUNK_def arr_alloc_def)
qed simp

end
