(* ===== verification/Spf_File.thy ===== *)
theory Spf_File
  imports Spf_State Heap_List
begin

unbundle bit_operations_syntax

text \<open>
  The operations on \<open>struct sp_file\<close> of spf_util.c (lines 168-272 and 398-892) and the
  matching of the skip and treat-as-directory lists: names and temporary names, the
  comparisons that drive the merge of two listings, removal with the limit on deletes, and
  the calls that change a file.
\<close>

section \<open>Names\<close>

definition spf_full_name2 :: "'w st \<Rightarrow> sp_file \<Rightarrow> nat \<Rightarrow> string option" where
  "spf_full_name2 s spf len = full_name (cur_dir s) (spf_name spf) len"

definition spf_full_name :: "'w st \<Rightarrow> sp_file \<Rightarrow> string option" where
  "spf_full_name s spf = spf_full_name2 s spf PATH_MAX"

text \<open>The part of a path behind its last slash, \<open>rindex (p, '/') + 1\<close>.\<close>

definition after_slash :: "string \<Rightarrow> string option" where
  "after_slash p = (if CHR ''/'' \<in> set p then Some (rev (takeWhile (\<lambda>c. c \<noteq> CHR ''/'') (rev p))) else None)"

text \<open>
  The result is \<open>None\<close> for \<open>NULL\<close>, else the file with its names exchanged. \<open>ok1\<close> and \<open>ok2\<close> say
  whether \<open>malloc\<close> and \<open>strdup\<close> succeed.
\<close>

definition spf_use_tmp_name ::
  "'w os_ops \<Rightarrow> bool \<Rightarrow> bool \<Rightarrow> sp_file \<Rightarrow> 'w st \<Rightarrow> ('w st, sp_file option) run" where
  "spf_use_tmp_name os ok1 ok2 spf s =
     (if \<not> ok1 then Done None s
      else let buf = take (PATH_MAX - 1) (''.in.'' @ spf_name spf @ ''.XXX'') in
        case full_name (cur_dir s) buf PATH_MAX of None \<Rightarrow> Done None s
        | Some buf2 \<Rightarrow>
          (let (r, w) = os_mkstemp os buf2 (world s); s = s\<lparr>world := w\<rparr> in
           case r of Ret buf2 \<Rightarrow>
             (case after_slash buf2 of None \<Rightarrow> Wrong
              | Some str \<Rightarrow>
                if \<not> ok2 then Done None s
                else Done (Some (spf\<lparr>spf_orig_name := Some (spf_name spf), spf_name := str\<rparr>)) s)
           | _ \<Rightarrow> Done None s))"

definition spf_restore_name :: "'w os_ops \<Rightarrow> sp_file \<Rightarrow> 'w st \<Rightarrow> ('w st, int \<times> sp_file) run" where
  "spf_restore_name os spf s =
     (case spf_orig_name spf of None \<Rightarrow> Done (0, spf) s
      | Some orig \<Rightarrow>
        (let spf' = spf\<lparr>spf_name := orig, spf_orig_name := None\<rparr> in
        (case spf_full_name s spf of None \<Rightarrow> Wrong
        | Some f \<Rightarrow>
          if os_lstat os (world s) f = Err ENOENT then Done (0, spf') s
          else (case full_name (cur_dir s) orig PATH_MAX of None \<Rightarrow> Wrong
            | Some ofn \<Rightarrow>
              (let (e, w) = os_rename os f ofn (world s) in
               Done (if e = None then 0 else - 1, spf') (s\<lparr>world := w\<rparr>))))))"

section \<open>Comparisons\<close>

fun strcmp :: "string \<Rightarrow> string \<Rightarrow> int" where
  "strcmp [] [] = 0"
| "strcmp [] (d # t) = - 1"
| "strcmp (c # s) [] = 1"
| "strcmp (c # s) (d # t) =
     (if (of_char c :: nat) < of_char d then - 1
      else if (of_char d :: nat) < of_char c then 1 else strcmp s t)"

definition spf_time_cmp :: "sp_file \<Rightarrow> sp_file \<Rightarrow> int" where
  "spf_time_cmp f1 f2 =
     (if spf_time f1 - spf_tgranul f1 \<le> spf_time f2 + spf_tgranul f2 \<and>
         spf_time f1 + spf_tgranul f1 \<ge> spf_time f2 - spf_tgranul f2 then 0
      else if spf_time f1 > spf_time f2 then 1 else - 1)"

text \<open>The value of a plain \<open>char\<close>, signed.\<close>

definition schar :: "char \<Rightarrow> int" where
  "schar c = (let n = of_char c in if n < 128 then n else n - 256)"

text \<open>The branch for a \<open>NULL\<close> second file dereferences that file.\<close>

definition spf_name_cmp :: "sp_file option \<Rightarrow> sp_file option \<Rightarrow> int outcome" where
  "spf_name_cmp f1 f2 =
     (case (f1, f2) of
        (None, None) \<Rightarrow> Ret 0
      | (None, Some f2) \<Rightarrow> Ret (if spf_name f2 \<noteq> '''' then - schar (ch (spf_name f2) 0) else - 1)
      | (Some f1, None) \<Rightarrow> Undef
      | (Some f1, Some f2) \<Rightarrow> Ret (strcmp (spf_name f1) (spf_name f2)))"

text \<open>The heap calls it on its elements, which are never \<open>NULL\<close>.\<close>

definition spf_push_comp :: "sp_file \<Rightarrow> sp_file \<Rightarrow> int" where
  "spf_push_comp f1 f2 = (case spf_name_cmp (Some f1) (Some f2) of Ret n \<Rightarrow> - n | _ \<Rightarrow> 0)"

section \<open>Removal\<close>

definition is_dir :: "'w os_ops \<Rightarrow> 'w \<Rightarrow> string \<Rightarrow> bool" where
  "is_dir os w f = (case os_lstat os w f of Ret sb \<Rightarrow> st_mode sb AND S_IFMT = S_IFDIR | _ \<Rightarrow> False)"

definition delete_limit :: "'w st \<Rightarrow> bool" where
  "delete_limit s \<longleftrightarrow> sp_max_delete s \<noteq> 0 \<and> sp_max_delete s \<le> sp_deletes s"

definition rm_f :: "'w os_ops \<Rightarrow> string \<Rightarrow> 'w st \<Rightarrow> ('w st, int) run" where
  "rm_f os f s =
     (if delete_limit s then Quit 1 s
      else let (e, w) = (if is_dir os (world s) f then os_rmdir os f (world s) else os_unlink os f (world s)) in
        if e = None then Done 0 (s\<lparr>world := w, sp_deletes := sp_deletes s + 1\<rparr>)
        else Done (- 1) (s\<lparr>world := w\<rparr>))"

text \<open>The loop over the entries of a directory; \<open>rec\<close> is \<open>rm_rf\<close> itself.\<close>

fun rm_rf_loop ::
  "(string \<Rightarrow> 'w st \<Rightarrow> ('w st, int) run) \<Rightarrow> 'w os_ops \<Rightarrow> string \<Rightarrow> string list \<Rightarrow> 'w st \<Rightarrow> ('w st, unit) run" where
  "rm_rf_loop rec os f [] s = Done () s"
| "rm_rf_loop rec os f (d_name # ds) s =
     (if d_name = ''..'' \<or> d_name = ''.'' then rm_rf_loop rec os f ds s
      else let file_buf = take (PATH_MAX - 1) (f @ ''/'' @ d_name) in
        if is_dir os (world s) file_buf
        then bindR (rec file_buf s) (\<lambda>_ s. rm_rf_loop rec os f ds s)
        else if delete_limit s then Quit 1 s
        else bindR (rm_f os file_buf s) (\<lambda>_ s. rm_rf_loop rec os f ds s))"

text \<open>The fuel bounds the depth of the recursion.\<close>

fun rm_rf :: "nat \<Rightarrow> 'w os_ops \<Rightarrow> string \<Rightarrow> 'w st \<Rightarrow> ('w st, int) run" where
  "rm_rf 0 os f s = Wrong"
| "rm_rf (Suc n) os f s =
     (if have_dotdot_ref f then Done (- 1) s
      else if \<not> is_dir os (world s) f then rm_f os f s
      else if delete_limit s then Quit 1 s
      else case os_readdir os (world s) f of
        Ret ds \<Rightarrow> bindR (rm_rf_loop (rm_rf n os) os f ds s) (\<lambda>_ s. rm_f os f s)
      | _ \<Rightarrow> Done (- 1) s)"

definition spf_rm :: "nat \<Rightarrow> 'w os_ops \<Rightarrow> sp_file \<Rightarrow> 'w st \<Rightarrow> ('w st, int) run" where
  "spf_rm n os spf s =
     (if sp_do_delete s = 0 then Done 0 s
      else case spf_full_name s spf of None \<Rightarrow> Wrong
        | Some f \<Rightarrow>
          bindR (if spf_type spf = DIRECTORY then rm_rf n os f s else rm_f os f s)
            (\<lambda>r s. Done (if r < 0 then - 1 else 0) s))"

section \<open>Changing files\<close>

definition spf_clone :: "bool \<Rightarrow> sp_file \<Rightarrow> sp_file outcome" where
  "spf_clone ok spf = (if ok then Ret spf else Undef)"

definition spf_new_time :: "'w os_ops \<Rightarrow> sp_file \<Rightarrow> 'w st \<Rightarrow> ('w st, int) run" where
  "spf_new_time os spf s =
     (case spf_full_name s spf of None \<Rightarrow> Wrong
      | Some f \<Rightarrow> (let (e, w) = os_utimes os f (spf_time spf) (world s) in
          Done (if e = None then 0 else - 1) (s\<lparr>world := w\<rparr>)))"

definition spf_chmod :: "'w os_ops \<Rightarrow> sp_file \<Rightarrow> 32 word \<Rightarrow> 'w st \<Rightarrow> ('w st, int) run" where
  "spf_chmod os spf mode s =
     (case spf_full_name s spf of None \<Rightarrow> Wrong
      | Some f \<Rightarrow> (let (e, w) = os_chmod os f (spf_mode spf OR mode) (world s) in
          Done (if e = None then 0 else - 1) (s\<lparr>world := w\<rparr>)))"

text \<open>\<open>spf_mkdir\<close> also hands back the error, which \<open>sp_sync_dir\<close> reads from \<open>errno\<close>.\<close>

definition spf_mkdir :: "'w os_ops \<Rightarrow> sp_file \<Rightarrow> 'w st \<Rightarrow> ('w st, errno option) run" where
  "spf_mkdir os spf s =
     (if spf_opt spf AND SPFO_DONT_CREATE \<noteq> 0 then Done None s
      else case spf_full_name s spf of None \<Rightarrow> Wrong
        | Some f \<Rightarrow> (let (e, w) = os_mkdir os f (spf_mode spf OR S_IRWXU) (world s) in
            Done e (s\<lparr>world := w\<rparr>)))"

definition spf_symlink_op :: "'w os_ops \<Rightarrow> sp_file \<Rightarrow> 'w st \<Rightarrow> ('w st, int) run" where
  "spf_symlink_op os spf s =
     (case (spf_symlink spf, spf_full_name s spf) of
        (Some target, Some f) \<Rightarrow> (let (e, w) = os_symlink os target f (world s) in
          Done (if e = None then 0 else - 1) (s\<lparr>world := w\<rparr>))
      | _ \<Rightarrow> Wrong)"

text \<open>\<open>ok\<close> says whether \<open>calloc\<close> succeeds; \<open>Err\<close> is the result \<open>-1\<close>.\<close>

definition spf_stat_init :: "'w os_ops \<Rightarrow> bool \<Rightarrow> string \<Rightarrow> 'w st \<Rightarrow> sp_file outcome" where
  "spf_stat_init os ok f s =
     (if \<not> ok then Err ENOMEM
      else case full_name (cur_dir s) f PATH_MAX of None \<Rightarrow> Undef
        | Some cf \<Rightarrow>
          bindO (os_lstat os (world s) cf) (\<lambda>sb.
            let fmt = st_mode sb AND S_IFMT;
                ty = (if fmt = S_IFDIR then DIRECTORY else if fmt = S_IFREG then PLAINFILE
                      else if fmt = S_IFLNK then SYMLINK else UNKNOWN) in
            bindO (if ty = SYMLINK then bindO (os_readlink os (world s) cf) (\<lambda>l. Ret (Some l)) else Ret None)
              (\<lambda>lnk. Ret \<lparr>spf_time = st_mtime sb, spf_tgranul = 0, spf_type = ty, spf_opt = SPFO_LOCAL,
                 spf_size = st_size sb, spf_mode = st_mode sb AND 0xFFF, spf_name = f,
                 spf_symlink = lnk, spf_orig_name = None\<rparr>)))"

section \<open>Skip and treat-as-directory lists\<close>

definition sps_init :: "'w os_ops \<Rightarrow> bool \<Rightarrow> string \<Rightarrow> sp_skip option" where
  "sps_init os ok arg =
     (if \<not> ok then None
      else if os_regcomp os arg \<noteq> 0 then None
      else Some \<lparr>sps_name = arg, sps_reg_errno = 0\<rparr>)"

definition spt_init :: "'w os_ops \<Rightarrow> bool \<Rightarrow> string \<Rightarrow> sp_treatasdir option" where
  "spt_init os ok arg =
     (if \<not> ok then None
      else Some \<lparr>spt_name = arg, spt_deref = False, spt_reg_errno = os_regcomp os arg,
                 spt_reg_need_regfree = (os_regcomp os arg = 0)\<rparr>)"

definition sps_error :: "sp_skip \<Rightarrow> bool" where "sps_error sps = (sps_reg_errno sps \<noteq> 0)"
definition spt_error :: "sp_treatasdir \<Rightarrow> bool" where "spt_error spt = (spt_reg_errno spt \<noteq> 0)"

definition sps_match :: "'w os_ops \<Rightarrow> sp_skip \<Rightarrow> string \<Rightarrow> bool" where
  "sps_match os sps name = (os_regexec os (sps_name sps) name = 0)"

definition spt_match :: "'w os_ops \<Rightarrow> sp_treatasdir \<Rightarrow> string \<Rightarrow> bool" where
  "spt_match os spt name = (os_regexec os (spt_name spt) name = 0)"

text \<open>\<open>p++\<close> on a path; a \<open>NULL\<close> path is undefined.\<close>

definition spf_is_a_skip_find :: "'w os_ops \<Rightarrow> 'w st \<Rightarrow> sp_skip \<Rightarrow> sp_file \<Rightarrow> bool outcome" where
  "spf_is_a_skip_find os s sps spf =
     (case spf_full_name2 s spf PATH_MAX of None \<Rightarrow> Undef
      | Some p \<Rightarrow>
        if p = '''' then Undef
        else let match = sps_match os sps (drop 1 p) in
          if match \<or> spf_type spf \<noteq> SYMLINK then Ret match
          else (case spf_symlink_resolve (cur_dir s) (spf_symlink spf) PATH_MAX of
            Ret p \<Rightarrow> Ret (sps_match os sps p)
          | _ \<Rightarrow> Undef))"

text \<open>\<open>cl_find\<close> on the queue: the entries in order until one matches.\<close>

fun find_first :: "('a \<Rightarrow> bool outcome) \<Rightarrow> 'a list \<Rightarrow> bool outcome" where
  "find_first f [] = Ret False"
| "find_first f (x # xs) = bindO (f x) (\<lambda>b. if b then Ret True else find_first f xs)"

definition spf_is_a_skip :: "'w os_ops \<Rightarrow> 'w st \<Rightarrow> sp_file \<Rightarrow> bool outcome" where
  "spf_is_a_skip os s spf =
     (if skip s = [] then Ret False
      else find_first (\<lambda>sps. spf_is_a_skip_find os s sps spf) (skip s))"

definition spf_is_a_treatasdir_find :: "'w os_ops \<Rightarrow> 'w st \<Rightarrow> sp_treatasdir \<Rightarrow> sp_file \<Rightarrow> bool outcome" where
  "spf_is_a_treatasdir_find os s spt spf =
     (if spf_type spf \<noteq> SYMLINK then Ret False
      else bindO
        (if \<not> spt_deref spt
         then (case spf_full_name2 s spf PATH_MAX of None \<Rightarrow> Undef | Some p \<Rightarrow> Ret p)
         else (case spf_symlink_resolve (cur_dir s) (spf_symlink spf) PATH_MAX of Ret p \<Rightarrow> Ret p | _ \<Rightarrow> Undef))
        (\<lambda>p. if p = '''' then Undef else Ret (spt_match os spt (drop 1 p))))"

definition spf_is_a_treatasdir :: "'w os_ops \<Rightarrow> 'w st \<Rightarrow> sp_file \<Rightarrow> bool outcome" where
  "spf_is_a_treatasdir os s spf =
     (if treatasdir s = [] then Ret False
      else bindO (find_first (\<lambda>spt. spf_is_a_treatasdir_find os s spt spf) (treatasdir s)) (\<lambda>b.
        if \<not> b then Ret False
        else case (spf_full_name2 s spf PATH_MAX, spf_symlink spf,
                   spf_symlink_resolve (cur_dir s) (spf_symlink spf) PATH_MAX) of
          (Some p, Some l, Ret p2) \<Rightarrow> Ret True
        | _ \<Rightarrow> Undef))"

section \<open>The order on names\<close>

lemma strcmp_flip: "strcmp t s = - strcmp s t"
  by (induction s t rule: strcmp.induct) auto

lemma of_char_antisym: "\<not> (of_char c :: nat) < of_char d \<Longrightarrow> \<not> (of_char d :: nat) < of_char c \<Longrightarrow> c = d"
  by (metis linorder_neqE_nat of_char_eq_iff)

lemma strcmp_eq_0 [simp]: "strcmp s t = 0 \<longleftrightarrow> s = t"
proof (induction s t rule: strcmp.induct)
  case (4 c s d t)
  show ?case
  proof (cases "(of_char c :: nat) < of_char d \<or> (of_char d :: nat) < of_char c")
    case True
    then have "c \<noteq> d" by (metis less_irrefl)
    then show ?thesis using True by simp
  next
    case False
    then have "c = d" using of_char_antisym by blast
    then show ?thesis using 4 by simp
  qed
qed simp_all

lemma strcmp_refl [simp]: "strcmp s s = 0"
  by simp

lemma strcmp_Cons_le:
  "strcmp (c # s) (d # t) \<le> 0 \<longleftrightarrow> (of_char c :: nat) < of_char d \<or> (c = d \<and> strcmp s t \<le> 0)"
proof (cases "(of_char d :: nat) < of_char c")
  case True
  then have "\<not> (of_char c :: nat) < of_char d" "c \<noteq> d" by (simp, metis less_irrefl)
  then show ?thesis using True by simp
next
  case False
  then show ?thesis using of_char_antisym [of c d] by (cases "(of_char c :: nat) < of_char d") simp_all
qed

lemma strcmp_trans: "strcmp s t \<le> 0 \<Longrightarrow> strcmp t u \<le> 0 \<Longrightarrow> strcmp s u \<le> 0"
proof (induction s t arbitrary: u rule: strcmp.induct)
  case (2 d t)
  then show ?case by (cases u) simp_all
next
  case (4 c s d t)
  obtain e v where u: "u = e # v" using 4(3) by (cases u) simp_all
  have IH: "strcmp s v \<le> 0" if "c = d" "strcmp s t \<le> 0" "strcmp t v \<le> 0"
    using 4(1) that by simp
  show ?case
    using 4(2,3) IH unfolding u strcmp_Cons_le by (metis less_trans)
qed simp_all

lemma spf_push_comp_strcmp: "spf_push_comp f1 f2 = - strcmp (spf_name f1) (spf_name f2)"
  by (simp add: spf_push_comp_def spf_name_cmp_def)

interpretation spf_order: comparator spf_push_comp
proof
  show "0 < spf_push_comp a b \<longleftrightarrow> spf_push_comp b a < 0" for a b
    using strcmp_flip [of "spf_name a" "spf_name b"] by (simp add: spf_push_comp_strcmp)
  show "0 \<le> spf_push_comp a b \<Longrightarrow> 0 \<le> spf_push_comp b c \<Longrightarrow> 0 \<le> spf_push_comp a c" for a b c
    using strcmp_trans [of "spf_name a" "spf_name b" "spf_name c"] by (simp add: spf_push_comp_strcmp)
qed

lemma spf_time_cmp_zero:
  "spf_time_cmp f1 f2 = 0 \<longleftrightarrow> \<bar>spf_time f1 - spf_time f2\<bar> \<le> spf_tgranul f1 + spf_tgranul f2"
  by (auto simp: spf_time_cmp_def)

section \<open>Removal\<close>

text \<open>What a removal may change of the state: the world and the number of deletes, upwards.\<close>

definition rm_frame :: "'w st \<Rightarrow> 'w st \<Rightarrow> bool" where
  "rm_frame s t \<longleftrightarrow> t = s\<lparr>world := world t, sp_deletes := sp_deletes t\<rparr> \<and> sp_deletes s \<le> sp_deletes t \<and>
     (sp_max_delete s \<noteq> 0 \<longrightarrow> sp_deletes t \<le> max (sp_deletes s) (sp_max_delete s))"

lemma rm_frame_refl [simp]: "rm_frame s s"
  by (simp add: rm_frame_def)

lemma rm_frame_trans: "rm_frame s t \<Longrightarrow> rm_frame t u \<Longrightarrow> rm_frame s u"
  by (cases s; cases t; cases u) (auto simp: rm_frame_def)

lemma run_inv_frame_bindR [run_rules]:
  assumes "run_inv (rm_frame s) m" "\<And>x t. m = Done x t \<Longrightarrow> run_inv (rm_frame t) (f x t)"
  shows "run_inv (rm_frame s) (bindR m f)"
proof (rule run_inv_bindR [OF assms(1)])
  fix x t assume "m = Done x t" "rm_frame s t"
  then show "run_inv (rm_frame s) (f x t)"
    using run_inv_mono [OF assms(2), of x t "rm_frame s"] rm_frame_trans by blast
qed

lemma rm_f_frame: "run_inv (rm_frame s) (rm_f os f s)"
  by (auto simp: rm_f_def rm_frame_def delete_limit_def split: prod.splits)

lemma rm_rf_loop_frame:
  assumes "\<And>f s. run_inv (rm_frame s) (rec f s)"
  shows "run_inv (rm_frame s) (rm_rf_loop rec os f ds s)"
  by (induction ds arbitrary: s) (auto simp: Let_def intro!: run_inv_frame_bindR assms rm_f_frame)

lemma rm_rf_frame: "run_inv (rm_frame s) (rm_rf n os f s)"
proof (induction n arbitrary: f s)
  case (Suc n)
  show ?case
    by (auto split: outcome.split intro!: run_inv_frame_bindR rm_rf_loop_frame Suc rm_f_frame)
qed simp

lemma spf_rm_frame: "run_inv (rm_frame s) (spf_rm n os spf s)"
  by (auto simp: spf_rm_def split: option.split intro!: run_inv_frame_bindR rm_rf_frame rm_f_frame)

lemma rm_f_not_Wrong [simp]: "rm_f os f s \<noteq> Wrong"
  by (auto simp: rm_f_def split: prod.splits)

lemma rm_rf_loop_not_Wrong:
  assumes "\<And>d s. d \<in> set ds \<Longrightarrow> is_dir os (world s) (take (PATH_MAX - 1) (f @ ''/'' @ d)) \<Longrightarrow>
    rec (take (PATH_MAX - 1) (f @ ''/'' @ d)) s \<noteq> Wrong"
  shows "rm_rf_loop rec os f ds s \<noteq> Wrong"
  using assms by (induction ds arbitrary: s) (auto simp: bindR_eq_Wrong Let_def)

lemma rm_rf_not_Wrong:
  assumes deep: "\<And>w p. PATH_MAX - 1 \<le> length p \<Longrightarrow> \<not> is_dir os w p"
    and "length f < PATH_MAX" "PATH_MAX - length f \<le> n"
  shows "rm_rf n os f s \<noteq> Wrong"
  using assms(2,3)
proof (induction n arbitrary: f s)
  case (Suc n)
  show ?case
  proof (cases "is_dir os (world s) f")
    case True
    then have len: "length f < PATH_MAX - 1" using deep [of f "world s"] by fastforce
    have "rm_rf n os (take (PATH_MAX - 1) (f @ ''/'' @ d)) t \<noteq> Wrong" for d t
      using len Suc.prems by (intro Suc.IH) auto
    then show ?thesis
      using True by (auto simp: bindR_eq_Wrong rm_rf_loop_not_Wrong split: outcome.split)
  qed simp
qed simp

section \<open>Properties\<close>

text \<open>
  The limit on deletes holds: from a state with at most \<open>sp_max_delete\<close> deletes, with a limit
  set, \<open>spf_rm\<close> returns or ends the process in a state that has at most that many, whatever the
  system calls do and however deep the hierarchy is. It changes nothing else of the state
  than the world and the count.
\<close>

theorem spf_rm_delete_limit:
  assumes "sp_max_delete s \<noteq> 0" "sp_deletes s \<le> sp_max_delete s"
  shows "run_inv (\<lambda>t. sp_deletes t \<le> sp_max_delete s \<and> sp_deletes s \<le> sp_deletes t \<and>
      t = s\<lparr>world := world t, sp_deletes := sp_deletes t\<rparr>) (spf_rm n os spf s)"
  by (rule run_inv_mono [OF spf_rm_frame]) (use assms in \<open>auto simp: rm_frame_def\<close>)

theorem spf_rm_delete_limit_witness:
  "run_inv (\<lambda>t. sp_deletes t \<le> 3 \<and> sp_deletes (sample_st [(''./a'', sample_file)]) \<le> sp_deletes t \<and>
      t = (sample_st [(''./a'', sample_file)])\<lparr>world := world t, sp_deletes := sp_deletes t\<rparr>)
    (spf_rm 5 fs_os \<lparr>spf_time = 0, spf_tgranul = 0, spf_type = PLAINFILE, spf_opt = 0, spf_size = 0,
       spf_mode = 0, spf_name = ''a'', spf_symlink = None, spf_orig_name = None\<rparr> (sample_st [(''./a'', sample_file)]))"
  using spf_rm_delete_limit [of "sample_st [(''./a'', sample_file)]" 5 fs_os]
  by (simp add: sample_st_def)

text \<open>
  C17. With deletion switched off \<open>spf_rm\<close> reports success and touches nothing; with it
  switched on and the limit reached it ends the process and touches nothing, for files and
  for directories.
\<close>

theorem spf_rm_off_or_exhausted:
  assumes "sp_do_delete s = 0 \<or> delete_limit s" "0 < n" "spf_full_name s spf = Some f" "\<not> have_dotdot_ref f"
  shows "spf_rm n os spf s = (if sp_do_delete s = 0 then Done 0 s else Quit 1 s)"
  using assms by (cases n) (auto simp: spf_rm_def rm_f_def)

theorem spf_rm_off_or_exhausted_witness:
  "let s = (sample_st [(''./a'', sample_file)])\<lparr>sp_deletes := 3\<rparr> in
   spf_rm 5 fs_os \<lparr>spf_time = 0, spf_tgranul = 0, spf_type = DIRECTORY, spf_opt = 0, spf_size = 0,
       spf_mode = 0, spf_name = ''a'', spf_symlink = None, spf_orig_name = None\<rparr> s = Quit 1 s"
  using spf_rm_off_or_exhausted [of "(sample_st [(''./a'', sample_file)])\<lparr>sp_deletes := 3\<rparr>" 5
      "\<lparr>spf_time = 0, spf_tgranul = 0, spf_type = DIRECTORY, spf_opt = 0, spf_size = 0,
       spf_mode = 0, spf_name = ''a'', spf_symlink = None, spf_orig_name = None\<rparr>" "''./a''" fs_os]
  by (simp add: sample_st_def delete_limit_def spf_full_name_def spf_full_name2_def full_name_def
      have_dotdot_ref_def PATH_MAX_def)





end
