(* ===== verification/Config.thy ===== *)
theory Config
  imports Tgetopt_File Spf_File Parserow
begin

unbundle bit_operations_syntax

text \<open>
  The configuration of the program (spegla.c 91-158, 753-1057 and 1123-1350 of \<open>main\<close>): the
  table of options, the functions that set, check and complete the parameters, and the loop that
  takes options from the command line and from the configuration file. Memory is taken to be
  available; messages are left out, and with them \<open>nowarn\<close>.
\<close>

section \<open>Options\<close>

definition MAX_LINE :: nat where "MAX_LINE = 1024"

text \<open>The numbers of the options, \<open>GO_CONFIGFILE\<close> to \<open>GO_FAMILY\<close>, as an enumeration in their order.\<close>

datatype go_num = GO_CONFIGFILE | GO_SECTION | GO_LOCALDIR | GO_REMOTEDIR | GO_USERNAME | GO_PASSWORD | GO_HOST
  | GO_VERSION | GO_WARNOVERRIDES | GO_SKIP | GO_SHOWCONF | GO_LOGFILE | GO_LOCKFILE | GO_RETRIES | GO_RETRYTIME
  | GO_TIMEOUT | GO_PORT | GO_PASSIVE | GO_MAXDELETE | GO_FASTSYNC | GO_LOGLEVEL | GO_TEMPDIR | GO_TREATASDIR
  | GO_TREATASDIRDEST | GO_MINFREE | GO_DODELETE | GO_MIRRORUSER | GO_HELP | GO_URL | GO_FAMILY

definition go_nums :: "go_num list" where
  "go_nums = [GO_CONFIGFILE, GO_SECTION, GO_LOCALDIR, GO_REMOTEDIR, GO_USERNAME, GO_PASSWORD, GO_HOST, GO_VERSION,
     GO_WARNOVERRIDES, GO_SKIP, GO_SHOWCONF, GO_LOGFILE, GO_LOCKFILE, GO_RETRIES, GO_RETRYTIME, GO_TIMEOUT, GO_PORT,
     GO_PASSIVE, GO_MAXDELETE, GO_FASTSYNC, GO_LOGLEVEL, GO_TEMPDIR, GO_TREATASDIR, GO_TREATASDIRDEST, GO_MINFREE,
     GO_DODELETE, GO_MIRRORUSER, GO_HELP, GO_URL, GO_FAMILY]"

definition go_entry :: "int \<Rightarrow> string \<Rightarrow> char \<Rightarrow> go_want_arg \<Rightarrow> get_opt" where
  "go_entry n name c a = \<lparr>go_opt_num = n, go_name = name, go_sname = c, go_want_arg = a\<rparr>"

text \<open>
  The table without its end mark. The entry of \<open>fastsync\<close> is compiled only with \<open>NOTYET\<close>, so the
  indices after it are one below the numbers.
\<close>

definition go :: "get_opt list" where
  "go = [go_entry 0 ''configfile'' (CHR ''f'') REQ_ARG,
     go_entry 1 ''section'' (CHR ''s'') REQ_ARG,
     go_entry 2 ''localdir'' (CHR ''l'') REQ_ARG,
     go_entry 3 ''remotedir'' (CHR ''r'') REQ_ARG,
     go_entry 4 ''username'' (CHR ''u'') REQ_ARG,
     go_entry 5 ''password'' (CHR ''p'') REQ_ARG,
     go_entry 6 ''host'' (CHR ''h'') REQ_ARG,
     go_entry 7 ''version'' (CHR ''v'') OPT_ARG,
     go_entry 8 ''warnoverrides'' (CHR ''w'') REQ_ARG,
     go_entry 9 ''skip'' (CHR ''?'') REQ_ARG,
     go_entry 10 ''showconf'' (CHR ''?'') REQ_ARG,
     go_entry 11 ''logfile'' (CHR ''?'') REQ_ARG,
     go_entry 12 ''lockfile'' (CHR ''?'') REQ_ARG,
     go_entry 13 ''retries'' (CHR ''?'') REQ_ARG,
     go_entry 14 ''retrytime'' (CHR ''?'') REQ_ARG,
     go_entry 15 ''timeout'' (CHR ''?'') REQ_ARG,
     go_entry 16 ''port'' (CHR ''?'') REQ_ARG,
     go_entry 17 ''passive'' (CHR ''?'') REQ_ARG,
     go_entry 18 ''maxdelete'' (CHR ''?'') REQ_ARG,
     go_entry 20 ''loglevel'' (CHR ''?'') REQ_ARG,
     go_entry 21 ''tempdir'' (CHR ''?'') REQ_ARG,
     go_entry 22 ''treatasdir'' (CHR ''?'') REQ_ARG,
     go_entry 23 ''treatasdirdest'' (CHR ''?'') REQ_ARG,
     go_entry 24 ''minfree'' (CHR ''?'') REQ_ARG,
     go_entry 25 ''dodelete'' (CHR ''?'') REQ_ARG,
     go_entry 26 ''mirroruser'' (CHR ''?'') REQ_ARG,
     go_entry 27 ''help'' (CHR ''?'') NO_ARG,
     go_entry 28 ''url'' (CHR ''?'') REQ_ARG,
     go_entry 29 ''family'' (CHR ''a'') REQ_ARG]"

section \<open>Parameters\<close>

text \<open>
  The struct \<open>param\<close> of \<open>main\<close>; \<open>NULL\<close> is \<open>None\<close>. \<open>p_tempdir_env\<close> says that \<open>p_tempdir\<close> points into
  the environment and not to allocated memory. The member \<open>configfile\<close> is never used.
\<close>

record param =
  p_host :: "string option"
  p_localdir :: "string option"
  p_remotedir :: "string option"
  p_username :: "string option"
  p_password :: "string option"
  p_logfile :: "string option"
  p_lockfile :: "string option"
  p_tempdir :: "string option"
  p_tempdir_env :: bool
  p_version :: "string option"
  p_section :: "string option"
  p_mirroruser :: "string option"
  p_timeout :: "int option"
  p_retries :: "int option"
  p_port :: "int option"
  p_family :: "int option"
  p_passive :: "int option"
  p_retrytime :: "int option"
  p_showconf :: "int option"
  p_fastsync :: "int option"
  p_maxdelete :: "int option"
  p_loglevel :: "int option"
  p_warnoverrides :: "int option"
  p_minfree :: "int option"
  p_dodelete :: "int option"
  p_skip :: "sp_skip list"
  p_treatasdir :: "sp_treatasdir list"

definition INT_MAX :: int where "INT_MAX = 2 ^ 31 - 1"
definition PF_UNSPEC :: int where "PF_UNSPEC = 0"
definition PF_INET :: int where "PF_INET = 2"

text \<open>The conversion of a \<open>long\<close> to an \<open>int\<close> keeps the low 32 bits.\<close>

definition to_int :: "int \<Rightarrow> int" where
  "to_int n = (n + 2 ^ 31) mod 2 ^ 32 - 2 ^ 31"

section \<open>Setting parameters\<close>

text \<open>The functions return the new value of \<open>*var\<close>. A value that was not allocated must not be freed.\<close>

definition set_param_str :: "bool \<Rightarrow> string \<Rightarrow> string option \<Rightarrow> string option outcome" where
  "set_param_str allocated arg var = (if var \<noteq> None \<and> \<not> allocated then Undef else Ret (Some arg))"

definition set_param_yes_no :: "string \<Rightarrow> int option \<Rightarrow> int option outcome" where
  "set_param_yes_no arg var =
     (if arg = [] \<or> arg = ''yes'' then Ret (Some 1) else if arg = ''no'' then Ret (Some 0) else Exit 1)"

definition set_param_num :: "string \<Rightarrow> int option \<Rightarrow> int \<Rightarrow> int \<Rightarrow> int option outcome" where
  "set_param_num arg var min_val max_val =
     (let (n, endptr) = strtol arg; tmp = to_int n in
      if endptr \<noteq> [] \<or> max_val < tmp \<or> tmp < min_val then Exit 1 else Ret (Some tmp))"

text \<open>\<open>strchr\<close>, as the parts of the string in front of the first such byte and behind it.\<close>

definition split_at :: "char \<Rightarrow> string \<Rightarrow> (string \<times> string) option" where
  "split_at c s = (if c \<in> set s then Some (takeWhile (\<lambda>b. b \<noteq> c) s, tl (dropWhile (\<lambda>b. b \<noteq> c) s)) else None)"

text \<open>The user and password in front of an \<open>@\<close>; what is left of the url.\<close>

definition url_user :: "string \<Rightarrow> param \<Rightarrow> (string \<times> param) outcome" where
  "url_user url p =
     (case split_at (CHR ''@'') url of None \<Rightarrow> Ret (url, p)
      | Some (puser, url) \<Rightarrow>
        bindO (case split_at (CHR '':'') puser of None \<Rightarrow> Ret (puser, p)
               | Some (puser, ppass) \<Rightarrow>
                 bindO (set_param_str True ppass (p_password p)) (\<lambda>v. Ret (puser, p\<lparr>p_password := v\<rparr>)))
          (\<lambda>(puser, p).
            if url = [] then Exit 1
            else bindO (set_param_str True puser (p_username p)) (\<lambda>v. Ret (url, p\<lparr>p_username := v\<rparr>))))"

text \<open>The host and port in front of the first slash; the path behind it.\<close>

definition url_host :: "string \<Rightarrow> param \<Rightarrow> (string \<times> param) outcome" where
  "url_host url p =
     (case split_at (CHR ''/'') url of None \<Rightarrow> Exit 1
      | Some (phost, url) \<Rightarrow>
        bindO (case split_at (CHR '':'') phost of None \<Rightarrow> Ret (phost, p)
               | Some (phost, pport) \<Rightarrow>
                 bindO (set_param_num pport (p_port p) 0 INT_MAX) (\<lambda>v. Ret (phost, p\<lparr>p_port := v\<rparr>)))
          (\<lambda>(phost, p). bindO (set_param_str True phost (p_host p)) (\<lambda>v. Ret (url, p\<lparr>p_host := v\<rparr>))))"

definition set_param_url :: "string \<Rightarrow> param \<Rightarrow> param outcome" where
  "set_param_url arg p =
     (if \<not> strncasecmp_eq ''ftp://'' arg then Exit 1
      else let url = drop 6 arg in
        if url = [] then Exit 1
        else bindO (url_user url p) (\<lambda>(url, p). bindO (url_host url p) (\<lambda>(url, p).
          if url = [] then Ret p
          else bindO (set_param_str True (CHR ''/'' # url) (p_remotedir p)) (\<lambda>v. Ret (p\<lparr>p_remotedir := v\<rparr>)))))"

definition set_param_family :: "string \<Rightarrow> int option \<Rightarrow> int option outcome" where
  "set_param_family arg var =
     (if arg = [] \<or> arg = ''unspec'' then Ret (Some PF_UNSPEC)
      else if arg = ''inet'' then Ret (Some PF_INET) else Exit 1)"

text \<open>The lists of skip and treat-as-directory expressions; \<open>cl_push\<close> puts the new entry in front.\<close>

definition add_param_sps :: "'w os_ops \<Rightarrow> string \<Rightarrow> sp_skip list \<Rightarrow> sp_skip list outcome" where
  "add_param_sps os arg q =
     (case sps_init os True arg of None \<Rightarrow> Exit 1
      | Some sps \<Rightarrow> if sps_error sps then Exit 1 else Ret (sps # q))"

definition add_param_spt :: "'w os_ops \<Rightarrow> bool \<Rightarrow> string \<Rightarrow> sp_treatasdir list \<Rightarrow> sp_treatasdir list outcome" where
  "add_param_spt os deref arg q =
     (case spt_init os True arg of None \<Rightarrow> Exit 1
      | Some spt \<Rightarrow> if spt_error spt then Exit 1 else Ret (spt\<lparr>spt_deref := deref\<rparr> # q))"


section \<open>Checks and defaults\<close>

definition require :: "string option \<Rightarrow> unit outcome" where
  "require str = (if str = None then Exit 1 else Ret ())"

definition default_str :: "string option \<Rightarrow> string \<Rightarrow> string option" where
  "default_str val str = (if val = None then Some str else val)"

definition default_num :: "int option \<Rightarrow> int \<Rightarrow> int option" where
  "default_num val num = (if val = None then Some num else val)"

definition default_family :: "int option \<Rightarrow> int \<Rightarrow> int option" where
  "default_family val num = (if val = None then Some num else val)"

text \<open>
  \<open>strlcpy (buf + i, str, MAX_LINE - i)\<close> in a buffer of \<open>MAX_LINE\<close> bytes, and the loop that replaces
  \<open>%s\<close> and \<open>%%\<close>. An argument is shorter than \<open>2 ^ 31\<close> bytes, so \<open>i\<close> does not overflow.
\<close>

definition strlcpy_at :: "char arr \<Rightarrow> nat \<Rightarrow> string \<Rightarrow> char arr outcome" where
  "strlcpy_at buf i str =
     (let src = take (MAX_LINE - i - 1) str @ [NUL] in arr_copy buf i (map Some src) 0 (length src))"

function expand_loop :: "string \<Rightarrow> string \<Rightarrow> nat \<Rightarrow> char arr \<Rightarrow> (nat \<times> char arr) outcome" where
  "expand_loop str p i buf =
     (if MAX_LINE \<le> i \<or> p = [] then Ret (i, buf)
      else if hd p = CHR ''%'' \<and> ch p 1 = CHR ''%''
      then bindO (arr_set buf i (CHR ''%'')) (\<lambda>buf. expand_loop str (drop 2 p) (i + 1) buf)
      else if hd p = CHR ''%'' \<and> ch p 1 = CHR ''s''
      then bindO (strlcpy_at buf i str) (\<lambda>buf. expand_loop str (drop 2 p) (i + length str) buf)
      else bindO (arr_set buf i (hd p)) (\<lambda>buf. expand_loop str (tl p) (i + 1) buf))"
  by pat_completeness auto
termination
  by (relation "measure (\<lambda>(str, p, i, buf). length p)") auto

declare expand_loop.simps [simp del]

definition expand_with_str :: "string option \<Rightarrow> string \<Rightarrow> string option outcome" where
  "expand_with_str val str =
     (case val of None \<Rightarrow> Ret None
      | Some p \<Rightarrow>
        if CHR ''%'' \<notin> set p then Ret val
        else bindO (expand_loop str p 0 (arr_alloc MAX_LINE)) (\<lambda>(i, buf).
          bindO (arr_set buf i NUL) (\<lambda>buf. bindO (arr_cstr buf) (\<lambda>s. Ret (Some s)))))"

section \<open>The option loop\<close>

definition SPEGLA_VERSION :: string where "SPEGLA_VERSION = ''1.1p1''"

text \<open>
  The switch of \<open>main\<close> but for \<open>GO_CONFIGFILE\<close>; \<open>in_file\<close> tells whether the option comes from a
  file. The string functions of the C library must not get \<open>NULL\<close>.
\<close>

definition with_arg :: "string option \<Rightarrow> (string \<Rightarrow> 'a outcome) \<Rightarrow> 'a outcome" where
  "with_arg arg f = (case arg of None \<Rightarrow> Undef | Some a \<Rightarrow> f a)"

definition set_version :: "string option \<Rightarrow> param \<Rightarrow> param outcome" where
  "set_version arg p =
     (case arg of None \<Rightarrow> Exit 0
      | Some a \<Rightarrow> bindO (set_param_str True a (p_version p)) (\<lambda>v.
          if v \<noteq> Some SPEGLA_VERSION \<and> v \<noteq> Some ''1.1'' then Exit 1 else Ret (p\<lparr>p_version := v\<rparr>)))"

fun option_switch :: "'w os_ops \<Rightarrow> bool \<Rightarrow> go_num \<Rightarrow> string option \<Rightarrow> param \<Rightarrow> param outcome" where
  "option_switch os in_file GO_FAMILY arg p =
     with_arg arg (\<lambda>a. bindO (set_param_family a (p_family p)) (\<lambda>v. Ret (p\<lparr>p_family := v\<rparr>)))"
| "option_switch os in_file GO_LOCALDIR arg p =
     with_arg arg (\<lambda>a. bindO (set_param_str True a (p_localdir p)) (\<lambda>v. Ret (p\<lparr>p_localdir := v\<rparr>)))"
| "option_switch os in_file GO_REMOTEDIR arg p =
     with_arg arg (\<lambda>a. bindO (set_param_str True a (p_remotedir p)) (\<lambda>v. Ret (p\<lparr>p_remotedir := v\<rparr>)))"
| "option_switch os in_file GO_USERNAME arg p =
     with_arg arg (\<lambda>a. bindO (set_param_str True a (p_username p)) (\<lambda>v. Ret (p\<lparr>p_username := v\<rparr>)))"
| "option_switch os in_file GO_PASSWORD arg p =
     with_arg arg (\<lambda>a. bindO (set_param_str True a (p_password p)) (\<lambda>v. Ret (p\<lparr>p_password := v\<rparr>)))"
| "option_switch os in_file GO_HOST arg p =
     with_arg arg (\<lambda>a. bindO (set_param_str True a (p_host p)) (\<lambda>v. Ret (p\<lparr>p_host := v\<rparr>)))"
| "option_switch os in_file GO_RETRIES arg p =
     with_arg arg (\<lambda>a. bindO (set_param_num a (p_retries p) 0 INT_MAX) (\<lambda>v. Ret (p\<lparr>p_retries := v\<rparr>)))"
| "option_switch os in_file GO_RETRYTIME arg p =
     with_arg arg (\<lambda>a. bindO (set_param_num a (p_retrytime p) 0 INT_MAX) (\<lambda>v. Ret (p\<lparr>p_retrytime := v\<rparr>)))"
| "option_switch os in_file GO_TIMEOUT arg p =
     with_arg arg (\<lambda>a. bindO (set_param_num a (p_timeout p) 0 INT_MAX) (\<lambda>v. Ret (p\<lparr>p_timeout := v\<rparr>)))"
| "option_switch os in_file GO_PORT arg p =
     with_arg arg (\<lambda>a. bindO (set_param_num a (p_port p) 0 INT_MAX) (\<lambda>v. Ret (p\<lparr>p_port := v\<rparr>)))"
| "option_switch os in_file GO_MINFREE arg p =
     with_arg arg (\<lambda>a. bindO (set_param_num a (p_minfree p) 0 INT_MAX) (\<lambda>v. Ret (p\<lparr>p_minfree := v\<rparr>)))"
| "option_switch os in_file GO_PASSIVE arg p =
     with_arg arg (\<lambda>a. bindO (set_param_yes_no a (p_passive p)) (\<lambda>v. Ret (p\<lparr>p_passive := v\<rparr>)))"
| "option_switch os in_file GO_SKIP arg p =
     with_arg arg (\<lambda>a. bindO (add_param_sps os a (p_skip p)) (\<lambda>q. Ret (p\<lparr>p_skip := q\<rparr>)))"
| "option_switch os in_file GO_TREATASDIR arg p =
     with_arg arg (\<lambda>a. bindO (add_param_spt os False a (p_treatasdir p)) (\<lambda>q. Ret (p\<lparr>p_treatasdir := q\<rparr>)))"
| "option_switch os in_file GO_TREATASDIRDEST arg p =
     with_arg arg (\<lambda>a. bindO (add_param_spt os True a (p_treatasdir p)) (\<lambda>q. Ret (p\<lparr>p_treatasdir := q\<rparr>)))"
| "option_switch os in_file GO_LOGFILE arg p =
     with_arg arg (\<lambda>a. bindO (set_param_str True a (p_logfile p)) (\<lambda>v. Ret (p\<lparr>p_logfile := v\<rparr>)))"
| "option_switch os in_file GO_LOCKFILE arg p =
     with_arg arg (\<lambda>a. bindO (set_param_str True a (p_lockfile p)) (\<lambda>v. Ret (p\<lparr>p_lockfile := v\<rparr>)))"
| "option_switch os in_file GO_MIRRORUSER arg p =
     with_arg arg (\<lambda>a. bindO (set_param_str True a (p_mirroruser p)) (\<lambda>v. Ret (p\<lparr>p_mirroruser := v\<rparr>)))"
| "option_switch os in_file GO_MAXDELETE arg p =
     with_arg arg (\<lambda>a. bindO (set_param_num a (p_maxdelete p) 0 INT_MAX) (\<lambda>v. Ret (p\<lparr>p_maxdelete := v\<rparr>)))"
| "option_switch os in_file GO_LOGLEVEL arg p =
     with_arg arg (\<lambda>a. bindO (set_param_num a (p_loglevel p) 0 INT_MAX) (\<lambda>v. Ret (p\<lparr>p_loglevel := v\<rparr>)))"
| "option_switch os in_file GO_SHOWCONF arg p =
     with_arg arg (\<lambda>a. bindO (set_param_yes_no a (p_showconf p)) (\<lambda>v. Ret (p\<lparr>p_showconf := v\<rparr>)))"
| "option_switch os in_file GO_FASTSYNC arg p =
     with_arg arg (\<lambda>a. bindO (set_param_yes_no a (p_fastsync p)) (\<lambda>v. Ret (p\<lparr>p_fastsync := v\<rparr>)))"
| "option_switch os in_file GO_DODELETE arg p =
     with_arg arg (\<lambda>a. bindO (set_param_yes_no a (p_dodelete p)) (\<lambda>v. Ret (p\<lparr>p_dodelete := v\<rparr>)))"
| "option_switch os in_file GO_WARNOVERRIDES arg p =
     with_arg arg (\<lambda>a. bindO (set_param_yes_no a (p_warnoverrides p)) (\<lambda>v. Ret (p\<lparr>p_warnoverrides := v\<rparr>)))"
| "option_switch os in_file GO_TEMPDIR arg p =
     with_arg arg (\<lambda>a. bindO (set_param_str (\<not> p_tempdir_env p) a (p_tempdir p))
       (\<lambda>v. Ret (p\<lparr>p_tempdir := v, p_tempdir_env := False\<rparr>)))"
| "option_switch os in_file GO_HELP arg p = Exit 1"
| "option_switch os in_file GO_URL arg p =
     with_arg arg (\<lambda>a. bindO (set_param_url a p) (\<lambda>p. Ret (p\<lparr>p_localdir := default_str (p_localdir p) ''.''\<rparr>)))"
| "option_switch os in_file GO_VERSION arg p = set_version arg p"
| "option_switch os in_file GO_SECTION arg p =
     (if in_file then Exit 1
      else with_arg arg (\<lambda>a. bindO (set_param_str True a (p_section p)) (\<lambda>v. Ret (p\<lparr>p_section := v\<rparr>))))"
| "option_switch os in_file GO_CONFIGFILE arg p = Exit 1"

text \<open>
  The variables of the loop. \<open>fp\<close> is open just while \<open>c_file\<close> is there; \<open>c_read\<close> is \<open>read_from_file\<close>.
\<close>

record cfg =
  c_argv :: get_opt_state
  c_file :: "get_opt_state option"
  c_read :: bool
  c_param :: param

definition open_config :: "'w os_ops \<Rightarrow> 'w \<Rightarrow> string \<Rightarrow> string option \<Rightarrow> get_opt_state outcome" where
  "open_config os w arg section =
     (case os_lstat os w arg of
        Ret sb \<Rightarrow>
          if st_mode sb AND S_IFMT \<noteq> S_IFREG then Exit 1
          else (case os_fcontent os w arg of None \<Rightarrow> Exit 1
            | Some f \<Rightarrow>
              (case tgetopt_file_init True \<lparr>f_all = f, f_rest = f, f_err = False\<rparr> section go of
                 None \<Rightarrow> Exit 1 | Some gos \<Rightarrow> Ret gos))
      | _ \<Rightarrow> Exit 1)"

definition opt_number :: "int \<Rightarrow> go_num outcome" where
  "opt_number option =
     (if 0 \<le> option \<and> nat option < length go then Ret (go_nums ! nat (go_opt_num (go ! nat option))) else Undef)"

definition handle_option :: "'w os_ops \<Rightarrow> 'w \<Rightarrow> int \<Rightarrow> string option \<Rightarrow> cfg \<Rightarrow> cfg outcome" where
  "handle_option os w option arg s =
     bindO (opt_number option) (\<lambda>g.
       if g = GO_CONFIGFILE
       then if c_file s \<noteq> None then Exit 1
         else with_arg arg (\<lambda>a. bindO (open_config os w a (p_section (c_param s))) (\<lambda>gos.
           Ret (s\<lparr>c_read := True, c_file := Some gos\<rparr>)))
       else bindO (option_switch os (c_file s \<noteq> None) g arg (c_param s)) (\<lambda>p. Ret (s\<lparr>c_param := p\<rparr>)))"

text \<open>One round of the loop; \<open>True\<close> is its \<open>break\<close>.\<close>

definition config_step :: "'w os_ops \<Rightarrow> 'w \<Rightarrow> cfg \<Rightarrow> (bool \<times> cfg) outcome" where
  "config_step os w s =
     (case c_file s of
        Some gf \<Rightarrow>
          bindO (tgetopt gf 0 None) (\<lambda>(res, option, arg, gf).
            if res < 0
            then if tgetopt_errno gf = GOS_END_OF_OPTIONS then Ret (False, s\<lparr>c_file := None\<rparr>) else Exit 1
            else bindO (handle_option os w option arg (s\<lparr>c_file := Some gf\<rparr>)) (\<lambda>s. Ret (False, s)))
      | None \<Rightarrow>
          bindO (tgetopt (c_argv s) 0 None) (\<lambda>(res, option, arg, ga).
            if res < 0
            then if tgetopt_errno ga = GOS_END_OF_OPTIONS then Ret (True, s\<lparr>c_argv := ga\<rparr>) else Exit 1
            else bindO (handle_option os w option arg (s\<lparr>c_argv := ga\<rparr>)) (\<lambda>s. Ret (False, s))))"

fun config_loop :: "nat \<Rightarrow> 'w os_ops \<Rightarrow> 'w \<Rightarrow> cfg \<Rightarrow> cfg outcome" where
  "config_loop 0 os w s = Undef"
| "config_loop (Suc n) os w s =
     bindO (config_step os w s) (\<lambda>(stop, s). if stop then Ret s else config_loop n os w s)"

text \<open>The parameters at the start: all zero but for \<open>tempdir\<close>, which is \<open>getenv ("TEMPDIR")\<close>.\<close>

definition param_zero :: param where
  "param_zero = \<lparr>p_host = None, p_localdir = None, p_remotedir = None, p_username = None, p_password = None,
     p_logfile = None, p_lockfile = None, p_tempdir = None, p_tempdir_env = False, p_version = None, p_section = None,
     p_mirroruser = None, p_timeout = None, p_retries = None, p_port = None, p_family = None, p_passive = None,
     p_retrytime = None, p_showconf = None, p_fastsync = None, p_maxdelete = None, p_loglevel = None,
     p_warnoverrides = None, p_minfree = None, p_dodelete = None, p_skip = [], p_treatasdir = []\<rparr>"

definition param_init :: "(string \<Rightarrow> string option) \<Rightarrow> param" where
  "param_init getenv = param_zero\<lparr>p_tempdir := getenv ''TEMPDIR'', p_tempdir_env := getenv ''TEMPDIR'' \<noteq> None\<rparr>"

text \<open>The password of an anonymous user, cut to its buffer.\<close>

definition anonpass :: "(string \<Rightarrow> string option) \<Rightarrow> string" where
  "anonpass getenv =
     take (MAX_LINE - 1) (case getenv ''FTPANONPASS'' of Some p \<Rightarrow> p
       | None \<Rightarrow> (case getenv ''USER'' of None \<Rightarrow> ''default'' | Some u \<Rightarrow> u) @ ''@'')"

text \<open>The checks and defaults after the loop.\<close>

definition config_check :: "bool \<Rightarrow> param \<Rightarrow> unit outcome" where
  "config_check read p =
     bindO (if read then require (p_version p) else Ret ()) (\<lambda>_. bindO (require (p_host p)) (\<lambda>_.
       bindO (require (p_localdir p)) (\<lambda>_. require (p_remotedir p))))"

definition config_defaults :: "(string \<Rightarrow> string option) \<Rightarrow> param \<Rightarrow> param" where
  "config_defaults getenv p =
     p\<lparr>p_showconf := default_num (p_showconf p) 1,
       p_username := default_str (p_username p) ''anonymous'',
       p_password := default_str (p_password p) (anonpass getenv),
       p_section := default_str (p_section p) [],
       p_version := default_str (p_version p) ''not defined'',
       p_tempdir := default_str (p_tempdir p) ''/tmp'',
       p_timeout := default_num (p_timeout p) 150,
       p_retries := default_num (p_retries p) 20,
       p_port := default_num (p_port p) 21,
       p_family := default_family (p_family p) PF_UNSPEC,
       p_passive := default_num (p_passive p) 1,
       p_retrytime := default_num (p_retrytime p) 150,
       p_fastsync := default_num (p_fastsync p) 0,
       p_dodelete := default_num (p_dodelete p) 0,
       p_maxdelete := default_num (p_maxdelete p) 150,
       p_loglevel := default_num (p_loglevel p) 0,
       p_warnoverrides := default_num (p_warnoverrides p) 1,
       p_minfree := default_num (p_minfree p) 0\<rparr>"

text \<open>The defaults, and the section put into the names of the log and lock files.\<close>

definition config_finish :: "(string \<Rightarrow> string option) \<Rightarrow> param \<Rightarrow> param outcome" where
  "config_finish getenv p =
     (let p = config_defaults getenv p in
      bindO (expand_with_str (p_logfile p) (the (p_section p))) (\<lambda>v.
        let p = p\<lparr>p_logfile := v\<rparr> in
        bindO (expand_with_str (p_lockfile p) (the (p_section p))) (\<lambda>v. Ret (p\<lparr>p_lockfile := v\<rparr>))))"

text \<open>The analysis of the configuration, from the start of \<open>main\<close> to its end.\<close>

definition config :: "nat \<Rightarrow> 'w os_ops \<Rightarrow> (string \<Rightarrow> string option) \<Rightarrow> string list \<Rightarrow> 'w \<Rightarrow> param outcome" where
  "config n os getenv argv w =
     (if length argv < 2 then Exit 1
      else case tgetopt_argv_init True argv go of None \<Rightarrow> Exit 1
      | Some ga \<Rightarrow>
        bindO (config_loop n os w \<lparr>c_argv = ga, c_file = None, c_read = False, c_param = param_init getenv\<rparr>) (\<lambda>s.
          bindO (config_check (c_read s) (c_param s)) (\<lambda>_. config_finish getenv (c_param s))))"


section \<open>Expansion\<close>

text \<open>What \<open>expand_with_str\<close> is to compute.\<close>

fun subst_pct :: "string \<Rightarrow> string \<Rightarrow> string" where
  "subst_pct str [] = []"
| "subst_pct str [c] = [c]"
| "subst_pct str (c # d # p) =
     (if c = CHR ''%'' \<and> d = CHR ''%'' then CHR ''%'' # subst_pct str p
      else if c = CHR ''%'' \<and> d = CHR ''s'' then str @ subst_pct str p
      else c # subst_pct str (d # p))"

lemma subst_pct_unfold:
  "p \<noteq> [] \<Longrightarrow> subst_pct str p =
     (if hd p = CHR ''%'' \<and> ch p 1 = CHR ''%'' then CHR ''%'' # subst_pct str (drop 2 p)
      else if hd p = CHR ''%'' \<and> ch p 1 = CHR ''s'' then str @ subst_pct str (drop 2 p)
      else hd p # subst_pct str (tl p))"
  by (cases "(str, p)" rule: subst_pct.cases) (auto simp: ch_def)

lemma set_subst_pct: "set (subst_pct str p) \<subseteq> set p \<union> set str"
  by (induction str p rule: subst_pct.induct) auto

lemma arr_set_next: "length (map Some acc @ rest) = n \<Longrightarrow> length acc < n \<Longrightarrow>
  \<exists>rest'. arr_set (map Some acc @ rest) (length acc) v = Ret (map Some (acc @ [v]) @ rest') \<and>
    length (map Some (acc @ [v]) @ rest') = n"
  by (cases rest) (auto simp: arr_set_def list_update_append)

lemma strlcpy_at_fits:
  assumes "length (map Some acc @ rest) = MAX_LINE" "length acc + length str < MAX_LINE"
  shows "\<exists>rest'. strlcpy_at (map Some acc @ rest) (length acc) str = Ret (map Some (acc @ str) @ rest') \<and>
    length (map Some (acc @ str) @ rest') = MAX_LINE"
  using assms by (auto simp: strlcpy_at_def arr_copy_def Let_def)

lemma strlcpy_at_length:
  "length buf = MAX_LINE \<Longrightarrow> i < MAX_LINE \<Longrightarrow> \<exists>buf'. strlcpy_at buf i str = Ret buf' \<and> length buf' = MAX_LINE"
  by (auto simp: strlcpy_at_def arr_copy_def Let_def min_def)

lemma expand_loop_fits:
  "length (map Some acc @ rest) = MAX_LINE \<Longrightarrow> length acc + length (subst_pct str p) < MAX_LINE \<Longrightarrow>
   \<exists>rest'. expand_loop str p (length acc) (map Some acc @ rest) =
     Ret (length (acc @ subst_pct str p), map Some (acc @ subst_pct str p) @ rest') \<and>
     length (map Some (acc @ subst_pct str p) @ rest') = MAX_LINE"
proof (induction "length p" arbitrary: p acc rest rule: less_induct)
  case less
  show ?case
  proof (cases "p = []")
    case True
    then show ?thesis using less.prems by (subst expand_loop.simps) auto
  next
    case False
    note un = subst_pct_unfold [OF False, of str]
    have i: "length acc < MAX_LINE" using less.prems(2) by simp
    have step: "\<exists>rest'. expand_loop str q (length acc') (map Some acc' @ r) =
        Ret (length (acc @ subst_pct str p), map Some (acc @ subst_pct str p) @ rest') \<and>
        length (map Some (acc @ subst_pct str p) @ rest') = MAX_LINE"
      if "length q < length p" "acc' @ subst_pct str q = acc @ subst_pct str p" "length (map Some acc' @ r) = MAX_LINE" for q acc' r
    proof -
      have "length acc' + length (subst_pct str q) < MAX_LINE"
        using less.prems(2) arg_cong [OF that(2), of length] by simp
      from less.hyps [OF that(1,3) this] show ?thesis by (simp add: that(2))
    qed
    have put: "\<exists>r. arr_set (map Some acc @ rest) (length acc) v = Ret (map Some (acc @ [v]) @ r) \<and>
        length (map Some (acc @ [v]) @ r) = MAX_LINE" for v
      by (rule arr_set_next [OF less.prems(1) i])
    consider (pct) "hd p = CHR ''%''" "ch p 1 = CHR ''%''" | (s) "hd p = CHR ''%''" "ch p 1 = CHR ''s''"
      | (other) "\<not> (hd p = CHR ''%'' \<and> ch p 1 = CHR ''%'')" "\<not> (hd p = CHR ''%'' \<and> ch p 1 = CHR ''s'')" by blast
    then show ?thesis
    proof cases
      case pct
      obtain r where r: "arr_set (map Some acc @ rest) (length acc) (CHR ''%'') = Ret (map Some (acc @ [CHR ''%'']) @ r)"
        "length (map Some (acc @ [CHR ''%'']) @ r) = MAX_LINE" using put by blast
      have "expand_loop str p (length acc) (map Some acc @ rest) =
          expand_loop str (drop 2 p) (length (acc @ [CHR ''%''])) (map Some (acc @ [CHR ''%'']) @ r)"
        using pct False i by (subst expand_loop.simps) (simp add: r(1))
      then show ?thesis using step [of "drop 2 p" "acc @ [CHR ''%'']" r] r(2) un pct False by simp
    next
      case s
      have "length acc + length str < MAX_LINE" using less.prems(2) un s by simp
      then obtain r where r: "strlcpy_at (map Some acc @ rest) (length acc) str = Ret (map Some (acc @ str) @ r)"
        "length (map Some (acc @ str) @ r) = MAX_LINE" using strlcpy_at_fits less.prems(1) by blast
      have "expand_loop str p (length acc) (map Some acc @ rest) =
          expand_loop str (drop 2 p) (length (acc @ str)) (map Some (acc @ str) @ r)"
        using s False i by (subst expand_loop.simps) (simp add: r(1))
      then show ?thesis using step [of "drop 2 p" "acc @ str" r] r(2) un s False by simp
    next
      case other
      obtain r where r: "arr_set (map Some acc @ rest) (length acc) (hd p) = Ret (map Some (acc @ [hd p]) @ r)"
        "length (map Some (acc @ [hd p]) @ r) = MAX_LINE" using put by blast
      have "expand_loop str p (length acc) (map Some acc @ rest) =
          expand_loop str (tl p) (length (acc @ [hd p])) (map Some (acc @ [hd p]) @ r)"
        using other False i by (subst expand_loop.simps) (auto simp: r(1) simp del: arr_set_Ret)
      moreover have "subst_pct str p = hd p # subst_pct str (tl p)" using un other by auto
      ultimately show ?thesis using step [of "tl p" "acc @ [hd p]" r] r(2) False by simp
    qed
  qed
qed

lemma expand_loop_full:
  "length buf = MAX_LINE \<Longrightarrow> MAX_LINE \<le> i + length (subst_pct str p) \<Longrightarrow>
   \<exists>j buf'. expand_loop str p i buf = Ret (j, buf') \<and> MAX_LINE \<le> j \<and> length buf' = MAX_LINE"
proof (induction str p i buf rule: expand_loop.induct)
  case (1 str p i buf)
  show ?case
  proof (cases "MAX_LINE \<le> i \<or> p = []")
    case True
    then show ?thesis using 1(4,5) by (subst expand_loop.simps) auto
  next
    case False
    then have p: "p \<noteq> []" and set: "\<And>v. arr_set buf i v = Ret (buf[i := Some v])" using 1(4) by (auto simp: arr_set_def)
    obtain b where b: "strlcpy_at buf i str = Ret b" "length b = MAX_LINE" using strlcpy_at_length [OF 1(4), of i str] False by auto
    show ?thesis
      using 1(1-3) [OF False] 1(4,5) subst_pct_unfold [OF p, of str] set b False
      by (subst expand_loop.simps) (auto split: if_splits)
  qed
qed

section \<open>URLs\<close>

lemma split_at_first: "c \<notin> set xs \<Longrightarrow> split_at c (xs @ c # ys) = Some (xs, ys)"
  by (induction xs) (auto simp: split_at_def)

lemma split_at_none: "c \<notin> set xs \<Longrightarrow> split_at c xs = None"
  by (simp add: split_at_def)

lemma to_int_id: "- (2 ^ 31) \<le> n \<Longrightarrow> n \<le> INT_MAX \<Longrightarrow> to_int n = n"
  by (simp add: to_int_def INT_MAX_def)

lemma set_param_num_dec: "int n \<le> INT_MAX \<Longrightarrow> set_param_num (dec n) v 0 INT_MAX = Ret (Some (int n))"
  using strtol_dec [of n] to_int_id [of "int n"] by (simp add: set_param_num_def INT_MAX_def)

text \<open>A url \<open>ftp://[user[:pass]@]host[:port]/path\<close>.\<close>

definition user_text :: "(string \<times> string option) option \<Rightarrow> string" where
  "user_text user =
     (case user of None \<Rightarrow> []
      | Some (u, pw) \<Rightarrow> u @ (case pw of None \<Rightarrow> [] | Some w \<Rightarrow> CHR '':'' # w) @ [CHR ''@''])"

definition host_text :: "string \<Rightarrow> nat option \<Rightarrow> string" where
  "host_text host port = host @ (case port of None \<Rightarrow> [] | Some n \<Rightarrow> CHR '':'' # dec n)"

definition user_ok :: "(string \<times> string option) option \<Rightarrow> bool" where
  "user_ok user \<longleftrightarrow>
     (case user of None \<Rightarrow> True
      | Some (u, pw) \<Rightarrow> CHR ''@'' \<notin> set u \<and> CHR '':'' \<notin> set u \<and> (case pw of None \<Rightarrow> True | Some w \<Rightarrow> CHR ''@'' \<notin> set w))"

definition put_user :: "(string \<times> string option) option \<Rightarrow> param \<Rightarrow> param" where
  "put_user user p =
     (case user of None \<Rightarrow> p
      | Some (u, pw) \<Rightarrow>
        p\<lparr>p_username := Some u, p_password := (case pw of None \<Rightarrow> p_password p | Some w \<Rightarrow> Some w)\<rparr>)"

definition put_host :: "string \<Rightarrow> nat option \<Rightarrow> param \<Rightarrow> param" where
  "put_host host port p =
     p\<lparr>p_host := Some host, p_port := (case port of None \<Rightarrow> p_port p | Some n \<Rightarrow> Some (int n))\<rparr>"

lemma url_user_text:
  assumes "user_ok user" "user = None \<Longrightarrow> CHR ''@'' \<notin> set url" "url \<noteq> []"
  shows "url_user (user_text user @ url) p = Ret (url, put_user user p)"
proof (cases user)
  case None
  then show ?thesis using assms by (simp add: url_user_def user_text_def split_at_none put_user_def)
next
  case (Some up)
  obtain u pw where up: "up = (u, pw)" by (cases up)
  let ?w = "case pw of None \<Rightarrow> [] | Some w \<Rightarrow> CHR '':'' # w"
  have "CHR ''@'' \<notin> set (u @ ?w)" using assms(1) Some up by (auto simp: user_ok_def split: option.splits)
  from split_at_first [OF this, of url]
  have at: "split_at (CHR ''@'') (user_text user @ url) = Some (u @ ?w, url)" by (simp add: user_text_def Some up)
  have u: "CHR '':'' \<notin> set u" using assms(1) Some up by (simp add: user_ok_def)
  show ?thesis
    using at assms(3) split_at_first [OF u] split_at_none [OF u]
    by (cases pw) (simp_all add: url_user_def set_param_str_def put_user_def Some up)
qed

lemma dec_no_slash: "CHR ''/'' \<notin> set (dec n)" "CHR ''@'' \<notin> set (dec n)"
  by (auto dest!: dec_digits simp: isdigit_def)

lemma url_host_text:
  assumes "CHR '':'' \<notin> set host" "CHR ''/'' \<notin> set host" "\<And>n. port = Some n \<Longrightarrow> int n \<le> INT_MAX"
  shows "url_host (host_text host port @ CHR ''/'' # path) p = Ret (path, put_host host port p)"
proof -
  have "CHR ''/'' \<notin> set (host_text host port)" using assms(2) dec_no_slash by (simp add: host_text_def split: option.splits)
  then have "split_at (CHR ''/'') (host_text host port @ CHR ''/'' # path) = Some (host_text host port, path)"
    by (rule split_at_first)
  then show ?thesis
    using split_at_first [OF assms(1)] split_at_none [OF assms(1)] assms(3)
    by (cases port) (simp_all add: url_host_def host_text_def set_param_str_def set_param_num_dec put_host_def)
qed


section \<open>Well-formed parameters\<close>

definition num_ok :: "int option \<Rightarrow> bool" where
  "num_ok v \<longleftrightarrow> (case v of None \<Rightarrow> True | Some n \<Rightarrow> 0 \<le> n \<and> n \<le> INT_MAX)"

definition flag_ok :: "int option \<Rightarrow> bool" where
  "flag_ok v \<longleftrightarrow> v = None \<or> v = Some 0 \<or> v = Some 1"

definition family_ok :: "int option \<Rightarrow> bool" where
  "family_ok v \<longleftrightarrow> v = None \<or> v = Some PF_UNSPEC \<or> v = Some PF_INET"

definition param_ok :: "param \<Rightarrow> bool" where
  "param_ok p \<longleftrightarrow>
     list_all num_ok [p_timeout p, p_retries p, p_port p, p_retrytime p, p_maxdelete p, p_loglevel p, p_minfree p] \<and>
     list_all flag_ok [p_passive p, p_showconf p, p_fastsync p, p_warnoverrides p, p_dodelete p] \<and>
     family_ok (p_family p) \<and> p_version p \<in> {None, Some SPEGLA_VERSION, Some ''1.1''} \<and>
     list_all (\<lambda>sps. sps_reg_errno sps = 0) (p_skip p) \<and> list_all (\<lambda>spt. spt_reg_errno spt = 0) (p_treatasdir p)"

named_theorems param_rules

lemma set_param_num_ok [param_rules]: "set_param_num a v 0 INT_MAX = Ret x \<Longrightarrow> num_ok x"
  by (auto simp: set_param_num_def num_ok_def Let_def split: prod.splits if_splits)

lemma set_param_yes_no_ok [param_rules]: "set_param_yes_no a v = Ret x \<Longrightarrow> flag_ok x"
  by (auto simp: set_param_yes_no_def flag_ok_def split: if_splits)

lemma set_param_family_ok [param_rules]: "set_param_family a v = Ret x \<Longrightarrow> family_ok x"
  by (auto simp: set_param_family_def family_ok_def split: if_splits)

lemma default_num_ok: "num_ok v \<Longrightarrow> num_ok (default_num v 150)" "num_ok v \<Longrightarrow> num_ok (default_num v 20)"
    "num_ok v \<Longrightarrow> num_ok (default_num v 21)" "num_ok v \<Longrightarrow> num_ok (default_num v 0)"
  by (simp_all add: num_ok_def default_num_def INT_MAX_def)

lemma default_flag_ok: "flag_ok v \<Longrightarrow> flag_ok (default_num v 0)" "flag_ok v \<Longrightarrow> flag_ok (default_num v 1)"
  by (auto simp: flag_ok_def default_num_def)

lemma default_family_ok: "family_ok v \<Longrightarrow> family_ok (default_family v PF_UNSPEC)"
  by (auto simp: family_ok_def default_family_def)

lemma add_param_sps_ok [param_rules]:
  "add_param_sps os a q = Ret x \<Longrightarrow> list_all (\<lambda>sps. sps_reg_errno sps = 0) q \<Longrightarrow> list_all (\<lambda>sps. sps_reg_errno sps = 0) x"
  by (auto simp: add_param_sps_def sps_error_def split: option.splits if_splits)

lemma add_param_spt_ok [param_rules]:
  "add_param_spt os d a q = Ret x \<Longrightarrow> list_all (\<lambda>spt. spt_reg_errno spt = 0) q \<Longrightarrow> list_all (\<lambda>spt. spt_reg_errno spt = 0) x"
  by (auto simp: add_param_spt_def spt_error_def split: option.splits if_splits)

text \<open>What an assignment to a member must bring.\<close>

lemma param_ok_update:
  assumes "param_ok p"
  shows "param_ok (p\<lparr>p_host := s\<rparr>)" "param_ok (p\<lparr>p_localdir := s\<rparr>)" "param_ok (p\<lparr>p_remotedir := s\<rparr>)"
    "param_ok (p\<lparr>p_username := s\<rparr>)" "param_ok (p\<lparr>p_password := s\<rparr>)" "param_ok (p\<lparr>p_logfile := s\<rparr>)"
    "param_ok (p\<lparr>p_lockfile := s\<rparr>)" "param_ok (p\<lparr>p_tempdir := s\<rparr>)" "param_ok (p\<lparr>p_tempdir_env := b\<rparr>)"
    "param_ok (p\<lparr>p_section := s\<rparr>)" "param_ok (p\<lparr>p_mirroruser := s\<rparr>)"
    "s \<in> {None, Some SPEGLA_VERSION, Some ''1.1''} \<Longrightarrow> param_ok (p\<lparr>p_version := s\<rparr>)"
    "num_ok v \<Longrightarrow> param_ok (p\<lparr>p_timeout := v\<rparr>)" "num_ok v \<Longrightarrow> param_ok (p\<lparr>p_retries := v\<rparr>)"
    "num_ok v \<Longrightarrow> param_ok (p\<lparr>p_port := v\<rparr>)" "num_ok v \<Longrightarrow> param_ok (p\<lparr>p_retrytime := v\<rparr>)"
    "num_ok v \<Longrightarrow> param_ok (p\<lparr>p_maxdelete := v\<rparr>)" "num_ok v \<Longrightarrow> param_ok (p\<lparr>p_loglevel := v\<rparr>)"
    "num_ok v \<Longrightarrow> param_ok (p\<lparr>p_minfree := v\<rparr>)" "flag_ok v \<Longrightarrow> param_ok (p\<lparr>p_passive := v\<rparr>)"
    "flag_ok v \<Longrightarrow> param_ok (p\<lparr>p_showconf := v\<rparr>)" "flag_ok v \<Longrightarrow> param_ok (p\<lparr>p_fastsync := v\<rparr>)"
    "flag_ok v \<Longrightarrow> param_ok (p\<lparr>p_warnoverrides := v\<rparr>)" "flag_ok v \<Longrightarrow> param_ok (p\<lparr>p_dodelete := v\<rparr>)"
    "family_ok v \<Longrightarrow> param_ok (p\<lparr>p_family := v\<rparr>)"
    "list_all (\<lambda>sps. sps_reg_errno sps = 0) q \<Longrightarrow> param_ok (p\<lparr>p_skip := q\<rparr>)"
    "list_all (\<lambda>spt. spt_reg_errno spt = 0) r \<Longrightarrow> param_ok (p\<lparr>p_treatasdir := r\<rparr>)"
  using assms by (simp_all add: param_ok_def)

lemma param_ok_lists:
  "param_ok p \<Longrightarrow> list_all (\<lambda>sps. sps_reg_errno sps = 0) (p_skip p)"
  "param_ok p \<Longrightarrow> list_all (\<lambda>spt. spt_reg_errno spt = 0) (p_treatasdir p)"
  by (simp_all add: param_ok_def)

lemma url_user_ok: "param_ok p \<Longrightarrow> url_user url p = Ret (url', p') \<Longrightarrow> param_ok p'"
  by (auto simp: url_user_def param_ok_update split: option.splits prod.splits if_splits)

lemma url_host_ok: "param_ok p \<Longrightarrow> url_host url p = Ret (url', p') \<Longrightarrow> param_ok p'"
  by (auto simp: url_host_def split: option.splits prod.splits intro!: param_ok_update dest!: set_param_num_ok)

lemma set_param_url_ok: "param_ok p \<Longrightarrow> set_param_url a p = Ret p' \<Longrightarrow> param_ok p'"
  by (auto simp: set_param_url_def Let_def split: if_splits intro!: param_ok_update dest: url_user_ok url_host_ok)

lemma option_switch_ok: "param_ok p \<Longrightarrow> option_switch os in_file g arg p = Ret p' \<Longrightarrow> param_ok p'"
proof (cases arg)
  case None
  assume "param_ok p" "option_switch os in_file g arg p = Ret p'"
  then show ?thesis using None by (cases g) (simp_all add: with_arg_def set_version_def split: if_splits)
next
  case (Some a)
  assume p: "param_ok p" and r: "option_switch os in_file g arg p = Ret p'"
  show ?thesis
    using r p Some
    by (cases g) (auto simp: with_arg_def set_version_def split: if_splits
        intro!: param_ok_update intro: param_rules param_ok_lists dest: set_param_url_ok)
qed

lemma handle_option_ok:
  assumes "param_ok (c_param s)" "handle_option os w option arg s = Ret s'"
  shows "param_ok (c_param s')"
proof -
  obtain g where g: "opt_number option = Ret g" using assms(2) by (auto simp: handle_option_def)
  show ?thesis
    using assms g
    by (cases "g = GO_CONFIGFILE") (auto simp: handle_option_def with_arg_def split: if_splits option.splits dest: option_switch_ok)
qed

lemma config_step_ok:
  "param_ok (c_param s) \<Longrightarrow> outcome_inv (\<lambda>(stop, s'). param_ok (c_param s')) (config_step os w s)"
  unfolding config_step_def by (intro outcome_rules) (auto dest!: handle_option_ok [rotated])

lemma config_loop_ok: "param_ok (c_param s) \<Longrightarrow> config_loop n os w s = Ret s' \<Longrightarrow> param_ok (c_param s')"
proof (induction n arbitrary: s)
  case (Suc n)
  obtain stop t where t: "config_step os w s = Ret (stop, t)" "(if stop then Ret t else config_loop n os w t) = Ret s'"
    using Suc.prems(2) by auto
  then have "param_ok (c_param t)" using config_step_ok [OF Suc.prems(1), of os w] by simp
  then show ?case using Suc.IH t(2) by (auto split: if_splits)
qed simp


section \<open>The option loop on command lines and files\<close>

lemma table_ok_go: "table_ok go"
  by (simp add: table_ok_def go_def go_entry_def NUL_def)

lemma opt_run_Cons:
  assumes "opt_run n gos = Ret ((i, a) # xs, g')"
  obtains m res g1 where "tgetopt gos 0 None = Ret (res, i, a, g1)" "\<not> res < 0" "opt_run m g1 = Ret (xs, g')"
  using assms by (cases n) (auto simp: opt_run.simps split: if_splits)

lemma opt_run_Nil:
  assumes "opt_run n gos = Ret ([], g')"
  obtains res i a where "tgetopt gos 0 None = Ret (res, i, a, g')" "res < 0"
  using assms by (cases n) (auto simp: opt_run.simps split: if_splits)

text \<open>A setting of a configuration file.\<close>

definition set_from_file :: "'w os_ops \<Rightarrow> param \<Rightarrow> int \<times> string option \<Rightarrow> param outcome" where
  "set_from_file os p ia = bindO (opt_number (fst ia)) (\<lambda>g. option_switch os True g (snd ia) p)"

lemma handle_in_file:
  "c_file s = Some gf \<Longrightarrow>
   handle_option os w i a s = bindO (set_from_file os (c_param s) (i, a)) (\<lambda>p. Ret (s\<lparr>c_param := p\<rparr>))"
  by (auto simp: handle_option_def set_from_file_def bindO_assoc intro!: bindO_cong)

text \<open>The rounds that read a file, up to its end.\<close>

lemma config_loop_file:
  "opt_run k gf = Ret (xs, gf') \<Longrightarrow> tgetopt_errno gf' = GOS_END_OF_OPTIONS \<Longrightarrow> c_file s = Some gf \<Longrightarrow>
   config_loop (Suc (length xs) + n) os w s =
     bindO (foldO (set_from_file os) (c_param s) xs) (\<lambda>p. config_loop n os w (s\<lparr>c_file := None, c_param := p\<rparr>))"
proof (induction xs arbitrary: k gf s)
  case Nil
  obtain res i a where "tgetopt gf 0 None = Ret (res, i, a, gf')" "res < 0" by (rule opt_run_Nil [OF Nil.prems(1)])
  then show ?case using Nil.prems(2,3) by (simp add: config_step_def)
next
  case (Cons ia xs)
  obtain i a where ia: "ia = (i, a)" by (cases ia)
  obtain m res g1 where g1: "tgetopt gf 0 None = Ret (res, i, a, g1)" "\<not> res < 0" "opt_run m g1 = Ret (xs, gf')"
    by (rule opt_run_Cons [OF Cons.prems(1) [unfolded ia]])
  let ?s = "\<lambda>p. s\<lparr>c_file := Some g1, c_param := p\<rparr>"
  have "config_step os w s = bindO (set_from_file os (c_param s) ia) (\<lambda>p. Ret (False, ?s p))"
    using g1(1,2) Cons.prems(3) ia
    by (simp add: config_step_def handle_in_file [of "s\<lparr>c_file := Some g1\<rparr>" g1] bindO_assoc)
  then have "config_loop (Suc (length (ia # xs)) + n) os w s =
      bindO (set_from_file os (c_param s) ia) (\<lambda>p. config_loop (Suc (length xs) + n) os w (?s p))"
    by (simp add: bindO_assoc)
  also have "\<dots> = bindO (set_from_file os (c_param s) ia) (\<lambda>p.
      bindO (foldO (set_from_file os) p xs) (\<lambda>p. config_loop n os w (s\<lparr>c_file := None, c_param := p\<rparr>)))"
    using Cons.IH [OF g1(3) Cons.prems(2)] by simp
  finally show ?case by (simp add: bindO_assoc)
qed

text \<open>A file whose settings all name options that take an argument.\<close>

definition conf_row :: "row \<Rightarrow> bool" where
  "conf_row r \<longleftrightarrow> row_ok r \<and> line_ok (row_text r) \<and>
     (case r of Setting n a c \<Rightarrow> (case go_find (\<lambda>g. go_name g = n) go 0 of None \<Rightarrow> False | Some (i, g) \<Rightarrow> go_want_arg g \<noteq> NO_ARG)
      | _ \<Rightarrow> True)"

lemma conf_row_known: "list_all conf_row rows \<Longrightarrow> known go path b rows"
  by (induction go path b rows rule: known.induct) (auto simp: conf_row_def split: option.splits)

definition section_of :: "string option \<Rightarrow> string" where
  "section_of sect = (case sect of None \<Rightarrow> [] | Some s \<Rightarrow> s)"

definition file_holds :: "'w os_ops \<Rightarrow> 'w \<Rightarrow> string \<Rightarrow> row list \<Rightarrow> bool" where
  "file_holds os w f rows \<longleftrightarrow>
     (case os_lstat os w f of Ret sb \<Rightarrow> st_mode sb AND S_IFMT = S_IFREG | _ \<Rightarrow> False) \<and>
     os_fcontent os w f = Some (file_text rows) \<and> list_all conf_row rows"

lemma open_config_run:
  fixes sect :: "string option"
  assumes "file_holds os w f rows"
  defines "xs \<equiv> settings go (section_of sect) (section_of sect = []) rows"
  obtains gos gos' where "open_config os w f sect = Ret gos" "opt_run (length xs + 1) gos = Ret (xs, gos')"
    "tgetopt_errno gos' = GOS_END_OF_OPTIONS"
proof -
  let ?f = "\<lparr>f_all = file_text rows, f_rest = file_text rows, f_err = False\<rparr>"
  obtain gos where gos: "tgetopt_file_init True ?f sect go = Some gos" by (simp add: tgetopt_file_init_def)
  have op: "open_config os w f sect = Ret gos"
    using assms(1) gos by (auto simp: open_config_def file_holds_def split: outcome.splits)
  have at: "at_row go (section_of sect) (section_of sect = []) rows gos" "gos_pos gos < 0"
    using gos by (auto simp: tgetopt_file_init_def at_row_def gos_zero_def GOS_OK_def section_of_def split: option.splits)
  have rows: "list_all (\<lambda>r. row_ok r \<and> line_ok (row_text r)) rows" "known go (section_of sect) (section_of sect = []) rows"
    using assms(1) conf_row_known by (auto simp: file_holds_def conf_row_def list_all_iff)
  obtain gos' where "run_from (length xs) gos 0 None = Ret (xs, gos')" "gos_errno gos' = GOS_END_OF_OPTIONS"
    using run_file [OF at(1) rows, of 0 None] by (auto simp: xs_def)
  then show thesis using that [OF op] opt_run_row [OF at, of "length xs"] by (simp add: tgetopt_errno_def)
qed

text \<open>
  What a command line means: its options in order, where a configuration file stands for the
  settings of its section.
\<close>

fun config_spec ::
  "'w os_ops \<Rightarrow> (string \<Rightarrow> row list) \<Rightarrow> (int \<times> string option) list \<Rightarrow> bool \<times> param \<Rightarrow> (bool \<times> param) outcome" where
  "config_spec os files [] (r, p) = Ret (r, p)"
| "config_spec os files ((i, a) # xs) (r, p) =
     bindO (opt_number i) (\<lambda>g.
       if g = GO_CONFIGFILE
       then with_arg a (\<lambda>f.
         bindO (foldO (set_from_file os) p (settings go (section_of (p_section p)) (section_of (p_section p) = []) (files f)))
           (\<lambda>p. config_spec os files xs (True, p)))
       else bindO (option_switch os False g a p) (\<lambda>p. config_spec os files xs (r, p)))"

definition cfg_result :: "cfg outcome \<Rightarrow> (bool \<times> param) outcome" where
  "cfg_result r = bindO r (\<lambda>s. Ret (c_read s, c_param s))"

lemma cfg_result_bindO: "cfg_result (bindO m f) = bindO m (\<lambda>x. cfg_result (f x))"
  by (simp add: cfg_result_def bindO_assoc)

lemma enough_bindO:
  assumes "\<And>x. m = Ret x \<Longrightarrow> \<exists>N. \<forall>n\<ge>N. f n x = g x"
  shows "\<exists>N. \<forall>n\<ge>(N::nat). bindO m (f n) = bindO m g"
  using assms by (cases m) auto


lemma enough_add:
  assumes "\<exists>N. \<forall>n\<ge>N. P n"
  shows "\<exists>N. \<forall>n\<ge>(N::nat). n \<ge> k \<and> P (n - k)"
proof -
  obtain N where "\<forall>n\<ge>N. P n" using assms by blast
  then show ?thesis by (intro exI [of _ "N + k"]) auto
qed

lemma config_loop_spec:
  "opt_run k (c_argv s) = Ret (xs, ga') \<Longrightarrow> tgetopt_errno ga' = GOS_END_OF_OPTIONS \<Longrightarrow> c_file s = None \<Longrightarrow>
   (\<And>i f. (i, Some f) \<in> set xs \<Longrightarrow> opt_number i = Ret GO_CONFIGFILE \<Longrightarrow> file_holds os w f (files f)) \<Longrightarrow>
   \<exists>N. \<forall>n\<ge>N. cfg_result (config_loop n os w s) = config_spec os files xs (c_read s, c_param s)"
proof (induction xs arbitrary: k s)
  case Nil
  obtain res i a where "tgetopt (c_argv s) 0 None = Ret (res, i, a, ga')" "res < 0" by (rule opt_run_Nil [OF Nil.prems(1)])
  then have "cfg_result (config_loop (Suc n) os w s) = Ret (c_read s, c_param s)" for n
    using Nil.prems(2,3) by (simp add: config_step_def cfg_result_def)
  then have "n \<ge> 1 \<Longrightarrow> cfg_result (config_loop n os w s) = Ret (c_read s, c_param s)" for n by (cases n) auto
  then show ?case by (auto intro!: exI [of _ 1])
next
  case (Cons ia xs)
  obtain i a where ia: "ia = (i, a)" by (cases ia)
  obtain m res g1 where g1: "tgetopt (c_argv s) 0 None = Ret (res, i, a, g1)" "\<not> res < 0" "opt_run m g1 = Ret (xs, ga')"
    by (rule opt_run_Cons [OF Cons.prems(1) [unfolded ia]])
  let ?s = "s\<lparr>c_argv := g1\<rparr>"
  have "config_step os w s = bindO (handle_option os w i a ?s) (\<lambda>s. Ret (False, s))"
    using g1(1,2) Cons.prems(3) by (simp add: config_step_def)
  then have step: "config_loop (Suc n) os w s = bindO (handle_option os w i a ?s) (\<lambda>t. config_loop n os w t)" for n
    by (simp add: bindO_assoc)
  have IH: "\<exists>N. \<forall>n\<ge>N. cfg_result (config_loop n os w t) = config_spec os files xs (c_read t, c_param t)"
    if "c_argv t = g1" "c_file t = None" for t
    using Cons.IH [of m t] that g1(3) Cons.prems(2,4) by auto
  have "\<exists>N. \<forall>n\<ge>N. cfg_result (config_loop (Suc n) os w s) = config_spec os files (ia # xs) (c_read s, c_param s)"
  proof (cases "\<exists>g. opt_number i = Ret g")
    case False
    then show ?thesis by (cases "opt_number i") (auto simp: step ia handle_option_def cfg_result_def simp del: config_loop.simps)
  next
    case True
    then obtain g where g: "opt_number i = Ret g" by blast
    show ?thesis
    proof (cases "g = GO_CONFIGFILE")
      case False
      have "cfg_result (config_loop (Suc n) os w s) = bindO (option_switch os False g a (c_param s)) (\<lambda>p.
          cfg_result (config_loop n os w (?s\<lparr>c_param := p\<rparr>)))" for n
        using Cons.prems(3) by (simp add: step handle_option_def g False bindO_assoc cfg_result_bindO del: config_loop.simps)
      moreover have "\<exists>N. \<forall>n\<ge>N. cfg_result (config_loop n os w (?s\<lparr>c_param := p\<rparr>)) = config_spec os files xs (c_read s, p)" for p
        using IH [of "?s\<lparr>c_param := p\<rparr>"] Cons.prems(3) by simp
      ultimately show ?thesis using False by (simp add: ia g enough_bindO del: config_loop.simps)
    next
      case True
      show ?thesis
      proof (cases a)
        case None
        then show ?thesis using True g Cons.prems(3) by (auto simp: step ia handle_option_def with_arg_def cfg_result_def simp del: config_loop.simps)
      next
        case (Some f)
        let ?ys = "settings go (section_of (p_section (c_param s))) (section_of (p_section (c_param s)) = []) (files f)"
        have "file_holds os w f (files f)" using Cons.prems(4) ia Some g True by auto
        then obtain gos gos' where o: "open_config os w f (p_section (c_param s)) = Ret gos"
          "opt_run (length ?ys + 1) gos = Ret (?ys, gos')" "tgetopt_errno gos' = GOS_END_OF_OPTIONS"
          by (rule open_config_run)
        let ?t = "s\<lparr>c_argv := g1, c_read := True, c_file := Some gos\<rparr>"
        have "config_loop (Suc (Suc (length ?ys) + n)) os w s = bindO (foldO (set_from_file os) (c_param s) ?ys)
            (\<lambda>p. config_loop n os w (s\<lparr>c_argv := g1, c_read := True, c_file := None, c_param := p\<rparr>))" for n
          unfolding step using config_loop_file [OF o(2,3), of ?t n os w] o(1) Cons.prems(3)
          by (simp add: handle_option_def g True Some with_arg_def del: config_loop.simps)
        then have eq: "cfg_result (config_loop (Suc n) os w s) = bindO (foldO (set_from_file os) (c_param s) ?ys)
            (\<lambda>p. cfg_result (config_loop (n - Suc (length ?ys)) os w
              (s\<lparr>c_argv := g1, c_read := True, c_file := None, c_param := p\<rparr>)))" if "Suc (length ?ys) \<le> n" for n
          using that by (metis cfg_result_bindO le_add_diff_inverse)
        have "\<exists>N. \<forall>n\<ge>N. bindO (foldO (set_from_file os) (c_param s) ?ys)
            (\<lambda>p. cfg_result (config_loop n os w (s\<lparr>c_argv := g1, c_read := True, c_file := None, c_param := p\<rparr>))) =
            config_spec os files (ia # xs) (c_read s, c_param s)"
        proof -
          have "\<exists>N. \<forall>n\<ge>N. cfg_result (config_loop n os w (s\<lparr>c_argv := g1, c_read := True, c_file := None, c_param := p\<rparr>)) =
              config_spec os files xs (True, p)" for p
            using IH [of "s\<lparr>c_argv := g1, c_read := True, c_file := None, c_param := p\<rparr>"] by simp
          then show ?thesis using True by (simp add: ia g Some with_arg_def enough_bindO del: config_loop.simps)
        qed
        from enough_add [OF this, of "Suc (length ?ys)"] show ?thesis using eq by metis
      qed
    qed
  qed
  then obtain N where N: "\<And>n. n \<ge> N \<Longrightarrow> cfg_result (config_loop (Suc n) os w s) = config_spec os files (ia # xs) (c_read s, c_param s)"
    by blast
  have "cfg_result (config_loop n os w s) = config_spec os files (ia # xs) (c_read s, c_param s)" if "n \<ge> Suc N" for n
    using that N [of "n - 1"] by (cases n) auto
  then show ?case by blast
qed


lemma argv_config_loop:
  assumes "list_all (item_ok go) its" "tgetopt_argv_init True (prog # concat (map (item_args go) its)) go = Some ga"
    "\<And>i f. (i, Some f) \<in> set (concat (map item_opts its)) \<Longrightarrow> opt_number i = Ret GO_CONFIGFILE \<Longrightarrow> file_holds os w f (files f)"
  shows "\<exists>N. \<forall>n\<ge>N. cfg_result (config_loop n os w \<lparr>c_argv = ga, c_file = None, c_read = False, c_param = p\<rparr>) =
    config_spec os files (concat (map item_opts its)) (False, p)"
proof -
  let ?s = "\<lparr>c_argv = ga, c_file = None, c_read = False, c_param = p\<rparr>"
  have "at_word go (concat (map (item_args go) its)) ga"
    using assms(2) by (auto simp: tgetopt_argv_init_def at_word_def gos_zero_def GOS_OK_def)
  from run_items [OF table_ok_go assms(1) this] obtain ga' where
    "opt_run (length (concat (map item_opts its)) + 1) (c_argv ?s) = Ret (concat (map item_opts its), ga')"
    "tgetopt_errno ga' = GOS_END_OF_OPTIONS" by (auto simp: tgetopt_errno_def)
  from config_loop_spec [OF this _ assms(3)] show ?thesis by simp
qed

text \<open>The whole analysis from the meaning of the command line.\<close>

lemma config_from_spec:
  assumes "list_all (item_ok go) its" "concat (map (item_args go) its) \<noteq> []"
    "\<And>i f. (i, Some f) \<in> set (concat (map item_opts its)) \<Longrightarrow> opt_number i = Ret GO_CONFIGFILE \<Longrightarrow> file_holds os w f (files f)"
    "config_spec os files (concat (map item_opts its)) (False, param_init getenv) = Ret (r, q)"
  shows "\<exists>N. \<forall>n\<ge>N. config n os getenv (prog # concat (map (item_args go) its)) w =
    bindO (config_check r q) (\<lambda>_. config_finish getenv q)"
proof -
  obtain ga where ga: "tgetopt_argv_init True (prog # concat (map (item_args go) its)) go = Some ga"
    by (simp add: tgetopt_argv_init_def)
  have "\<exists>N. \<forall>n\<ge>N. cfg_result (config_loop n os w \<lparr>c_argv = ga, c_file = None, c_read = False, c_param = param_init getenv\<rparr>) =
      config_spec os files (concat (map item_opts its)) (False, param_init getenv)"
    by (rule argv_config_loop [OF assms(1) ga]) (rule assms(3))
  then obtain N where N: "\<And>n. n \<ge> N \<Longrightarrow>
      cfg_result (config_loop n os w \<lparr>c_argv = ga, c_file = None, c_read = False, c_param = param_init getenv\<rparr>) = Ret (r, q)"
    unfolding assms(4) by blast
  have "config n os getenv (prog # concat (map (item_args go) its)) w = bindO (config_check r q) (\<lambda>_. config_finish getenv q)"
    if "n \<ge> N" for n
    using N [OF that] ga assms(2) by (auto simp: config_def cfg_result_def Suc_le_eq)
  then show ?thesis by blast
qed

text \<open>What is left of a configuration that is accepted.\<close>

lemma config_shape:
  assumes "config n os getenv argv w = Ret p"
  obtains q v v' where "param_ok q" "p_host q \<noteq> None" "p_localdir q \<noteq> None" "p_remotedir q \<noteq> None"
    "p = (config_defaults getenv q)\<lparr>p_logfile := v, p_lockfile := v'\<rparr>"
proof -
  obtain ga s where s: "config_loop n os w \<lparr>c_argv = ga, c_file = None, c_read = False, c_param = param_init getenv\<rparr> = Ret s"
    "config_check (c_read s) (c_param s) = Ret ()"
    and p: "\<exists>v v'. p = (config_defaults getenv (c_param s))\<lparr>p_logfile := v, p_lockfile := v'\<rparr>"
    using assms by (auto simp: config_def config_finish_def Let_def split: if_splits option.splits)
  have "param_ok (param_init getenv)"
    by (simp add: param_ok_def param_init_def param_zero_def num_ok_def flag_ok_def family_ok_def)
  then have "param_ok (c_param s)" using config_loop_ok [OF _ s(1)] by simp
  moreover have "p_host (c_param s) \<noteq> None" "p_localdir (c_param s) \<noteq> None" "p_remotedir (c_param s) \<noteq> None"
    using s(2) by (auto simp: config_check_def require_def split: if_splits)
  ultimately show thesis using that p by blast
qed

text \<open>A command line for the examples, and what it sets.\<close>

definition sample_argv :: "string list" where
  "sample_argv = [''spegla'', ''--url=ftp://h/d'', ''--lockfile=lock'']"

definition sample_param :: param where
  "sample_param = config_defaults (\<lambda>_. None) (param_zero\<lparr>p_host := Some ''h'', p_remotedir := Some ''/d'',
     p_localdir := Some ''.'', p_lockfile := Some ''lock''\<rparr>)"

lemma sample_config: "\<exists>n. config n os (\<lambda>_. None) sample_argv w = Ret sample_param"
proof -
  let ?its = "[Long 27 (Some ''ftp://h/d''), Long 12 (Some ''lock'')]"
  let ?p = "param_zero\<lparr>p_host := Some ''h'', p_remotedir := Some ''/d'', p_localdir := Some ''.'', p_lockfile := Some ''lock''\<rparr>"
  have ok: "list_all (item_ok go) ?its" by (simp add: takes_arg_def go_def go_entry_def NUL_def)
  have spec: "config_spec os (\<lambda>_. []) (concat (map item_opts ?its)) (False, param_init (\<lambda>_. None)) = Ret (False, ?p)"
    by (simp add: opt_number_def go_def go_entry_def go_nums_def with_arg_def set_param_str_def set_param_url_def
        strncasecmp_eq_def Let_def url_user_def url_host_def split_at_def param_init_def param_zero_def default_str_def)
  have argv: "''spegla'' # concat (map (item_args go) ?its) = sample_argv"
    by (simp add: go_def go_entry_def sample_argv_def)
  have nofile: "opt_number 27 \<noteq> Ret GO_CONFIGFILE" "opt_number 12 \<noteq> Ret GO_CONFIGFILE"
    by (simp_all add: opt_number_def go_def go_entry_def go_nums_def)
  have ne: "concat (map (item_args go) ?its) \<noteq> []" by simp
  obtain n where "config n os (\<lambda>_. None) sample_argv w = bindO (config_check False ?p) (\<lambda>_. config_finish (\<lambda>_. None) ?p)"
    using config_from_spec [OF ok ne _ spec, of w "''spegla''"] nofile unfolding argv by auto
  then have "config n os (\<lambda>_. None) sample_argv w = Ret sample_param"
    by (simp add: config_check_def require_def config_finish_def config_defaults_def expand_with_str_def param_zero_def
        Let_def sample_param_def)
  then show ?thesis by blast
qed

section \<open>Properties\<close>

text \<open>
  C6. The option loop gives every command line its meaning: the options in their order, with the
  settings of the section in place of each \<open>--configfile\<close>. It ends, whatever the options do, and an
  invalid option ends the program as the meaning says.
\<close>

theorem config_loop_meaning:
  assumes "list_all (item_ok go) its" "tgetopt_argv_init True (prog # concat (map (item_args go) its)) go = Some ga"
    "\<forall>(i, a) \<in> set (concat (map item_opts its)). opt_number i = Ret GO_CONFIGFILE \<longrightarrow>
       (\<forall>f. a = Some f \<longrightarrow> file_holds os w f (files f))"
  shows "\<exists>N. \<forall>n\<ge>N. cfg_result (config_loop n os w \<lparr>c_argv = ga, c_file = None, c_read = False, c_param = p\<rparr>) =
    config_spec os files (concat (map item_opts its)) (False, p)"
proof (rule argv_config_loop [OF assms(1,2)])
  fix i f assume "(i, Some f) \<in> set (concat (map item_opts its))" "opt_number i = Ret GO_CONFIGFILE"
  then show "file_holds os w f (files f)" using assms(3) by blast
qed

definition sample_conf_rows :: "row list" where
  "sample_conf_rows = [Header ''gnu'', Setting ''version'' ''1.1'' None, Setting ''host'' ''a.org'' None,
     Header ''bsd'', Setting ''host'' ''b.org'' None]"

definition sample_conf_os :: "fs os_ops" where
  "sample_conf_os = fs_os\<lparr>os_lstat := \<lambda>w p. Ret \<lparr>st_mode = S_IFREG, st_mtime = 0, st_size = 0\<rparr>,
     os_fcontent := \<lambda>w p. Some (file_text sample_conf_rows)\<rparr>"

lemma sample_conf_rows_ok: "list_all conf_row sample_conf_rows"
  by (simp add: sample_conf_rows_def conf_row_def is_word_def word_char_def NUL_def in_set_def white_space_def
      delimiters_def line_ok_def MAX_STR_def go_def go_entry_def)

theorem config_loop_meaning_witness:
  "\<exists>ga N. tgetopt_argv_init True [''spegla'', ''--section=gnu'', ''--configfile=conf'', ''-lmirror''] go = Some ga \<and>
    (\<forall>n\<ge>N. cfg_result (config_loop n sample_conf_os [] \<lparr>c_argv = ga, c_file = None, c_read = False, c_param = param_zero\<rparr>) =
      Ret (True, param_zero\<lparr>p_section := Some ''gnu'', p_version := Some ''1.1'', p_host := Some ''a.org'',
        p_localdir := Some ''mirror''\<rparr>))"
proof -
  let ?its = "[Long 1 (Some ''gnu''), Long 0 (Some ''conf''), Joined 2 ''mirror'']"
  have "list_all (item_ok go) ?its" by (simp add: takes_arg_def has_letter_def go_def go_entry_def NUL_def)
  moreover obtain ga where ga: "tgetopt_argv_init True (''spegla'' # concat (map (item_args go) ?its)) go = Some ga"
    by (simp add: tgetopt_argv_init_def)
  moreover have "file_holds sample_conf_os [] f sample_conf_rows" for f
    using sample_conf_rows_ok by (simp add: file_holds_def sample_conf_os_def S_IFREG_def S_IFMT_def)
  ultimately obtain N where "\<forall>n\<ge>N. cfg_result (config_loop n sample_conf_os []
      \<lparr>c_argv = ga, c_file = None, c_read = False, c_param = param_zero\<rparr>) =
    config_spec sample_conf_os (\<lambda>_. sample_conf_rows) (concat (map item_opts ?its)) (False, param_zero)"
    using config_loop_meaning [of ?its "''spegla''" ga sample_conf_os "[]" "\<lambda>_. sample_conf_rows" param_zero] by auto
  moreover have "config_spec sample_conf_os (\<lambda>_. sample_conf_rows) (concat (map item_opts ?its)) (False, param_zero) =
      Ret (True, param_zero\<lparr>p_section := Some ''gnu'', p_version := Some ''1.1'', p_host := Some ''a.org'',
        p_localdir := Some ''mirror''\<rparr>)"
    by (simp add: opt_number_def go_def go_entry_def go_nums_def with_arg_def set_param_str_def section_of_def
        sample_conf_rows_def set_from_file_def set_version_def SPEGLA_VERSION_def param_zero_def)
  moreover have "''spegla'' # concat (map (item_args go) ?its) = [''spegla'', ''--section=gnu'', ''--configfile=conf'', ''-lmirror'']"
    by (simp add: go_def go_entry_def)
  ultimately show ?thesis using ga by metis
qed


lemma dec_2121: "dec 2121 = ''2121''"
  by code_simp


text \<open>
  C32. \<open>expand_with_str\<close> replaces every \<open>%s\<close> by the string and every \<open>%%\<close> by a percent sign when the
  result fits the buffer of \<open>MAX_LINE\<close> bytes; when it does not, it writes behind the buffer.
\<close>

theorem expand_with_str_exact:
  assumes "NUL \<notin> set p" "NUL \<notin> set str"
  shows "expand_with_str (Some p) str =
    (if CHR ''%'' \<notin> set p then Ret (Some p)
     else if length (subst_pct str p) < MAX_LINE then Ret (Some (subst_pct str p)) else Undef)"
proof (cases "CHR ''%'' \<in> set p \<and> length (subst_pct str p) < MAX_LINE")
  case True
  let ?x = "subst_pct str p"
  obtain rest where r: "expand_loop str p 0 (arr_alloc MAX_LINE) = Ret (length ?x, map Some ?x @ rest)"
    "length (map Some ?x @ rest) = MAX_LINE"
    using expand_loop_fits [of "[]" "arr_alloc MAX_LINE" str p] True by auto
  obtain b rest' where rest: "rest = b # rest'" using r(2) True by (cases rest) auto
  have "NUL \<notin> set ?x" using set_subst_pct [of str p] assms by auto
  then have "arr_cstr (map Some ?x @ Some NUL # rest') = Ret ?x" by (rule arr_cstr_front)
  moreover have "arr_set (map Some ?x @ rest) (length ?x) NUL = Ret (map Some ?x @ Some NUL # rest')"
    by (simp add: rest list_update_append)
  ultimately show ?thesis using True r(1) by (simp add: expand_with_str_def del: arr_set_Ret)
next
  case False
  then show ?thesis
    using expand_loop_full [of "arr_alloc MAX_LINE" 0 str p] by (auto simp: expand_with_str_def arr_set_def)
qed

theorem expand_with_str_exact_witness:
  "expand_with_str (Some ''/var/log/%s.%%'') ''gnu'' = Ret (Some ''/var/log/gnu.%'') \<and>
   expand_with_str (Some ''%s'') (replicate 1024 (CHR ''x'')) = Undef"
  using expand_with_str_exact [of "''/var/log/%s.%%''" "''gnu''"] expand_with_str_exact [of "''%s''" "replicate 1024 (CHR ''x'')"]
  by (simp add: NUL_def MAX_LINE_def)

text \<open>
  C7. A configuration that is accepted is complete and in range: the host and both directories are
  given, every other parameter has a value, numbers are between 0 and \<open>INT_MAX\<close>, switches are 0 or 1
  and the expressions of the skip and treat-as-directory lists are compiled. This holds for
  every command line and every configuration file.
\<close>

theorem config_complete:
  assumes "config n os getenv argv w = Ret p"
  shows "param_ok (p\<lparr>p_version := None\<rparr>) \<and> p_host p \<noteq> None \<and> p_localdir p \<noteq> None \<and> p_remotedir p \<noteq> None \<and>
    list_all (\<lambda>v. v \<noteq> None) [p_username p, p_password p, p_section p, p_version p, p_tempdir p] \<and>
    list_all (\<lambda>v. v \<noteq> None) [p_timeout p, p_retries p, p_port p, p_family p, p_passive p, p_retrytime p, p_showconf p,
      p_fastsync p, p_maxdelete p, p_loglevel p, p_warnoverrides p, p_minfree p, p_dodelete p]"
proof -
  obtain q v v' where q: "param_ok q" "p_host q \<noteq> None" "p_localdir q \<noteq> None" "p_remotedir q \<noteq> None"
    "p = (config_defaults getenv q)\<lparr>p_logfile := v, p_lockfile := v'\<rparr>"
    by (rule config_shape [OF assms])
  have "param_ok ((config_defaults getenv q)\<lparr>p_version := None\<rparr>)"
    using q(1) unfolding param_ok_def config_defaults_def by (simp add: default_num_ok default_flag_ok default_family_ok)
  then have "param_ok (p\<lparr>p_version := None\<rparr>)" unfolding q(5) by (simp add: param_ok_def)
  moreover have "default_str u x \<noteq> None" "default_num i k \<noteq> None" "default_family i k \<noteq> None" for u x i k
    by (simp_all add: default_str_def default_num_def default_family_def)
  ultimately show ?thesis using q(2-4) unfolding q(5) by (simp add: config_defaults_def del: not_None_eq)
qed

theorem config_complete_witness:
  "\<exists>n. config n sample_conf_os (\<lambda>_. None) sample_argv [] = Ret sample_param \<and> p_host sample_param = Some ''h'' \<and>
     p_remotedir sample_param = Some ''/d'' \<and> p_localdir sample_param = Some ''.'' \<and>
     p_password sample_param = Some ''default@'' \<and> param_ok (sample_param\<lparr>p_version := None\<rparr>)"
proof -
  obtain n where n: "config n sample_conf_os (\<lambda>_. None) sample_argv [] = Ret sample_param"
    by (rule exE [OF sample_config])
  have "p_host sample_param = Some ''h'' \<and> p_remotedir sample_param = Some ''/d'' \<and> p_localdir sample_param = Some ''.'' \<and>
      p_password sample_param = Some ''default@''"
    by (simp add: sample_param_def config_defaults_def param_zero_def default_str_def anonpass_def MAX_LINE_def)
  then show ?thesis using config_complete [OF n] n by blast
qed

end
