(* ===== verification/Sync.thy ===== *)
theory Sync
  imports Spf_File Jftp Heap_List Fifo
begin

unbundle bit_operations_syntax

text \<open>
  The mirroring engine of spegla.c (lines 271-706): the two directory listings as heaps, the
  download of a file with its retries, the merge of the listings that decides what to fetch,
  remove or leave, and the descent into the directories. Memory is taken to be available
  here; the containers' own theories cover failing allocations.
\<close>

section \<open>Listings\<close>

text \<open>What the functions below get from outside; \<open>e_fuel\<close> is the fuel of \<open>rm_rf\<close> and of the FTP client.\<close>

record 'w env =
  e_os :: "'w os_ops"
  e_nt :: "'w net_ops"
  e_clk :: clock
  e_fuel :: nat

text \<open>
  The removal of a final newline and carriage return. The second look at \<open>buf[len - 1]\<close> is in
  front of the buffer when only a newline was read.
\<close>

definition strip_eol :: "string \<Rightarrow> string outcome" where
  "strip_eol buf =
     (if buf = [] then Undef
      else let buf = (if last buf = CHR 0x0A then butlast buf else buf) in
        if buf = [] then Undef
        else Ret (if last buf = CHR 0x0D then butlast buf else buf))"

text \<open>A file of a listing after the treat-as-directory and skip lists; \<open>None\<close> if it is skipped.\<close>

definition list_filter :: "'w env \<Rightarrow> 'w st \<Rightarrow> sp_file \<Rightarrow> sp_file option outcome" where
  "list_filter e s spf =
     bindO (spf_is_a_treatasdir (e_os e) s spf) (\<lambda>b.
       let spf = (if b then spf\<lparr>spf_type := DIRECTORY, spf_opt := spf_opt spf OR SPFO_ISLINK\<rparr> else spf) in
       bindO (spf_is_a_skip (e_os e) s spf) (\<lambda>b. Ret (if b then None else Some spf)))"

text \<open>One row of the remote listing; \<open>None\<close> for a row that is left out.\<close>

definition remote_entry :: "'w env \<Rightarrow> 'w st \<Rightarrow> string \<Rightarrow> sp_file option outcome" where
  "remote_entry e s row =
     bindO (strip_eol row) (\<lambda>buf.
       if buf = [] then Ret None
       else case parse_row (e_clk e) True buf of
         Ret spf \<Rightarrow> if spf_name spf = ''..'' \<or> spf_name spf = ''.'' then Ret None else list_filter e s spf
       | Err _ \<Rightarrow> Ret None
       | Exit n \<Rightarrow> Exit n
       | Undef \<Rightarrow> Undef)"

text \<open>The result of a push is not looked at; a failed push would leave the heap as it was.\<close>

definition push_entry :: "sp_file heap_list \<Rightarrow> sp_file option \<Rightarrow> sp_file heap_list outcome" where
  "push_entry h x = (case x of None \<Rightarrow> Ret h | Some spf \<Rightarrow> heap_push True h spf)"

fun build_remote_loop :: "nat \<Rightarrow> 'w env \<Rightarrow> 'w st \<Rightarrow> string \<Rightarrow> string \<Rightarrow> sp_file heap_list \<Rightarrow> sp_file heap_list outcome" where
  "build_remote_loop 0 e s row f h = Undef"
| "build_remote_loop (Suc n) e s row f h =
     bindO (remote_entry e s row) (\<lambda>x. bindO (push_entry h x) (\<lambda>h.
       case fgets PATH_MAX f of None \<Rightarrow> Ret h | Some (row, f) \<Rightarrow> build_remote_loop n e s row f h))"

text \<open>\<open>f\<close> is what the listing holds; the result \<open>Err\<close> is \<open>NULL\<close>. Every row takes a byte at least.\<close>

definition build_remote_dir :: "'w env \<Rightarrow> 'w st \<Rightarrow> string \<Rightarrow> sp_file heap_list outcome" where
  "build_remote_dir e s f =
     (case fgets PATH_MAX f of None \<Rightarrow> Err EOTHER
      | Some (row, f') \<Rightarrow>
        bindO (if take 4 (drop 1 row) = ''otal''
               then (case fgets PATH_MAX f' of None \<Rightarrow> Err EOTHER | Some rf \<Rightarrow> Ret rf) else Ret (row, f'))
          (\<lambda>(row, f'). bindO (heap_init True True True spf_push_comp) (\<lambda>h.
            build_remote_loop (Suc (length f')) e s row f' h)))"

definition local_entry :: "'w env \<Rightarrow> 'w st \<Rightarrow> string \<Rightarrow> sp_file option outcome" where
  "local_entry e s d_name =
     (if d_name = ''..'' \<or> d_name = ''.'' then Ret None
      else case spf_stat_init (e_os e) True d_name s of
        Ret spf \<Rightarrow> list_filter e s spf
      | Err _ \<Rightarrow> Ret None
      | Exit n \<Rightarrow> Exit n
      | Undef \<Rightarrow> Undef)"

fun build_local_loop :: "'w env \<Rightarrow> 'w st \<Rightarrow> string list \<Rightarrow> sp_file heap_list \<Rightarrow> sp_file heap_list outcome" where
  "build_local_loop e s [] h = Ret h"
| "build_local_loop e s (d # ds) h =
     bindO (local_entry e s d) (\<lambda>x. bindO (push_entry h x) (\<lambda>h. build_local_loop e s ds h))"

definition build_local_dir :: "'w env \<Rightarrow> 'w st \<Rightarrow> sp_file heap_list outcome" where
  "build_local_dir e s =
     (case os_readdir (e_os e) (world s) (cur_dir s) of
        Ret ds \<Rightarrow> bindO (heap_init True True True spf_push_comp) (\<lambda>h. build_local_loop e s ds h)
      | _ \<Rightarrow> Err EOTHER)"

section \<open>Downloading a file\<close>

text \<open>
  The loop that logs in again after a broken connection or a timeout. A \<open>NULL\<close> in a log message
  cannot occur here. The loop ends because every round uses up a retry.
\<close>

fun retry_login ::
  "nat \<Rightarrow> 'w env \<Rightarrow> sp_file \<Rightarrow> string \<Rightarrow> ftp_con \<Rightarrow> nat \<Rightarrow> bool \<Rightarrow> 'w st \<Rightarrow> ('w st, ftp_con \<times> nat \<times> bool) run" where
  "retry_login 0 e spf local_file c sz erased s = Wrong"
| "retry_login (Suc k) e spf local_file c sz erased s =
     (let retries = ftp_retries c; c = c\<lparr>ftp_retries := retries - 1\<rparr> in
      if retries < 0
      then bindR (spf_rm (e_fuel e) (e_os e) spf s) (\<lambda>_ s.
        bindR (spf_restore_name (e_os e) spf s) (\<lambda>_ s. Quit 1 s))
      else bindR
        (if \<not> erased
         then let sz = (case os_stat (e_os e) (world s) local_file of Ret sb \<Rightarrow> nat (st_size sb) | _ \<Rightarrow> 0) in
           if sz = 0 then bindR (spf_rm (e_fuel e) (e_os e) spf s) (\<lambda>_ s. Done (sz, True) s)
           else Done (sz, False) s
         else Done (sz, True) s)
        (\<lambda>(sz, erased) s.
          let w = os_sleep (e_os e) (sp_retrytime s) (world s) in
          case ftp_relogin (e_fuel e) (e_nt e) True c w of None \<Rightarrow> Wrong
          | Some (res, c, w) \<Rightarrow>
            if res < 0 then retry_login k e spf local_file c sz erased (s\<lparr>world := w\<rparr>)
            else Done (c, sz, erased) (s\<lparr>world := w\<rparr>)))"

text \<open>The part of \<open>get_ftp_file\<close> from the label \<open>restart\<close> on.\<close>

fun get_loop ::
  "nat \<Rightarrow> 'w env \<Rightarrow> sp_file \<Rightarrow> string \<Rightarrow> string \<Rightarrow> ftp_con \<Rightarrow> nat \<Rightarrow> bool \<Rightarrow> bool \<Rightarrow> 'w st \<Rightarrow> ('w st, ftp_con) run" where
  "get_loop 0 e spf local_file remote_file c sz rmed_orig erased s = Wrong"
| "get_loop (Suc k) e spf local_file remote_file c sz rmed_orig erased s =
     (case ftp_get (e_fuel e) (e_nt e) c local_file remote_file sz (world s) of None \<Rightarrow> Wrong
      | Some (res, c, w) \<Rightarrow>
        let s = s\<lparr>world := w\<rparr> in
        if res < 0
        then if ftp_resp c = JFTP_BROKEN \<or> ftp_resp c = JFTP_TIMEOUT
          then bindR (retry_login (Suc k) e spf local_file c sz erased s) (\<lambda>(c, sz, erased) s.
            get_loop k e spf local_file remote_file c sz rmed_orig erased s)
          else if ftp_resp c = JFTP_ERR
          then bindR (spf_rm (e_fuel e) (e_os e) spf s) (\<lambda>_ s.
            bindR (spf_restore_name (e_os e) spf s) (\<lambda>_ s. Done c s))
          else if ftp_resp c = JFTP_WRITEERR
          then if \<not> rmed_orig
            then let w = os_open_trunc (e_os e) remote_file (world s);
                     (_, w) = os_unlink (e_os e) remote_file w in
              get_loop k e spf local_file remote_file c sz True erased (s\<lparr>world := w\<rparr>)
            else Quit 1 s
          else Quit 1 s
        else bindR (spf_chmod (e_os e) spf 0 s) (\<lambda>_ s.
          bindR (spf_new_time (e_os e) spf s) (\<lambda>_ s.
            bindR (spf_restore_name (e_os e) spf s) (\<lambda>_ s. Done c s))))"

text \<open>
  The fuel of the loops: a restart after a broken connection uses up a retry, and there is one
  restart after a write error.
\<close>

definition get_fuel :: "ftp_con \<Rightarrow> nat" where
  "get_fuel c = nat (ftp_retries c + 1) + 3"

definition get_ftp_file :: "'w env \<Rightarrow> ftp_con \<Rightarrow> sp_file \<Rightarrow> 'w st \<Rightarrow> ('w st, ftp_con) run" where
  "get_ftp_file e c spf s =
     (case spf_full_name2 s spf PATH_MAX of None \<Rightarrow> Done c s
      | Some remote_file \<Rightarrow>
        bindR (spf_use_tmp_name (e_os e) True True spf s) (\<lambda>x s.
          case x of None \<Rightarrow> Done c s
          | Some spf \<Rightarrow>
            (case spf_full_name2 s spf PATH_MAX of None \<Rightarrow> Done c s
             | Some local_file \<Rightarrow> get_loop (get_fuel c) e spf local_file remote_file c 0 False False s)))"

section \<open>The merge of two listings\<close>

definition liftO :: "'a outcome \<Rightarrow> 's \<Rightarrow> ('s, 'a) run" where
  "liftO x s = (case x of Ret y \<Rightarrow> Done y s | Exit n \<Rightarrow> Quit n s | _ \<Rightarrow> Wrong)"

definition sp_get_file ::
  "'w env \<Rightarrow> ftp_con \<Rightarrow> sp_file \<Rightarrow> sp_file fifo_list \<Rightarrow> 'w st \<Rightarrow> ('w st, ftp_con \<times> sp_file fifo_list) run" where
  "sp_get_file e c spf fifo s =
     (case spf_type spf of
        DIRECTORY \<Rightarrow> bindR (liftO (bindO (spf_clone True spf) (fifo_push True fifo)) s) (\<lambda>fifo s. Done (c, fifo) s)
      | PLAINFILE \<Rightarrow> bindR (get_ftp_file e c spf s) (\<lambda>c s. Done (c, fifo) s)
      | SYMLINK \<Rightarrow> bindR (spf_symlink_op (e_os e) spf s) (\<lambda>_ s. Done (c, fifo) s)
      | UNKNOWN \<Rightarrow> (if spf_full_name s spf = None then Wrong else Done (c, fifo) s))"

text \<open>The first element of a listing, \<open>None\<close> at its end.\<close>

definition peek_spf :: "sp_file heap_list \<Rightarrow> 's \<Rightarrow> ('s, sp_file option) run" where
  "peek_spf h s = (case heap_peek (Some h) of Ret x \<Rightarrow> Done (Some x) s | Err _ \<Rightarrow> Done None s | _ \<Rightarrow> Wrong)"

definition pop_spf :: "sp_file heap_list \<Rightarrow> 's \<Rightarrow> ('s, sp_file \<times> sp_file heap_list) run" where
  "pop_spf h s = (case heap_pop True (Some h) of Ret x \<Rightarrow> Done x s | _ \<Rightarrow> Wrong)"

text \<open>
  Two files of the same name and type: what is done before both are popped. For two files of
  unknown type the code formats the name of the file it popped last, which is freed.
\<close>

definition sync_same ::
  "'w env \<Rightarrow> ftp_con \<Rightarrow> sp_file \<Rightarrow> sp_file \<Rightarrow> sp_file fifo_list \<Rightarrow> 'w st \<Rightarrow> ('w st, ftp_con \<times> sp_file fifo_list) run" where
  "sync_same e c spf_l spf_r dirs s =
     (case spf_type spf_r of
        DIRECTORY \<Rightarrow> sp_get_file e c (spf_r\<lparr>spf_opt := spf_opt spf_r OR SPFO_DONT_CREATE\<rparr>) dirs s
      | PLAINFILE \<Rightarrow>
        if spf_time_cmp spf_r spf_l \<noteq> 0 \<or> spf_size spf_r \<noteq> spf_size spf_l then sp_get_file e c spf_r dirs s
        else if spf_mode spf_r \<noteq> spf_mode spf_l
        then bindR (spf_chmod (e_os e) (spf_r\<lparr>spf_opt := spf_opt spf_r OR SPFO_LOG_CHMOD\<rparr>) 0 s) (\<lambda>_ s. Done (c, dirs) s)
        else Done (c, dirs) s
      | SYMLINK \<Rightarrow>
        (case (spf_symlink spf_r, spf_symlink spf_l) of
           (Some a, Some b) \<Rightarrow>
             if strcmp a b \<noteq> 0
             then bindR (spf_rm (e_fuel e) (e_os e) spf_r s) (\<lambda>res s.
               if 0 \<le> res then sp_get_file e c spf_r dirs s else Done (c, dirs) s)
             else Done (c, dirs) s
         | _ \<Rightarrow> Wrong)
      | UNKNOWN \<Rightarrow> Wrong)"

text \<open>The \<open>while\<close> loop of \<open>sp_sync_dir\<close>; each round pops at least one file.\<close>

fun sync_loop ::
  "nat \<Rightarrow> 'w env \<Rightarrow> ftp_con \<Rightarrow> sp_file heap_list \<Rightarrow> sp_file heap_list \<Rightarrow> sp_file fifo_list \<Rightarrow> 'w st \<Rightarrow>
   ('w st, ftp_con \<times> sp_file fifo_list) run" where
  "sync_loop 0 e c l r dirs s = Wrong"
| "sync_loop (Suc n) e c l r dirs s =
     bindR (peek_spf l s) (\<lambda>pl s. bindR (peek_spf r s) (\<lambda>pr s.
       case (pl, pr) of
         (None, None) \<Rightarrow> Done (c, dirs) s
       | (None, Some _) \<Rightarrow>
           bindR (pop_spf r s) (\<lambda>(spf, r) s. bindR (sp_get_file e c spf dirs s) (\<lambda>(c, dirs) s.
             sync_loop n e c l r dirs s))
       | (Some _, None) \<Rightarrow>
           bindR (pop_spf l s) (\<lambda>(spf, l) s. bindR (spf_rm (e_fuel e) (e_os e) spf s) (\<lambda>_ s.
             sync_loop n e c l r dirs s))
       | (Some spf_l, Some spf_r) \<Rightarrow>
           bindR (liftO (spf_name_cmp (Some spf_l) (Some spf_r)) s) (\<lambda>cmp s.
             if 0 < cmp
             then bindR (pop_spf r s) (\<lambda>(spf, r) s. bindR (sp_get_file e c spf dirs s) (\<lambda>(c, dirs) s.
               sync_loop n e c l r dirs s))
             else if cmp < 0
             then bindR (pop_spf l s) (\<lambda>(spf, l) s. bindR (spf_rm (e_fuel e) (e_os e) spf s) (\<lambda>_ s.
               sync_loop n e c l r dirs s))
             else if spf_type spf_r \<noteq> spf_type spf_l
             then bindR (pop_spf l s) (\<lambda>(spf, l) s. bindR (spf_rm (e_fuel e) (e_os e) spf s) (\<lambda>_ s.
               bindR (pop_spf r s) (\<lambda>(spf, r) s. bindR (sp_get_file e c spf dirs s) (\<lambda>(c, dirs) s.
                 sync_loop n e c l r dirs s))))
             else bindR (sync_same e c spf_l spf_r dirs s) (\<lambda>(c, dirs) s.
               bindR (pop_spf l s) (\<lambda>(_, l) s. bindR (pop_spf r s) (\<lambda>(_, r) s.
                 sync_loop n e c l r dirs s))))))"

section \<open>The descent\<close>

text \<open>The loop that logs in again while a directory is listed.\<close>

fun relogin_dir :: "nat \<Rightarrow> 'w env \<Rightarrow> ftp_con \<Rightarrow> 'w st \<Rightarrow> ('w st, ftp_con) run" where
  "relogin_dir 0 e c s = Wrong"
| "relogin_dir (Suc k) e c s =
     (let retries = ftp_retries c; c = c\<lparr>ftp_retries := retries - 1\<rparr> in
      if retries < 0 then Quit 1 s
      else let w = os_sleep (e_os e) (sp_retrytime s) (world s) in
        case ftp_relogin (e_fuel e) (e_nt e) True c w of None \<Rightarrow> Wrong
        | Some (res, c, w) \<Rightarrow>
          if res < 0 then relogin_dir k e c (s\<lparr>world := w\<rparr>) else Done c (s\<lparr>world := w\<rparr>))"

text \<open>The listing of \<open>cur_dir\<close> into a temporary file, \<open>None\<close> if the server refuses.\<close>

fun list_dir :: "nat \<Rightarrow> 'w env \<Rightarrow> ftp_con \<Rightarrow> 'w st \<Rightarrow> ('w st, string option \<times> ftp_con) run" where
  "list_dir 0 e c s = Wrong"
| "list_dir (Suc k) e c s =
     (case ftp_dir (e_fuel e) (e_nt e) True c (cur_dir s) (world s) of None \<Rightarrow> Wrong
      | Some (temp_file, c, w) \<Rightarrow>
        (let s = s\<lparr>world := w\<rparr> in
        (case temp_file of Some t \<Rightarrow> Done (Some t, c) s
        | None \<Rightarrow>
          if ftp_resp c = JFTP_BROKEN \<or> ftp_resp c = JFTP_TIMEOUT
          then bindR (relogin_dir (Suc k) e c s) (\<lambda>c s.
            if ftp_resp c = JFTP_ERR then Done (None, c) s else list_dir k e c s)
          else if ftp_resp c = JFTP_ERR then Done (None, c) s
          else Quit 1 s)))"

text \<open>The listing read from the temporary file, which is then removed. \<open>fclose (NULL)\<close> is undefined.\<close>

definition read_listing :: "'w env \<Rightarrow> string option \<Rightarrow> 'w st \<Rightarrow> ('w st, sp_file heap_list option) run" where
  "read_listing e temp_file s =
     (case temp_file of None \<Rightarrow> Done None s
      | Some t \<Rightarrow>
        (case os_fcontent (e_os e) (world s) t of None \<Rightarrow> Wrong
         | Some f \<Rightarrow>
           (let s' = s\<lparr>world := snd (os_unlink (e_os e) t (world s))\<rparr> in
            case build_remote_dir e s f of
              Ret h \<Rightarrow> Done (Some h) s'
            | Err _ \<Rightarrow> Done None s'
            | Exit n \<Rightarrow> Quit n s
            | Undef \<Rightarrow> Wrong)))"

text \<open>
  One directory of the queue; \<open>rec\<close> is \<open>sp_sync_dir\<close>. The result of \<open>cur_dir_cd\<close> is not looked at:
  where it fails, \<open>cur_dir\<close> stays.
\<close>

definition sync_subdir ::
  "(ftp_con \<Rightarrow> sp_file heap_list option \<Rightarrow> sp_file heap_list option \<Rightarrow> 'w st \<Rightarrow> ('w st, ftp_con) run) \<Rightarrow>
   'w env \<Rightarrow> ftp_con \<Rightarrow> sp_file \<Rightarrow> 'w st \<Rightarrow> ('w st, ftp_con) run" where
  "sync_subdir rec e c spf s =
     bindR (liftO (spf_is_a_skip (e_os e) s spf) s) (\<lambda>b s.
       if b then (if spf_full_name s spf = None then Wrong else Done c s)
       else bindR (spf_mkdir (e_os e) spf s) (\<lambda>err s.
         if err \<noteq> None \<and> err \<noteq> Some EEXIST then Done c s
         else bindR (spf_chmod (e_os e) spf S_IRWXU s) (\<lambda>res s.
           if res < 0 then Done c s
           else let s = (case cur_dir_cd (spf_name spf) (cur_dir s) of None \<Rightarrow> s | Some d \<Rightarrow> s\<lparr>cur_dir := d\<rparr>) in
             bindR (case build_local_dir e s of
                      Ret h \<Rightarrow> Done (Some h) s | Err _ \<Rightarrow> Done None s | Exit n \<Rightarrow> Quit n s | Undef \<Rightarrow> Wrong) (\<lambda>l s.
               bindR (list_dir (get_fuel c) e c s) (\<lambda>(temp_file, c) s.
                 bindR (read_listing e temp_file s) (\<lambda>r s.
                   bindR (if l \<noteq> None \<and> r \<noteq> None then rec c l r s else Done c s) (\<lambda>c s.
                     let s = s\<lparr>cur_dir := cur_dir_cdup (cur_dir s)\<rparr> in
                     bindR (spf_new_time (e_os e) spf s) (\<lambda>_ s.
                       bindR (spf_chmod (e_os e) spf 0 s) (\<lambda>_ s. Done c s)))))))))"

text \<open>The loop over the queue of directories.\<close>

fun dirs_loop ::
  "(ftp_con \<Rightarrow> sp_file heap_list option \<Rightarrow> sp_file heap_list option \<Rightarrow> 'w st \<Rightarrow> ('w st, ftp_con) run) \<Rightarrow>
   nat \<Rightarrow> 'w env \<Rightarrow> ftp_con \<Rightarrow> sp_file fifo_list \<Rightarrow> 'w st \<Rightarrow> ('w st, ftp_con) run" where
  "dirs_loop rec 0 e c dirs s = Wrong"
| "dirs_loop rec (Suc n) e c dirs s =
     (case fifo_pop True (Some dirs) of
        Ret (spf, dirs) \<Rightarrow> bindR (sync_subdir rec e c spf s) (\<lambda>c s. dirs_loop rec n e c dirs s)
      | Err _ \<Rightarrow> Done c s
      | _ \<Rightarrow> Wrong)"

text \<open>
  \<open>sp_sync_dir\<close> on two listings, which may be \<open>NULL\<close>; the fuel bounds the depth of the directories.
  The merge takes at most one round per file, and the queue holds at most the files of the
  remote listing.
\<close>

fun sp_sync_dir ::
  "nat \<Rightarrow> 'w env \<Rightarrow> ftp_con \<Rightarrow> sp_file heap_list option \<Rightarrow> sp_file heap_list option \<Rightarrow> 'w st \<Rightarrow>
   ('w st, ftp_con) run" where
  "sp_sync_dir 0 e c l r s = Wrong"
| "sp_sync_dir (Suc n) e c l r s =
     (case l of None \<Rightarrow> Done c s
      | Some l \<Rightarrow> (case r of None \<Rightarrow> Done c s
        | Some r \<Rightarrow>
          (let s = s\<lparr>sp_dirs_traversed := sp_dirs_traversed s + 1\<rparr> in
           bindR (liftO (fifo_init True True True) s) (\<lambda>dirs s.
             bindR (sync_loop (Suc (heap_count l + heap_count r)) e c l r dirs s) (\<lambda>(c, dirs) s.
               dirs_loop (sp_sync_dir n e) (Suc (fifo_count dirs)) e c dirs s)))))"

end
