(* ===== verification/Sync_Plan.thy ===== *)
theory Sync_Plan
  imports Sync
begin

text \<open>
  What the merge of two listings in \<open>sp_sync_dir\<close> (spegla.c, 463-598) does: it carries out a plan
  that is computed from the two ordered listings, and the plan holds exactly the actions the
  two sets of files call for.
\<close>

section \<open>The merge as a plan\<close>

text \<open>
  What the merge does, as a list of actions computed from the two listings in the order of
  their names: fetch a remote file, remove a local one, or compare two of the same name and type.
\<close>

datatype action = Get sp_file | Remove sp_file | Compare sp_file sp_file

fun sync_plan :: "sp_file list \<Rightarrow> sp_file list \<Rightarrow> action list" where
  "sync_plan [] R = map Get R"
| "sync_plan (l # L) [] = map Remove (l # L)"
| "sync_plan (l # L) (r # R) =
     (let cmp = strcmp (spf_name l) (spf_name r) in
      if 0 < cmp then Get r # sync_plan (l # L) R
      else if cmp < 0 then Remove l # sync_plan L (r # R)
      else if spf_type r \<noteq> spf_type l then Remove l # Get r # sync_plan L R
      else Compare l r # sync_plan L R)"

fun run_action :: "'w env \<Rightarrow> action \<Rightarrow> ftp_con \<times> sp_file fifo_list \<Rightarrow> 'w st \<Rightarrow> ('w st, ftp_con \<times> sp_file fifo_list) run" where
  "run_action e (Get f) (c, dirs) s = sp_get_file e c f dirs s"
| "run_action e (Remove f) (c, dirs) s = bindR (spf_rm (e_fuel e) (e_os e) f s) (\<lambda>_ s. Done (c, dirs) s)"
| "run_action e (Compare l r) (c, dirs) s = sync_same e c l r dirs s"

fun run_plan :: "'w env \<Rightarrow> action list \<Rightarrow> ftp_con \<times> sp_file fifo_list \<Rightarrow> 'w st \<Rightarrow> ('w st, ftp_con \<times> sp_file fifo_list) run" where
  "run_plan e [] x s = Done x s"
| "run_plan e (a # as) x s = bindR (run_action e a x s) (\<lambda>x s. run_plan e as x s)"

lemma bindR_assoc: "bindR (bindR m f) g = bindR m (\<lambda>x s. bindR (f x s) g)"
  by (cases m) auto

abbreviation holds_list :: "sp_file heap_list \<Rightarrow> sp_file list \<Rightarrow> bool" where
  "holds_list \<equiv> spf_order.heap.holds"

lemma peek_Nil: "holds_list h [] \<Longrightarrow> peek_spf h s = Done None s"
  using spf_order.heap.holds_Nil [of h] by (simp add: peek_spf_def)

lemma peek_Cons: "holds_list h (x # xs) \<Longrightarrow> peek_spf h s = Done (Some x) s"
  using spf_order.heap.holds_Cons [of h x xs] by (simp add: peek_spf_def)

lemma pop_Cons:
  assumes "holds_list h (x # xs)"
  obtains h' where "heap_pop True (Some h) = Ret (x, h')" "holds_list h' xs"
  using spf_order.heap.holds_Cons [OF assms, of True] by blast

lemma case_prod_run: "(\<And>c d s. f c d s = g (c, d) s) \<Longrightarrow> case_prod f = g"
  by (auto simp: fun_eq_iff)

text \<open>The loop on heaps that hold ordered lists carries out the plan of these lists.\<close>

lemma sync_loop_plan:
  fixes e :: "'w env"
  assumes "holds_list l L" "holds_list r R" "length L + length R < n"
  shows "sync_loop n e c l r dirs s = run_plan e (sync_plan L R) (c, dirs) s"
  using assms
proof (induction n arbitrary: L R c l r dirs s)
  case (Suc n)
  consider "L = []" "R = []" | y R' where "L = []" "R = y # R'" | x L' where "L = x # L'" "R = []"
    | x L' y R' where "L = x # L'" "R = y # R'"
    by (cases L; cases R) auto
  then show ?case
  proof cases
    case 1
    then show ?thesis using Suc.prems by (simp add: peek_Nil)
  next
    case (2 y R')
    obtain r' where r': "heap_pop True (Some r) = Ret (y, r')" "holds_list r' R'"
      using pop_Cons Suc.prems(2) 2 by blast
    have "sync_loop n e c' l r' dirs' s' = run_plan e (sync_plan [] R') (c', dirs') s'" for c' dirs' s'
      using Suc.IH [of l "[]" r' R'] Suc.prems 2 r'(2) by simp
    then have "case_prod (\<lambda>c' dirs'. sync_loop n e c' l r' dirs') = run_plan e (map Get R')"
      by (intro case_prod_run) simp
    then show ?thesis
      using Suc.prems 2 r' by (simp add: peek_Nil peek_Cons pop_spf_def)
  next
    case (3 x L')
    obtain l' where l': "heap_pop True (Some l) = Ret (x, l')" "holds_list l' L'"
      using pop_Cons Suc.prems(1) 3 by blast
    have "sync_loop n e c' l' r dirs' = run_plan e (sync_plan L' []) (c', dirs')" for c' dirs'
      using Suc.IH [of l' L' r "[]"] Suc.prems 3 l'(2) by (intro ext) simp
    moreover have "sync_plan L' [] = map Remove L'" by (cases L') simp_all
    ultimately show ?thesis
      using Suc.prems 3 l' by (simp add: peek_Nil peek_Cons pop_spf_def bindR_assoc)
  next
    case (4 x L' y R')
    obtain l' where l': "heap_pop True (Some l) = Ret (x, l')" "holds_list l' L'"
      using pop_Cons Suc.prems(1) 4 by blast
    obtain r' where r': "heap_pop True (Some r) = Ret (y, r')" "holds_list r' R'"
      using pop_Cons Suc.prems(2) 4 by blast
    have IH: "sync_loop n e c' l r' dirs' = run_plan e (sync_plan L R') (c', dirs')"
      "sync_loop n e c' l' r dirs' = run_plan e (sync_plan L' R) (c', dirs')"
      "sync_loop n e c' l' r' dirs' = run_plan e (sync_plan L' R') (c', dirs')" for c' dirs'
      using Suc.IH Suc.prems 4 l'(2) r'(2) by (intro ext; simp)+
    have get: "case_prod (\<lambda>c' dirs'. sync_loop n e c' l r' dirs') = run_plan e (sync_plan L R')"
      "case_prod (\<lambda>c' dirs'. sync_loop n e c' l' r' dirs') = run_plan e (sync_plan L' R')"
      by (intro case_prod_run; simp add: IH)+
    have both: "(\<lambda>(c, dirs) s. bindR (pop_spf l s) (\<lambda>(_, l) s. bindR (pop_spf r s) (\<lambda>(_, r) s.
        sync_loop n e c l r dirs s))) = run_plan e (sync_plan L' R')"
      using l'(1) r'(1) by (intro case_prod_run) (simp add: IH pop_spf_def)
    have peeks: "peek_spf l s = Done (Some x) s" "peek_spf r s = Done (Some y) s" for s :: "'w st"
      by (rule peek_Cons [OF Suc.prems(1) [unfolded 4]], rule peek_Cons [OF Suc.prems(2) [unfolded 4]])
    show ?thesis
      unfolding sync_loop.simps(2) peeks bindR.simps option.case prod.case both
      by (simp add: l'(1) r'(1) pop_spf_def spf_name_cmp_def liftO_def bindR_assoc 4 IH get [unfolded 4] Let_def)
  qed
qed simp

section \<open>What the plan contains\<close>

definition name_sorted :: "sp_file list \<Rightarrow> bool" where
  "name_sorted L \<longleftrightarrow> sorted_wrt (\<lambda>x y. strcmp (spf_name x) (spf_name y) < 0) L"

definition same_kind :: "sp_file \<Rightarrow> sp_file \<Rightarrow> bool" where
  "same_kind l r \<longleftrightarrow> spf_name l = spf_name r \<and> spf_type l = spf_type r"

lemma strcmp_less_trans: "strcmp s t < 0 \<Longrightarrow> strcmp t u < 0 \<Longrightarrow> strcmp s u < 0"
  using strcmp_trans [of s t u] strcmp_flip [of u s] strcmp_flip [of s t] strcmp_flip [of t u] strcmp_trans [of t u s]
  by (metis linorder_not_le neg_0_less_iff_less order.strict_implies_order strcmp_eq_0 strcmp_trans order_le_less)

lemma name_sorted_Cons [simp]:
  "name_sorted (x # L) \<longleftrightarrow> (\<forall>y \<in> set L. strcmp (spf_name x) (spf_name y) < 0) \<and> name_sorted L"
  by (simp add: name_sorted_def)

lemma name_sorted_Nil [simp]: "name_sorted []"
  by (simp add: name_sorted_def)

lemma smaller_not_in:
  assumes "name_sorted (x # L)" "strcmp n (spf_name x) < 0"
  shows "\<forall>y \<in> set (x # L). spf_name y \<noteq> n"
proof -
  have "strcmp n (spf_name y) < 0" if "y \<in> set (x # L)" for y
    using that assms strcmp_less_trans by auto
  then show ?thesis by force
qed

lemma head_not_in: "name_sorted (x # L) \<Longrightarrow> \<forall>y \<in> set L. spf_name y \<noteq> spf_name x"
  by force

text \<open>The actions that two listings call for, by membership.\<close>

definition due :: "sp_file set \<Rightarrow> sp_file set \<Rightarrow> action set" where
  "due L R = Get ` {r \<in> R. \<forall>l \<in> L. \<not> same_kind l r} \<union> Remove ` {l \<in> L. \<forall>r \<in> R. \<not> same_kind l r} \<union>
     {Compare l r | l r. l \<in> L \<and> r \<in> R \<and> same_kind l r}"

lemma due_Get: "\<forall>l \<in> L. \<not> same_kind l r \<Longrightarrow> due L (insert r R) = insert (Get r) (due L R)"
  by (auto simp: due_def)

lemma due_Remove: "\<forall>r \<in> R. \<not> same_kind l r \<Longrightarrow> due (insert l L) R = insert (Remove l) (due L R)"
  by (auto simp: due_def)

lemma due_Compare:
  "same_kind l r \<Longrightarrow> \<forall>x \<in> L. \<not> same_kind x r \<Longrightarrow> \<forall>y \<in> R. \<not> same_kind l y \<Longrightarrow>
   due (insert l L) (insert r R) = insert (Compare l r) (due L R)"
  by (auto simp: due_def)

lemma sync_plan_due: "name_sorted L \<Longrightarrow> name_sorted R \<Longrightarrow> set (sync_plan L R) = due (set L) (set R)"
proof (induction L R rule: sync_plan.induct)
  case (3 l L r R)
  let ?cmp = "strcmp (spf_name l) (spf_name r)"
  have flip: "strcmp (spf_name r) (spf_name l) = - ?cmp" by (rule strcmp_flip)
  consider "0 < ?cmp" | "?cmp < 0" | "spf_name l = spf_name r" "spf_type r \<noteq> spf_type l" | "same_kind l r"
    by (auto simp: same_kind_def) (metis linorder_neqE strcmp_eq_0)
  then show ?case
  proof cases
    case 1
    then have "\<forall>x \<in> set (l # L). \<not> same_kind x r"
      using smaller_not_in [of l L "spf_name r"] 3(5) flip by (auto simp: same_kind_def)
    then have "due (set (l # L)) (set (r # R)) = insert (Get r) (due (set (l # L)) (set R))"
      using due_Get [of "set (l # L)" r "set R"] by simp
    then show ?thesis using 1 3(1,5,6) by (simp add: Let_def)
  next
    case 2
    then have "\<forall>y \<in> set (r # R). \<not> same_kind l y"
      using smaller_not_in [of r R "spf_name l"] 3(6) by (auto simp: same_kind_def)
    then have "due (set (l # L)) (set (r # R)) = insert (Remove l) (due (set L) (set (r # R)))"
      using due_Remove [of "set (r # R)" l "set L"] by simp
    then show ?thesis using 2 3(2,5,6) by (simp add: Let_def)
  next
    case k: 3
    have nl: "\<forall>x \<in> set L. \<not> same_kind x r" and nr: "\<forall>y \<in> set (r # R). \<not> same_kind l y"
      using head_not_in [OF 3(5)] head_not_in [OF 3(6)] k by (auto simp: same_kind_def)
    have "due (set (l # L)) (set (r # R)) = insert (Remove l) (insert (Get r) (due (set L) (set R)))"
      using due_Remove [OF nr, of "set L"] due_Get [OF nl, of "set R"] by simp
    then show ?thesis using k 3(3,5,6) by (simp add: Let_def)
  next
    case 4
    have nl: "\<forall>x \<in> set L. \<not> same_kind x r" and nr: "\<forall>y \<in> set R. \<not> same_kind l y"
      using head_not_in [OF 3(5)] head_not_in [OF 3(6)] 4 by (auto simp: same_kind_def)
    have "due (set (l # L)) (set (r # R)) = insert (Compare l r) (due (set L) (set R))"
      using due_Compare [OF 4 nl nr] by simp
    then show ?thesis using 4 3(4,5,6) by (simp add: Let_def same_kind_def)
  qed
qed (auto simp: due_def)

lemma Get_in_due: "Get r \<in> due L R \<Longrightarrow> r \<in> R" and Remove_in_due: "Remove l \<in> due L R \<Longrightarrow> l \<in> L"
  and Compare_in_due: "Compare l r \<in> due L R \<Longrightarrow> l \<in> L"
  by (auto simp: due_def)

lemma name_sorted_distinct: "name_sorted L \<Longrightarrow> distinct L"
proof (induction L)
  case (Cons x L)
  then show ?case using head_not_in [of x L] by auto
qed simp

lemma sync_plan_distinct: "name_sorted L \<Longrightarrow> name_sorted R \<Longrightarrow> distinct (sync_plan L R)"
proof (induction L R rule: sync_plan.induct)
  case (1 R)
  then show ?case using name_sorted_distinct [of R] by (simp add: distinct_map inj_on_def)
next
  case (2 l L)
  then show ?case using name_sorted_distinct [of "l # L"] by (auto simp: distinct_map inj_on_def)
next
  case (3 l L r R)
  have l: "l \<notin> set L" and r: "r \<notin> set R" using head_not_in [OF 3(5)] head_not_in [OF 3(6)] by auto
  have ns: "name_sorted L" "name_sorted R" using 3(5,6) by auto
  have get: "Get r \<notin> set (sync_plan L' R)" if "name_sorted L'" for L'
    using Get_in_due [of r "set L'" "set R"] sync_plan_due [OF that ns(2)] r by blast
  have rem: "Remove l \<notin> set (sync_plan L R')" "Compare l r \<notin> set (sync_plan L R')" if "name_sorted R'" for R'
    using Remove_in_due [of l "set L" "set R'"] Compare_in_due [of l r "set L" "set R'"]
      sync_plan_due [OF ns(1) that] l by blast+
  show ?case
    using 3(1-4) ns 3(5,6) get [OF 3(5)] get [OF ns(1)] rem [OF 3(6)] rem [OF ns(2)]
    by (simp add: Let_def del: name_sorted_Cons)
qed

lemma sorted_distinct_names:
  "sorted_wrt (\<lambda>x y. 0 \<le> spf_push_comp x y) ys \<Longrightarrow> distinct (map spf_name ys) \<Longrightarrow> name_sorted ys"
proof (induction ys)
  case (Cons x ys)
  have "strcmp (spf_name x) (spf_name y) < 0" if "y \<in> set ys" for y
  proof -
    have "strcmp (spf_name x) (spf_name y) \<le> 0" using Cons.prems(1) that by (auto simp: spf_push_comp_strcmp)
    moreover have "strcmp (spf_name x) (spf_name y) \<noteq> 0" using Cons.prems(2) that by auto
    ultimately show ?thesis by (simp add: order_less_le)
  qed
  then show ?case using Cons by simp
qed simp

text \<open>A listing as \<open>build_local_dir\<close> and \<open>build_remote_dir\<close> make it, with no name twice.\<close>

definition listing :: "sp_file heap_list \<Rightarrow> bool" where
  "listing h \<longleftrightarrow> heap_invar spf_push_comp h \<and> heap_keys h \<le> 2 ^ 30 \<and> distinct (map spf_name (heap_elems h))"

lemma listing_holds:
  assumes "listing h"
  obtains L where "holds_list h L" "name_sorted L" "set L = set (heap_elems h)" "length L = heap_keys h"
proof -
  have h: "heap_invar spf_push_comp h" "heap_keys h \<le> 2 ^ 30" "distinct (map spf_name (heap_elems h))"
    using assms by (auto simp: listing_def)
  obtain L where L: "mset L = mset (heap_elems h)" "sorted_wrt (\<lambda>x y. 0 \<le> spf_push_comp x y) L"
    using heap_drain_ok [OF spf_order.comparator_axioms h(1), of "Suc (heap_keys h)"] h(2) by auto
  have "distinct (map spf_name L)"
    using h(3) L(1) by (metis distinct_map mset_eq_imp_distinct_iff set_mset_mset)
  then have ns: "name_sorted L" using sorted_distinct_names [OF L(2)] by simp
  then have "sorted_wrt (\<lambda>x y. 0 < spf_push_comp x y) L"
    by (simp add: name_sorted_def spf_push_comp_strcmp)
  then have "holds_list h L" unfolding spf_order.heap.holds_def using h L(1) by simp
  moreover have "length L = heap_keys h"
    using L(1) heap_length_elems [of h] h(1) by (metis heap_invar_def size_mset)
  ultimately show thesis using that ns mset_eq_setD [OF L(1)] by blast
qed

section \<open>Unchanged files\<close>

text \<open>Two entries between which the merge sees no difference.\<close>

definition unchanged :: "sp_file \<Rightarrow> sp_file \<Rightarrow> bool" where
  "unchanged l r \<longleftrightarrow> same_kind l r \<and>
     (case spf_type r of
        PLAINFILE \<Rightarrow> spf_time_cmp r l = 0 \<and> spf_size r = spf_size l \<and> spf_mode r = spf_mode l
      | SYMLINK \<Rightarrow> spf_symlink r \<noteq> None \<and> spf_symlink r = spf_symlink l
      | DIRECTORY \<Rightarrow> False
      | UNKNOWN \<Rightarrow> False)"

section \<open>The directories of a plan\<close>

text \<open>
  The actions without the queue: what is done at once for each of them, and the directories
  that are left for the descent.
\<close>

definition fetch :: "'w env \<Rightarrow> ftp_con \<Rightarrow> sp_file \<Rightarrow> 'w st \<Rightarrow> ('w st, ftp_con) run" where
  "fetch e c f s =
     (case spf_type f of
        DIRECTORY \<Rightarrow> Done c s
      | PLAINFILE \<Rightarrow> get_ftp_file e c f s
      | SYMLINK \<Rightarrow> bindR (spf_symlink_op (e_os e) f s) (\<lambda>_ s. Done c s)
      | UNKNOWN \<Rightarrow> (if spf_full_name s f = None then Wrong else Done c s))"

definition refresh :: "'w env \<Rightarrow> ftp_con \<Rightarrow> sp_file \<Rightarrow> sp_file \<Rightarrow> 'w st \<Rightarrow> ('w st, ftp_con) run" where
  "refresh e c l r s =
     (case spf_type r of
        DIRECTORY \<Rightarrow> Done c s
      | PLAINFILE \<Rightarrow>
        if spf_time_cmp r l \<noteq> 0 \<or> spf_size r \<noteq> spf_size l then fetch e c r s
        else if spf_mode r \<noteq> spf_mode l
        then bindR (spf_chmod (e_os e) (r\<lparr>spf_opt := spf_opt r OR SPFO_LOG_CHMOD\<rparr>) 0 s) (\<lambda>_ s. Done c s)
        else Done c s
      | SYMLINK \<Rightarrow>
        (case (spf_symlink r, spf_symlink l) of
           (Some a, Some b) \<Rightarrow>
             if a \<noteq> b
             then bindR (spf_rm (e_fuel e) (e_os e) r s) (\<lambda>res s. if 0 \<le> res then fetch e c r s else Done c s)
             else Done c s
         | _ \<Rightarrow> Wrong)
      | UNKNOWN \<Rightarrow> Wrong)"

fun do_action :: "'w env \<Rightarrow> action \<Rightarrow> ftp_con \<Rightarrow> 'w st \<Rightarrow> ('w st, ftp_con) run" where
  "do_action e (Get f) c s = fetch e c f s"
| "do_action e (Remove f) c s = bindR (spf_rm (e_fuel e) (e_os e) f s) (\<lambda>_ s. Done c s)"
| "do_action e (Compare l r) c s = refresh e c l r s"

fun visit :: "('c \<Rightarrow> 'a \<Rightarrow> 's \<Rightarrow> ('s, 'c) run) \<Rightarrow> 'a list \<Rightarrow> 'c \<Rightarrow> 's \<Rightarrow> ('s, 'c) run" where
  "visit g [] c s = Done c s"
| "visit g (a # as) c s = bindR (g c a s) (\<lambda>c s. visit g as c s)"

fun action_dirs :: "action \<Rightarrow> sp_file list" where
  "action_dirs (Get f) = (if spf_type f = DIRECTORY then [f] else [])"
| "action_dirs (Remove f) = []"
| "action_dirs (Compare l r) =
     (if spf_type r = DIRECTORY then [r\<lparr>spf_opt := spf_opt r OR SPFO_DONT_CREATE\<rparr>] else [])"

definition plan_dirs :: "action list \<Rightarrow> sp_file list" where
  "plan_dirs as = concat (map action_dirs as)"

text \<open>The queue while it is filled.\<close>

definition queue :: "sp_file fifo_list \<Rightarrow> sp_file list \<Rightarrow> bool" where
  "queue f ds \<longleftrightarrow> fifo_linear f \<and> fifo_start f = 0 \<and> fifo_elems f = ds"

lemma queue_push:
  assumes "queue f ds" "length ds < 2 ^ 31 - 1"
  obtains f' where "fifo_push True f x = Ret f'" "queue f' (ds @ [x])"
  using fifo.fill_push [of f x] assms by (auto simp: queue_def)

lemma get_file_fetch:
  "spf_type x \<noteq> DIRECTORY \<Longrightarrow> sp_get_file e c x f s = bindR (fetch e c x s) (\<lambda>c s. Done (c, f) s)"
  by (cases "spf_type x") (simp_all add: sp_get_file_def fetch_def bindR_assoc)

lemma get_queue:
  assumes "queue f ds" "length ds < 2 ^ 31 - 1"
  shows "\<exists>f'. queue f' (ds @ action_dirs (Get x)) \<and>
    (\<forall>c s. sp_get_file e c x f s = bindR (fetch e c x s) (\<lambda>c s. Done (c, f') s))"
proof (cases "spf_type x = DIRECTORY")
  case True
  obtain f' where "fifo_push True f x = Ret f'" "queue f' (ds @ [x])" by (rule queue_push [OF assms])
  then show ?thesis using True by (auto simp: sp_get_file_def fetch_def spf_clone_def liftO_def)
qed (use assms in \<open>auto simp: get_file_fetch\<close>)

lemma same_refresh:
  "spf_type r \<noteq> DIRECTORY \<Longrightarrow> sync_same e c l r f s = bindR (refresh e c l r s) (\<lambda>c s. Done (c, f) s)"
  by (cases "spf_type r"; cases "spf_symlink r"; cases "spf_symlink l")
    (auto simp: sync_same_def refresh_def get_file_fetch bindR_assoc intro!: arg_cong2 [where f = bindR] ext)

lemma action_queue:
  assumes "queue f ds" "length ds < 2 ^ 31 - 1"
  shows "\<exists>f'. queue f' (ds @ action_dirs a) \<and>
    (\<forall>c s. run_action e a (c, f) s = bindR (do_action e a c s) (\<lambda>c s. Done (c, f') s))"
proof (cases a)
  case (Get x)
  show ?thesis using get_queue [OF assms, of x e] unfolding Get run_action.simps do_action.simps .
next
  case (Remove x)
  then show ?thesis using assms by (auto simp: bindR_assoc)
next
  case (Compare l r)
  show ?thesis
  proof (cases "spf_type r = DIRECTORY")
    case True
    then show ?thesis
      using get_queue [OF assms, of "r\<lparr>spf_opt := spf_opt r OR SPFO_DONT_CREATE\<rparr>" e] Compare
      by (auto simp: sync_same_def refresh_def fetch_def)
  next
    case False
    then show ?thesis using assms Compare by (auto simp: same_refresh)
  qed
qed

lemma plan_queue:
  "queue f ds \<Longrightarrow> length ds + length (plan_dirs as) < 2 ^ 31 - 1 \<Longrightarrow>
   \<exists>f'. queue f' (ds @ plan_dirs as) \<and>
     (\<forall>c s. run_plan e as (c, f) s = bindR (visit (\<lambda>c a. do_action e a c) as c s) (\<lambda>c s. Done (c, f') s))"
proof (induction as arbitrary: f ds)
  case (Cons a as)
  obtain f1 where f1: "queue f1 (ds @ action_dirs a)"
    "\<And>c s. run_action e a (c, f) s = bindR (do_action e a c s) (\<lambda>c s. Done (c, f1) s)"
    using action_queue [of f ds a e] Cons.prems by auto
  obtain f2 where "queue f2 ((ds @ action_dirs a) @ plan_dirs as)"
    "\<And>c s. run_plan e as (c, f1) s = bindR (visit (\<lambda>c a. do_action e a c) as c s) (\<lambda>c s. Done (c, f2) s)"
    using Cons.IH [OF f1(1)] Cons.prems(2) by (auto simp: plan_dirs_def)
  then show ?case using f1(2) by (auto simp: plan_dirs_def bindR_assoc)
qed (auto simp: plan_dirs_def)

lemma dirs_loop_visit:
  "fifo_linear f \<Longrightarrow> fifo_elems f = ds \<Longrightarrow> length ds < n \<Longrightarrow>
   dirs_loop rec n e c f s = visit (sync_subdir rec e) ds c s"
proof (induction ds arbitrary: f n c s)
  case Nil
  then show ?case using fifo.drain_empty [of f True] by (cases n) simp_all
next
  case (Cons d ds)
  obtain f' where f': "fifo_pop True (Some f) = Ret (d, f')" "fifo_linear f'" "fifo_elems f' = ds"
    using fifo.drain_pop [of f True] Cons.prems by auto
  show ?case
    using Cons.IH [OF f'(2,3)] Cons.prems(3) f'(1)
    by (cases n) (auto intro!: arg_cong2 [where f = bindR] ext)
qed

lemma plan_dirs_length: "length (plan_dirs (sync_plan L R)) \<le> length R"
proof (induction L R rule: sync_plan.induct)
  case (1 R)
  then show ?case by (induction R) (auto simp: plan_dirs_def)
qed (auto simp: Let_def plan_dirs_def o_def)

lemma holds_count:
  assumes "holds_list h L"
  shows "heap_count h = length L"
proof -
  have "heap_wf h" "mset L = mset (heap_elems h)"
    using assms [unfolded spf_order.heap.holds_def] by (simp_all add: heap_invar_def)
  then show ?thesis using heap_length_elems [of h] mset_eq_length [of L "heap_elems h"] by (simp add: heap_count_def)
qed

lemma sp_sync_dir_plan:
  assumes "holds_list l L" "holds_list r R" "length R < 2 ^ 31 - 1"
  shows "sp_sync_dir (Suc n) e c (Some l) (Some r) s =
    bindR (visit (\<lambda>c a. do_action e a c) (sync_plan L R) c (s\<lparr>sp_dirs_traversed := sp_dirs_traversed s + 1\<rparr>))
      (visit (sync_subdir (sp_sync_dir n e) e) (plan_dirs (sync_plan L R)))"
proof -
  obtain f where f: "fifo_init True True True = Ret f" "queue f ([] :: sp_file list)"
    using fifo_init_ok [of True] by (auto simp: queue_def fifo_init_def)
  obtain f' where f': "queue f' (plan_dirs (sync_plan L R))"
    "\<And>c s. run_plan e (sync_plan L R) (c, f) s =
       bindR (visit (\<lambda>c a. do_action e a c) (sync_plan L R) c s) (\<lambda>c s. Done (c, f') s)"
    using plan_queue [OF f(2), of "sync_plan L R" e] plan_dirs_length [of L R] assms(3) by auto
  have "dirs_loop (sp_sync_dir n e) (Suc (fifo_count f')) e c f' s =
      visit (sync_subdir (sp_sync_dir n e) e) (plan_dirs (sync_plan L R)) c s" for c s
    using f'(1) by (intro dirs_loop_visit) (auto simp: queue_def fifo_count_def fifo_count_linear)
  then show ?thesis
    using sync_loop_plan [OF assms(1,2), where e = e] holds_count [OF assms(1)] holds_count [OF assms(2)] f(1) f'(2)
    by (simp add: liftO_def bindR_assoc Let_def del: sync_loop.simps dirs_loop.simps)
qed

lemma due_unchanged:
  assumes "name_sorted R" "\<forall>x \<in> L. \<exists>y \<in> set R. unchanged x y" "\<forall>y \<in> set R. \<exists>x \<in> L. unchanged x y"
  shows "\<forall>a \<in> due L (set R). \<exists>x y. a = Compare x y \<and> unchanged x y"
proof -
  have inj: "y = y'" if "y \<in> set R" "y' \<in> set R" "spf_name y = spf_name y'" for y y'
    using assms(1) that by (induction R) force+
  have "unchanged x y" if "x \<in> L" "y \<in> set R" "same_kind x y" for x y
    using that assms(2) inj [of y] by (metis same_kind_def unchanged_def)
  then show ?thesis using assms(2,3) by (auto simp: due_def unchanged_def)
qed

lemma visit_unchanged:
  "\<forall>a \<in> set as. \<exists>x y. a = Compare x y \<and> unchanged x y \<Longrightarrow> visit (\<lambda>c a. do_action e a c) as c s = Done c s"
proof (induction as)
  case (Cons a as)
  obtain x y where "a = Compare x y" "unchanged x y" using Cons.prems by auto
  then have "do_action e a c s = Done c s"
    by (cases "spf_symlink x"; cases "spf_type y") (auto simp: unchanged_def refresh_def)
  then show ?case using Cons by simp
qed simp

lemma plan_dirs_unchanged:
  "\<forall>a \<in> set as. \<exists>x y. a = Compare x y \<and> unchanged x y \<Longrightarrow> plan_dirs as = []"
  by (induction as) (auto simp: plan_dirs_def unchanged_def)

section \<open>Properties\<close>

text \<open>
  The surroundings of the examples: the sample file system and a network on which every call
  fails, so that an action that used the network would show.
\<close>

definition no_net :: "fs net_ops" where
  "no_net = \<lparr>n_write = (\<lambda>fd s w. (None, False, w)), n_read = (\<lambda>fd k w. (None, False, w)),
     n_close = (\<lambda>fd w. w), n_socket = (\<lambda>w. (- 1, w)), n_gethost = (\<lambda>w h. None),
     n_connect = (\<lambda>fd a p w. (False, w)), n_getsockname = (\<lambda>w fd. None),
     n_bind = (\<lambda>fd w. (False, w)), n_listen = (\<lambda>fd w. (False, w)), n_accept = (\<lambda>fd w. (- 1, w)),
     n_select = (\<lambda>fd t w. (- 1, w)), n_rcvtimeo = (\<lambda>fd t w. (False, w)),
     n_fopen = (\<lambda>f a w. (None, w)), n_fseek = (\<lambda>f k w. (False, w)), n_fwrite = (\<lambda>f s w. (0, w)),
     n_fclose = (\<lambda>f w. w), n_mkstemp = (\<lambda>p w. (None, w)), n_wrfd = (\<lambda>fd s w. (False, w)),
     n_unlink = (\<lambda>p w. w)\<rparr>"

definition sample_env :: "fs env" where
  "sample_env = \<lparr>e_os = fs_os, e_nt = no_net, e_clk = clock_2000, e_fuel = 100\<rparr>"

definition sample_spf :: "string \<Rightarrow> sp_file" where
  "sample_spf n = \<lparr>spf_time = 0, spf_tgranul = 0, spf_type = PLAINFILE, spf_opt = 0, spf_size = 10,
     spf_mode = 0x1A4, spf_name = n, spf_symlink = None, spf_orig_name = None\<rparr>"

definition sample_listing :: "string list \<Rightarrow> sp_file heap_list" where
  "sample_listing ns = \<lparr>heap_size = length ns + 1, heap_keys = length ns, heap_comp_fun = spf_push_comp,
     heap_data = map (Some \<circ> sample_spf) ns @ [None]\<rparr>"

lemma listing_samples:
  "listing (sample_listing [])" "listing (sample_listing [''a''])" "listing (sample_listing [''a'', ''b''])"
  by (simp_all add: listing_def sample_listing_def heap_invar_def heap_wf_def heap_elems_def heap_ordered_def
      sample_spf_def less_Suc_eq spf_push_comp_strcmp)

lemma heap_elems_samples [simp]: "heap_elems (sample_listing ns) = map sample_spf ns"
  by (simp add: heap_elems_def sample_listing_def)

text \<open>
  C1. What the merge of \<open>sp_sync_dir\<close> does. On two listings without a name twice the loop ends
  within one round per file, and carries out, each once, exactly these actions: fetch every
  remote file that has no local one of its name and type, remove every local file that has no
  remote one of its name and type, compare the others.
\<close>

theorem sync_merge_correct:
  assumes "listing l" "listing r" "heap_count l + heap_count r < n"
  shows "\<exists>as. sync_loop n e c l r dirs s = run_plan e as (c, dirs) s \<and> distinct as \<and>
    set as = due (set (heap_elems l)) (set (heap_elems r))"
proof -
  obtain L where L: "holds_list l L" "name_sorted L" "set L = set (heap_elems l)" "length L = heap_keys l"
    by (rule listing_holds [OF assms(1)])
  obtain R where R: "holds_list r R" "name_sorted R" "set R = set (heap_elems r)" "length R = heap_keys r"
    by (rule listing_holds [OF assms(2)])
  have "sync_loop n e c l r dirs s = run_plan e (sync_plan L R) (c, dirs) s"
    using assms(3) L(4) R(4) by (intro sync_loop_plan L R) (simp add: heap_count_def)
  then show ?thesis
    using sync_plan_due [OF L(2) R(2)] sync_plan_distinct [OF L(2) R(2)] L(3) R(3) by metis
qed

theorem sync_merge_correct_witness:
  "\<exists>as. sync_loop 4 sample_env sample_con (sample_listing [''a'', ''b'']) (sample_listing [''a'']) \<lparr>fifo_start = 0, fifo_end = 0, fifo_size = 2, fifo_data = [None, None]\<rparr>
      (sample_st []) = run_plan sample_env as (sample_con, \<lparr>fifo_start = 0, fifo_end = 0, fifo_size = 2, fifo_data = [None, None]\<rparr>) (sample_st []) \<and> distinct as \<and>
    set as = {Compare (sample_spf ''a'') (sample_spf ''a''), Remove (sample_spf ''b'')}"
proof -
  have "heap_count (sample_listing [''a'', ''b'']) + heap_count (sample_listing [''a'']) < 4"
    by (simp add: heap_count_def sample_listing_def)
  moreover have "due {sample_spf ''a'', sample_spf ''b''} {sample_spf ''a''} =
      {Compare (sample_spf ''a'') (sample_spf ''a''), Remove (sample_spf ''b'')}"
    by (auto simp: due_def same_kind_def sample_spf_def)
  ultimately show ?thesis
    using sync_merge_correct [OF listing_samples(3,2), of 4 sample_env sample_con
      "\<lparr>fifo_start = 0, fifo_end = 0, fifo_size = 2, fifo_data = [None, None]\<rparr>" "sample_st []"]
    by (simp del: sync_loop.simps sp_sync_dir.simps)
qed

text \<open>
  C2. \<open>sp_sync_dir\<close> as a whole: first the files of the plan, then the directories of the
  plan, each visited once and in the order of their names. The heaps and the queue of the code
  have become the two ordered lists.
\<close>

theorem sp_sync_dir_refines:
  assumes "listing l" "listing r"
  shows "\<exists>L R. name_sorted L \<and> name_sorted R \<and> set L = set (heap_elems l) \<and> set R = set (heap_elems r) \<and>
    (\<forall>n c s. sp_sync_dir (Suc n) e c (Some l) (Some r) s =
      bindR (visit (\<lambda>c a. do_action e a c) (sync_plan L R) c (s\<lparr>sp_dirs_traversed := sp_dirs_traversed s + 1\<rparr>))
        (visit (sync_subdir (sp_sync_dir n e) e) (plan_dirs (sync_plan L R))))"
proof -
  obtain L where L: "holds_list l L" "name_sorted L" "set L = set (heap_elems l)" "length L = heap_keys l"
    by (rule listing_holds [OF assms(1)])
  obtain R where R: "holds_list r R" "name_sorted R" "set R = set (heap_elems r)" "length R = heap_keys r"
    by (rule listing_holds [OF assms(2)])
  have "length R < 2 ^ 31 - 1" using R(4) assms(2) by (simp add: listing_def)
  then show ?thesis using sp_sync_dir_plan [OF L(1) R(1), where e = e] L(2,3) R(2,3) by blast
qed

theorem sp_sync_dir_refines_witness:
  "\<exists>L R. name_sorted L \<and> name_sorted R \<and> set L = {sample_spf ''a'', sample_spf ''b''} \<and> set R = {sample_spf ''a''} \<and>
    (\<forall>n c s. sp_sync_dir (Suc n) sample_env c (Some (sample_listing [''a'', ''b''])) (Some (sample_listing [''a''])) s =
      bindR (visit (\<lambda>c a. do_action sample_env a c) (sync_plan L R) c (s\<lparr>sp_dirs_traversed := sp_dirs_traversed s + 1\<rparr>))
        (visit (sync_subdir (sp_sync_dir n sample_env) sample_env) (plan_dirs (sync_plan L R))))"
  using sp_sync_dir_refines [OF listing_samples(3,2), of sample_env]
  by (simp del: sync_loop.simps sp_sync_dir.simps)



end
