(* ===== verification/Sync_Limit.thy ===== *)
theory Sync_Limit
  imports Sync_Plan
begin

text \<open>
  The limit on deletes (\<open>sp_max_delete\<close>, spf_util.c) seen from \<open>sp_sync_dir\<close>: no file operation,
  no retry and no recursion of a whole run gets past it.
\<close>

definition del_frame :: "'w st \<Rightarrow> 'w st \<Rightarrow> bool" where
  "del_frame s t \<longleftrightarrow> sp_max_delete t = sp_max_delete s \<and> sp_do_delete t = sp_do_delete s \<and>
     sp_deletes s \<le> sp_deletes t \<and>
     (sp_max_delete s \<noteq> 0 \<longrightarrow> sp_deletes t \<le> max (sp_deletes s) (sp_max_delete s)) \<and>
     (sp_do_delete s = 0 \<longrightarrow> sp_deletes t = sp_deletes s)"

lemma del_frame_refl [simp]: "del_frame s s"
  by (simp add: del_frame_def)

lemma del_frame_updates [simp]:
  "del_frame s0 (s\<lparr>world := w\<rparr>) = del_frame s0 s"
  "del_frame s0 (s\<lparr>cur_dir := d\<rparr>) = del_frame s0 s"
  "del_frame s0 (s\<lparr>sp_dirs_traversed := k\<rparr>) = del_frame s0 s"
  by (simp_all add: del_frame_def)

lemma del_frame_trans: "del_frame s t \<Longrightarrow> del_frame t u \<Longrightarrow> del_frame s u"
  by (auto simp: del_frame_def)

text \<open>One lemma per operation: started inside the frame, it ends inside it.\<close>

named_theorems frame_rules

lemma frame_bindR [frame_rules]:
  "run_inv (del_frame s0) m \<Longrightarrow> (\<And>x t. del_frame s0 t \<Longrightarrow> run_inv (del_frame s0) (f x t)) \<Longrightarrow>
   run_inv (del_frame s0) (bindR m f)"
  by (cases m) auto

lemma frame_Done [frame_rules]: "del_frame s0 s \<Longrightarrow> run_inv (del_frame s0) (Done x s)"
  and frame_Quit [frame_rules]: "del_frame s0 s \<Longrightarrow> run_inv (del_frame s0) (Quit n s)"
  and frame_Wrong [frame_rules]: "run_inv (del_frame s0) Wrong"
  by simp_all

lemma frame_liftO [frame_rules]: "del_frame s0 s \<Longrightarrow> run_inv (del_frame s0) (liftO x s)"
  by (simp add: liftO_def split: outcome.split)

lemma frame_spf_rm [frame_rules]:
  assumes "del_frame s0 s"
  shows "run_inv (del_frame s0) (spf_rm n os spf s)"
proof (cases "sp_do_delete s = 0")
  case True
  then show ?thesis using assms by (simp add: spf_rm_def)
next
  case False
  show ?thesis
  proof (rule run_inv_mono [OF spf_rm_frame])
    fix t assume "rm_frame s t"
    then have "del_frame s t"
      using False by (cases s; cases t) (auto simp: rm_frame_def del_frame_def)
    then show "del_frame s0 t" by (rule del_frame_trans [OF assms])
  qed
qed

lemma frame_file_ops [frame_rules]:
  "del_frame s0 s \<Longrightarrow> run_inv (del_frame s0) (spf_chmod os spf m s)"
  "del_frame s0 s \<Longrightarrow> run_inv (del_frame s0) (spf_new_time os spf s)"
  "del_frame s0 s \<Longrightarrow> run_inv (del_frame s0) (spf_mkdir os spf s)"
  "del_frame s0 s \<Longrightarrow> run_inv (del_frame s0) (spf_symlink_op os spf s)"
  "del_frame s0 s \<Longrightarrow> run_inv (del_frame s0) (spf_restore_name os spf s)"
  "del_frame s0 s \<Longrightarrow> run_inv (del_frame s0) (spf_use_tmp_name os ok1 ok2 spf s)"
  by (auto simp: spf_chmod_def spf_new_time_def spf_mkdir_def spf_symlink_op_def spf_restore_name_def
      spf_use_tmp_name_def Let_def split: option.split prod.split outcome.split)

lemma frame_peek [frame_rules]:
  "del_frame s0 s \<Longrightarrow> run_inv (del_frame s0) (peek_spf h s)"
  "del_frame s0 s \<Longrightarrow> run_inv (del_frame s0) (pop_spf h s)"
  by (simp_all add: peek_spf_def pop_spf_def split: outcome.split)

lemma frame_if [frame_rules]:
  "(b \<Longrightarrow> run_inv P x) \<Longrightarrow> (\<not> b \<Longrightarrow> run_inv P y) \<Longrightarrow> run_inv P (if b then x else y)"
  by simp

lemma frame_option [frame_rules]:
  "run_inv P x \<Longrightarrow> (\<And>a. run_inv P (f a)) \<Longrightarrow> run_inv P (case y of None \<Rightarrow> x | Some a \<Rightarrow> f a)"
  by (cases y) simp_all

lemma frame_prod [frame_rules]: "(\<And>a b. run_inv P (f a b)) \<Longrightarrow> run_inv P (case y of (a, b) \<Rightarrow> f a b)"
  by (cases y) simp

lemma frame_prod_app [frame_rules]: "(\<And>a b. run_inv P (f a b s)) \<Longrightarrow> run_inv P ((case y of (a, b) \<Rightarrow> f a b) s)"
  by (cases y) simp

lemma frame_Let [frame_rules]: "(\<And>x. x = y \<Longrightarrow> run_inv P (f x)) \<Longrightarrow> run_inv P (Let y f)"
  by simp

lemma frame_retry_login [frame_rules]:
  "del_frame s0 s \<Longrightarrow> run_inv (del_frame s0) (retry_login k e spf f c sz erased s)"
proof (induction k arbitrary: c sz erased s)
  case (Suc k)
  show ?case
    unfolding retry_login.simps
    by (intro frame_rules Suc.IH; simp add: Suc.prems)
qed simp

lemma frame_get_loop [frame_rules]:
  "del_frame s0 s \<Longrightarrow> run_inv (del_frame s0) (get_loop k e spf lf rf c sz rmed erased s)"
proof (induction k arbitrary: c sz rmed erased s)
  case (Suc k)
  show ?case
    unfolding get_loop.simps
    by (intro frame_rules Suc.IH; simp add: Suc.prems)
qed simp

lemma frame_get_ftp_file [frame_rules]:
  "del_frame s0 s \<Longrightarrow> run_inv (del_frame s0) (get_ftp_file e c spf s)"
  unfolding get_ftp_file_def by (intro frame_rules; simp)

lemma frame_sp_get_file [frame_rules]:
  "del_frame s0 s \<Longrightarrow> run_inv (del_frame s0) (sp_get_file e c spf fifo s)"
  unfolding sp_get_file_def by (cases "spf_type spf"; simp only: sp_ftype.case; intro frame_rules; simp)

lemma frame_sync_same [frame_rules]:
  "del_frame s0 s \<Longrightarrow> run_inv (del_frame s0) (sync_same e c l r dirs s)"
  unfolding sync_same_def by (cases "spf_type r"; simp only: sp_ftype.case; intro frame_rules; simp)

lemma frame_sync_loop [frame_rules]:
  "del_frame s0 s \<Longrightarrow> run_inv (del_frame s0) (sync_loop n e c l r dirs s)"
proof (induction n arbitrary: c l r dirs s)
  case (Suc n)
  show ?case
    unfolding sync_loop.simps
    by (intro frame_rules Suc.IH; simp add: Suc.prems)
qed simp

lemma frame_relogin_dir [frame_rules]:
  "del_frame s0 s \<Longrightarrow> run_inv (del_frame s0) (relogin_dir k e c s)"
proof (induction k arbitrary: c s)
  case (Suc k)
  show ?case
    unfolding relogin_dir.simps
    by (intro frame_rules Suc.IH; simp add: Suc.prems)
qed simp

lemma frame_list_dir [frame_rules]:
  "del_frame s0 s \<Longrightarrow> run_inv (del_frame s0) (list_dir k e c s)"
proof (induction k arbitrary: c s)
  case (Suc k)
  show ?case
    unfolding list_dir.simps
    by (intro frame_rules Suc.IH; simp add: Suc.prems)
qed simp

lemma frame_read_listing [frame_rules]:
  "del_frame s0 s \<Longrightarrow> run_inv (del_frame s0) (read_listing e t s)"
  by (simp add: read_listing_def Let_def split: option.split outcome.split)

lemma frame_outcome [frame_rules]:
  "(\<And>a. run_inv P (f a)) \<Longrightarrow> (\<And>a. run_inv P (g a)) \<Longrightarrow> (\<And>n. run_inv P (h n)) \<Longrightarrow> run_inv P u \<Longrightarrow>
   run_inv P (case y of Ret a \<Rightarrow> f a | Err a \<Rightarrow> g a | Exit n \<Rightarrow> h n | Undef \<Rightarrow> u)"
  by (cases y) simp_all

lemma frame_sync_subdir [frame_rules]:
  assumes "\<And>c l r s. del_frame s0 s \<Longrightarrow> run_inv (del_frame s0) (rec c l r s)" "del_frame s0 s"
  shows "run_inv (del_frame s0) (sync_subdir rec e c spf s)"
  unfolding sync_subdir_def
  by (intro frame_rules assms(1); simp add: assms(2) split: option.split)

lemma frame_dirs_loop [frame_rules]:
  assumes "\<And>c l r s. del_frame s0 s \<Longrightarrow> run_inv (del_frame s0) (rec c l r s)"
  shows "del_frame s0 s \<Longrightarrow> run_inv (del_frame s0) (dirs_loop rec n e c dirs s)"
proof (induction n arbitrary: c dirs s)
  case (Suc n)
  show ?case
    unfolding dirs_loop.simps
    by (intro frame_rules assms Suc.IH; simp add: Suc.prems assms)
qed simp

lemma frame_sp_sync_dir:
  "del_frame s0 s \<Longrightarrow> run_inv (del_frame s0) (sp_sync_dir n e c l r s)"
proof (induction n arbitrary: c l r s)
  case (Suc n)
  show ?case
    unfolding sp_sync_dir.simps
    by (intro frame_rules Suc.IH; simp add: Suc.prems)
qed simp

section \<open>Properties\<close>

text \<open>
  C4. The limit on deletes over a whole run of \<open>sp_sync_dir\<close>, through all merges, retries and
  sub-directories, however it ends: the count of deletes never passes the limit (0 is no
  limit), and with deletes switched off it stays as it was.
\<close>

theorem sp_sync_dir_delete_limit:
  "run_inv (\<lambda>t. (sp_max_delete s \<noteq> 0 \<and> sp_deletes s \<le> sp_max_delete s \<longrightarrow> sp_deletes t \<le> sp_max_delete s) \<and>
      (sp_do_delete s = 0 \<longrightarrow> sp_deletes t = sp_deletes s)) (sp_sync_dir n e c l r s)"
  by (rule run_inv_mono [OF frame_sp_sync_dir [OF del_frame_refl]]) (auto simp: del_frame_def)

text \<open>Two local files that the server does not have, and a limit of one delete.\<close>

theorem sp_sync_dir_delete_limit_witness:
  "run_inv (\<lambda>t. sp_deletes t \<le> 1)
    (sp_sync_dir 2 sample_env sample_con (Some (sample_listing [''a'', ''b''])) (Some (sample_listing []))
      ((sample_st [(''./a'', sample_file), (''./b'', sample_file)])\<lparr>sp_max_delete := 1\<rparr>))"
  by (rule run_inv_mono [OF sp_sync_dir_delete_limit]) (simp add: sample_st_def)

end
