(* ===== verification/Spegla_Main.thy ===== *)
theory Spegla_Main
  imports Config Sync_Limit
begin

text \<open>
  The program itself: \<open>main\<close> of spegla.c after the analysis of the configuration (1349-1459), with
  \<open>check_minfree\<close>, \<open>set_mirror_uid\<close> and the exit handler \<open>remove_lock\<close>. The statistics and the
  freeing of memory at the exit change nothing outside the process and are left out.
\<close>

section \<open>The process\<close>

text \<open>
  The system calls that only \<open>main\<close> makes: the bytes that are free on a file system, opening the log
  for appending, creating the lock file if it does not exist, \<open>getpwnam\<close> with \<open>seteuid\<close>, \<open>seteuid\<close>
  back to the real user, \<open>getcwd\<close> and \<open>chdir\<close>.
\<close>

record 'w proc_ops =
  pr_free :: "'w \<Rightarrow> string \<Rightarrow> int outcome"
  pr_append :: "string \<Rightarrow> 'w \<Rightarrow> errno option \<times> 'w"
  pr_create_excl :: "string \<Rightarrow> 'w \<Rightarrow> errno option \<times> 'w"
  pr_become :: "string \<Rightarrow> 'w \<Rightarrow> errno option \<times> 'w"
  pr_unbecome :: "'w \<Rightarrow> 'w"
  pr_getcwd :: "'w \<Rightarrow> string"
  pr_chdir :: "string \<Rightarrow> 'w \<Rightarrow> errno option \<times> 'w"

definition check_minfree :: "'w proc_ops \<Rightarrow> int \<Rightarrow> string \<Rightarrow> 'w \<Rightarrow> unit outcome" where
  "check_minfree pr minfree path w =
     (if minfree = 0 then Ret ()
      else case pr_free pr w path of Ret n \<Rightarrow> (if n < minfree then Exit 1 else Ret ()) | _ \<Rightarrow> Exit 1)"

definition set_mirror_uid :: "'w proc_ops \<Rightarrow> string option \<Rightarrow> 'w \<Rightarrow> errno option \<times> 'w" where
  "set_mirror_uid pr mirroruser w = (case mirroruser of None \<Rightarrow> (None, w) | Some u \<Rightarrow> pr_become pr u w)"

text \<open>The globals \<open>start_wd\<close> and \<open>lock_file\<close> are arguments.\<close>

definition remove_lock :: "'w os_ops \<Rightarrow> 'w proc_ops \<Rightarrow> string option \<Rightarrow> string option \<Rightarrow> 'w \<Rightarrow> 'w" where
  "remove_lock os pr start_wd lock_file w =
     (let w = pr_unbecome pr w;
          (err, w) = (case start_wd of None \<Rightarrow> (None, w) | Some d \<Rightarrow> pr_chdir pr d w) in
      if err \<noteq> None then w
      else case lock_file of None \<Rightarrow> w | Some f \<Rightarrow> snd (os_unlink os f w))"

section \<open>Mirroring\<close>

text \<open>The globals of the engine as the configuration sets them.\<close>

definition start_state :: "param \<Rightarrow> 'w \<Rightarrow> 'w st" where
  "start_state p w = \<lparr>cur_dir = ''./'', sp_do_delete = the (p_dodelete p), sp_max_delete = the (p_maxdelete p),
     sp_deletes = 0, sp_dirs_traversed = 0, sp_retrytime = nat (the (p_retrytime p)), skip = p_skip p,
     treatasdir = p_treatasdir p, world = w\<rparr>"

text \<open>The login loop; \<open>retries\<close> is \<open>*param.retries\<close>, of which the connection gets what is left.\<close>

fun login_loop :: "nat \<Rightarrow> 'w env \<Rightarrow> param \<Rightarrow> int \<Rightarrow> 'w st \<Rightarrow> ('w st, ftp_con \<times> int) run" where
  "login_loop 0 e p retries s = Wrong"
| "login_loop (Suc k) e p retries s =
     (case ftp_login (e_fuel e) (e_nt e) True (the (p_host p)) (the (p_port p)) (the (p_username p)) (the (p_password p))
         (the (p_loglevel p)) (world s) of None \<Rightarrow> Wrong
      | Some (c, w) \<Rightarrow>
        (let s = s\<lparr>world := w\<rparr> in
         (case c of Some c \<Rightarrow> Done (c, retries) s
          | None \<Rightarrow>
            if retries < 0 then Quit 1 s
            else login_loop k e p (retries - 1) (s\<lparr>world := os_sleep (e_os e) (sp_retrytime s) (world s)\<rparr>))))"

text \<open>From the login to the end of the synchronisation; \<open>depth\<close> bounds the depth of the directories.\<close>

definition mirror :: "nat \<Rightarrow> 'w env \<Rightarrow> param \<Rightarrow> 'w st \<Rightarrow> ('w st, ftp_con) run" where
  "mirror depth e p s =
     bindR (login_loop (nat (the (p_retries p)) + 2) e p (the (p_retries p)) s) (\<lambda>(c, retries) s.
       let c = ftp_set_tempdir (ftp_set_passive c (the (p_passive p) \<noteq> 0)) (the (p_tempdir p)) in
       case ftp_req (e_fuel e) (e_nt e) c (Some ''TYPE I'') (world s) of None \<Rightarrow> Wrong
       | Some (res, c, w) \<Rightarrow>
         if res < 0 then Quit 1 (s\<lparr>world := w\<rparr>)
         else let c = (ftp_set_timeout_val c (the (p_timeout p)))\<lparr>ftp_retries := retries\<rparr> in
           (case ftp_cd (e_fuel e) (e_nt e) True c (the (p_remotedir p)) w of None \<Rightarrow> Wrong
            | Some (res, c, w) \<Rightarrow>
              if res < 0 then Quit 1 (s\<lparr>world := w\<rparr>)
              else (case ftp_dir (e_fuel e) (e_nt e) True c ''.'' w of None \<Rightarrow> Wrong
                | Some (temp_file, c, w) \<Rightarrow>
                  let s = s\<lparr>world := w\<rparr> in
                  if temp_file = None then Quit 1 s
                  else bindR (read_listing e temp_file s) (\<lambda>r s.
                    case build_local_dir e s of
                      Ret l \<Rightarrow> sp_sync_dir depth e c (Some l) r s
                    | Err _ \<Rightarrow> sp_sync_dir depth e c None r s
                    | Exit n \<Rightarrow> Quit n s
                    | Undef \<Rightarrow> Wrong))))"

section \<open>The main program\<close>

text \<open>
  The exit code and the world after the exit handlers. The handler that removes the lock is there
  only after the lock file was created.
\<close>

definition leave :: "'w env \<Rightarrow> 'w proc_ops \<Rightarrow> string option \<Rightarrow> string option \<Rightarrow> int \<Rightarrow> 'w \<Rightarrow> (int \<times> 'w) outcome" where
  "leave e pr start_wd lock_file n w =
     Ret (n, if lock_file = None then w else remove_lock (e_os e) pr start_wd lock_file w)"

definition run_mirror :: "nat \<Rightarrow> 'w env \<Rightarrow> 'w proc_ops \<Rightarrow> param \<Rightarrow> 'w \<Rightarrow> (int \<times> 'w) outcome" where
  "run_mirror depth e pr p w =
     (let lock = p_lockfile p; (err, w) = set_mirror_uid pr (p_mirroruser p) w in
      if err \<noteq> None then leave e pr None lock 1 w
      else let wd = pr_getcwd pr w; (err, w) = pr_chdir pr (the (p_localdir p)) w in
        if err \<noteq> None then leave e pr (Some wd) lock 1 w
        else case mirror depth e p (start_state p w) of
          Wrong \<Rightarrow> Undef
        | Quit n s \<Rightarrow> leave e pr (Some wd) lock n (world s)
        | Done c s \<Rightarrow>
          (case ftp_bye (e_fuel e) (e_nt e) c (snd (pr_chdir pr wd (world s))) of None \<Rightarrow> Undef
           | Some (_, _, w) \<Rightarrow> leave e pr (Some wd) lock 0 w))"

definition open_log :: "'w proc_ops \<Rightarrow> string option \<Rightarrow> 'w \<Rightarrow> errno option \<times> 'w" where
  "open_log pr logfile w =
     (case logfile of None \<Rightarrow> (None, w)
      | Some f \<Rightarrow> if f = ''stdout'' \<or> f = ''stderr'' then (None, w) else pr_append pr f w)"

definition spegla_main ::
  "nat \<Rightarrow> nat \<Rightarrow> 'w env \<Rightarrow> 'w proc_ops \<Rightarrow> (string \<Rightarrow> string option) \<Rightarrow> string list \<Rightarrow> 'w \<Rightarrow> (int \<times> 'w) outcome" where
  "spegla_main n depth e pr getenv argv w =
     (case bindO (config n (e_os e) getenv argv w) (\<lambda>p.
             bindO (check_minfree pr (the (p_minfree p)) (the (p_localdir p)) w) (\<lambda>_. Ret p)) of
        Exit k \<Rightarrow> Ret (k, w)
      | Ret p \<Rightarrow>
        (let (err, w) = open_log pr (p_logfile p) w in
         if err \<noteq> None then Ret (1, w)
         else case p_lockfile p of None \<Rightarrow> run_mirror depth e pr p w
         | Some f \<Rightarrow>
           (let (err, w) = pr_create_excl pr f w in
            if err \<noteq> None then Ret (1, w) else run_mirror depth e pr p w))
      | _ \<Rightarrow> Undef)"


section \<open>How the login ends\<close>

text \<open>Every failed login takes one retry away; after the last one there are two more attempts.\<close>

lemma login_loop_ends:
  assumes "\<And>w. ftp_login (e_fuel e) (e_nt e) True (the (p_host p)) (the (p_port p)) (the (p_username p)) (the (p_password p))
      (the (p_loglevel p)) w \<noteq> None"
  shows "- 1 \<le> retries \<Longrightarrow> nat (retries + 1) < k \<Longrightarrow>
    (\<exists>s'. login_loop k e p retries s = Quit 1 s') \<or>
    (\<exists>c r s'. login_loop k e p retries s = Done (c, r) s' \<and> - 1 \<le> r \<and> r \<le> retries)"
proof (induction k arbitrary: retries s)
  case (Suc k)
  obtain c w where l: "ftp_login (e_fuel e) (e_nt e) True (the (p_host p)) (the (p_port p)) (the (p_username p))
      (the (p_password p)) (the (p_loglevel p)) (world s) = Some (c, w)" using assms by fastforce
  show ?case
  proof (cases "c = None \<and> 0 \<le> retries")
    case False
    then show ?thesis using l Suc.prems by (cases c) auto
  next
    case True
    let ?s = "s\<lparr>world := os_sleep (e_os e) (sp_retrytime s) w\<rparr>"
    have "login_loop (Suc k) e p retries s = login_loop k e p (retries - 1) ?s" using l True by simp
    moreover have "(\<exists>s'. login_loop k e p (retries - 1) ?s = Quit 1 s') \<or>
        (\<exists>c r s'. login_loop k e p (retries - 1) ?s = Done (c, r) s' \<and> - 1 \<le> r \<and> r \<le> retries - 1)"
      using True Suc.prems by (intro Suc.IH) auto
    ultimately show ?thesis by (auto simp del: login_loop.simps) 
  qed
qed simp

lemma login_loop_refused:
  assumes "\<And>w. \<exists>w'. ftp_login (e_fuel e) (e_nt e) True (the (p_host p)) (the (p_port p)) (the (p_username p)) (the (p_password p))
      (the (p_loglevel p)) w = Some (None, w')"
  shows "- 1 \<le> retries \<Longrightarrow> nat (retries + 1) < k \<Longrightarrow> \<exists>s'. login_loop k e p retries s = Quit 1 s'"
proof (induction k arbitrary: retries s)
  case (Suc k)
  obtain w where l: "ftp_login (e_fuel e) (e_nt e) True (the (p_host p)) (the (p_port p)) (the (p_username p))
      (the (p_password p)) (the (p_loglevel p)) (world s) = Some (None, w)" using assms by blast
  show ?case
  proof (cases "retries < 0")
    case False
    have "\<exists>s'. login_loop k e p (retries - 1) (s\<lparr>world := os_sleep (e_os e) (sp_retrytime s) w\<rparr>) = Quit 1 s'"
      using False Suc.prems by (intro Suc.IH) auto
    then show ?thesis using l False by simp
  qed (use l in simp)
qed simp

section \<open>Deletes\<close>

lemma frame_login_loop [frame_rules]: "del_frame s0 s \<Longrightarrow> run_inv (del_frame s0) (login_loop k e p r s)"
proof (induction k arbitrary: r s)
  case (Suc k)
  show ?case unfolding login_loop.simps by (intro frame_rules Suc.IH; simp add: Suc.prems)
qed simp

lemma frame_mirror: "del_frame s0 s \<Longrightarrow> run_inv (del_frame s0) (mirror depth e p s)"
  unfolding mirror_def by (intro frame_rules frame_sp_sync_dir; simp)


text \<open>The numbers of a configuration that is accepted.\<close>

lemma config_numbers:
  assumes "config n os getenv argv w = Ret p"
  shows "0 \<le> the (p_maxdelete p)" "0 \<le> the (p_retries p)"
proof -
  obtain q v v' where q: "param_ok q" "p = (config_defaults getenv q)\<lparr>p_logfile := v, p_lockfile := v'\<rparr>"
    by (rule config_shape [OF assms])
  then show "0 \<le> the (p_maxdelete p)" "0 \<le> the (p_retries p)"
    by (auto simp: param_ok_def config_defaults_def default_num_def num_ok_def)
qed

section \<open>The lock\<close>

lemma leave_unlocks:
  assumes "leave e pr wd (Some f) n w = Ret (k, w')" "\<And>d w. wd = Some d \<Longrightarrow> fst (pr_chdir pr d w) = None"
    "\<And>w. \<not> locked (snd (os_unlink (e_os e) f w))"
  shows "\<not> locked w'"
proof (cases wd)
  case None
  then show ?thesis using assms(1,3) by (auto simp: leave_def remove_lock_def Let_def)
next
  case (Some d)
  obtain w1 where "pr_chdir pr d (pr_unbecome pr w) = (None, w1)"
    using assms(2) [OF Some, of "pr_unbecome pr w"] by (cases "pr_chdir pr d (pr_unbecome pr w)") auto
  then show ?thesis using assms(1,3) Some by (auto simp: leave_def remove_lock_def Let_def)
qed

lemma run_mirror_unlocks:
  assumes "run_mirror depth e pr p w = Ret (k, w')" "p_lockfile p = Some f"
    "\<And>w w'. fst (pr_chdir pr (pr_getcwd pr w) w') = None" "\<And>w. \<not> locked (snd (os_unlink (e_os e) f w))"
  shows "\<not> locked w'"
proof -
  have "\<exists>wd n w1. leave e pr wd (Some f) n w1 = Ret (k, w') \<and> (\<forall>d. wd = Some d \<longrightarrow> (\<exists>w. d = pr_getcwd pr w))"
    using assms(1,2)
    by (fastforce simp: run_mirror_def Let_def split: prod.splits if_splits run.splits option.splits)
  then show ?thesis using leave_unlocks [of e pr _ f] assms(3,4) by metis
qed

section \<open>Properties\<close>

text \<open>
  C5. From the command line to the files: a run of the program with an accepted configuration
  never counts more deletes than \<open>maxdelete\<close> (0 is no limit), and counts none at all unless \<open>dodelete\<close>
  is set, however the run ends.
\<close>

theorem main_delete_limit:
  assumes "config n os getenv argv w0 = Ret p"
  shows "run_inv (\<lambda>t. (the (p_maxdelete p) \<noteq> 0 \<longrightarrow> sp_deletes t \<le> the (p_maxdelete p)) \<and>
    (the (p_dodelete p) = 0 \<longrightarrow> sp_deletes t = 0)) (mirror depth e p (start_state p w))"
proof (rule run_inv_mono [OF frame_mirror [OF del_frame_refl]])
  fix t assume "del_frame (start_state p w) t"
  then show "(the (p_maxdelete p) \<noteq> 0 \<longrightarrow> sp_deletes t \<le> the (p_maxdelete p)) \<and> (the (p_dodelete p) = 0 \<longrightarrow> sp_deletes t = 0)"
    using config_numbers(1) [OF assms] by (auto simp: del_frame_def start_state_def)
qed

theorem main_delete_limit_witness:
  "run_inv (\<lambda>t. sp_deletes t = 0) (mirror 3 sample_env sample_param (start_state sample_param []))"
proof -
  obtain n where "config n fs_os (\<lambda>_. None) sample_argv [] = Ret sample_param" by (rule exE [OF sample_config])
  from main_delete_limit [OF this, of 3 sample_env "[]"] show ?thesis
    by (rule run_inv_mono) (simp add: sample_param_def config_defaults_def param_zero_def default_num_def)
qed

text \<open>
  C33. The login of the program ends: with \<open>retries\<close> from an accepted configuration there are at most
  \<open>retries + 2\<close> attempts. Either a login succeeds and the connection gets the retries that are left,
  or the process ends with code 1; it does so if every login fails.
\<close>

theorem login_attempts:
  assumes "config n os getenv argv w0 = Ret p"
    "\<And>w. ftp_login (e_fuel e) (e_nt e) True (the (p_host p)) (the (p_port p)) (the (p_username p)) (the (p_password p))
      (the (p_loglevel p)) w \<noteq> None"
  shows "((\<exists>s'. login_loop (nat (the (p_retries p)) + 2) e p (the (p_retries p)) s = Quit 1 s') \<or>
      (\<exists>c r s'. login_loop (nat (the (p_retries p)) + 2) e p (the (p_retries p)) s = Done (c, r) s' \<and>
        - 1 \<le> r \<and> r \<le> the (p_retries p))) \<and>
    ((\<forall>w. \<exists>w'. ftp_login (e_fuel e) (e_nt e) True (the (p_host p)) (the (p_port p)) (the (p_username p)) (the (p_password p))
        (the (p_loglevel p)) w = Some (None, w')) \<longrightarrow>
      (\<exists>s'. login_loop (nat (the (p_retries p)) + 2) e p (the (p_retries p)) s = Quit 1 s'))"
proof -
  have r: "- 1 \<le> the (p_retries p)" "nat (the (p_retries p) + 1) < nat (the (p_retries p)) + 2"
    using config_numbers(2) [OF assms(1)] by auto
  show ?thesis
    using login_loop_ends [where e = e and p = p, OF assms(2) r, of s] login_loop_refused [where e = e and p = p, OF _ r, of s]
    by blast
qed

lemma no_net_login: "ftp_login k no_net True host port user pw v w = Some (None, w)"
  by (simp add: ftp_login_def ftp_relogin_def no_net_def close_com_def close_data_def close_listen_def Let_def)

theorem login_attempts_witness:
  "\<exists>s'. login_loop (nat (the (p_retries sample_param)) + 2) sample_env sample_param (the (p_retries sample_param))
     (start_state sample_param []) = Quit 1 s'"
proof -
  obtain n where n: "config n fs_os (\<lambda>_. None) sample_argv [] = Ret sample_param" by (rule exE [OF sample_config])
  have refused: "\<And>host port user pw v w. ftp_login (e_fuel sample_env) (e_nt sample_env) True host port user pw v w = Some (None, w)"
    by (simp add: sample_env_def no_net_login)
  show ?thesis
    using login_attempts [OF n, where e = sample_env and s = "start_state sample_param []"]
    by (simp add: refused del: login_loop.simps)
qed


definition sample_proc :: "fs proc_ops" where
  "sample_proc = \<lparr>pr_free = (\<lambda>w p. Ret 0), pr_append = (\<lambda>f w. (None, w)),
     pr_create_excl = (\<lambda>f. fs_create f sample_file), pr_become = (\<lambda>u w. (None, w)), pr_unbecome = id,
     pr_getcwd = (\<lambda>w. ''/''), pr_chdir = (\<lambda>d w. (None, w))\<rparr>"


end
