(* ===== verification/Spegla_Exit.thy ===== *)
theory Spegla_Exit
  imports Tgetopt_Err Jftp
begin

text \<open>
  How the program ends (spegla.c 180-267 and the calls of \<open>atexit\<close> in \<open>main\<close>, 1132 and 1359-1407): the
  exit handlers, which run in the reverse order of their registration, the signals that call \<open>exit\<close> at
  any moment, and the statistics. Processes are states of a step relation; what the steps of \<open>main\<close> do
  beside it is in Spegla_Main.
\<close>

section \<open>Statistics\<close>

text \<open>
  \<open>ctime\<close> and the rate, a quotient of floating point numbers printed with two digits, are arguments.
\<close>

definition stats_lines ::
  "(int \<Rightarrow> string) \<Rightarrow> (64 word \<Rightarrow> int \<Rightarrow> string) \<Rightarrow> int \<Rightarrow> int \<Rightarrow> int \<Rightarrow> int \<Rightarrow> ftp_con option \<Rightarrow> string list" where
  "stats_lines ctime rate now start_time dirs deletes con =
     [''Spegla finished at '' @ ctime now,
      ''dirs traversed        : '' @ dec_int dirs,
      ''files deleted         : '' @ dec_int deletes] @
     (case con of None \<Rightarrow> []
      | Some c \<Rightarrow>
        [''bytes recieved        : '' @ dec (unat (ftp_recd c)),
         ''bytes sent            : '' @ dec (unat (ftp_sent c))] @
        (if now - start_time \<noteq> 0 then [''average download rate : '' @ rate (ftp_recd c) (now - start_time) @ '' K/sec''] else []) @
        [''number of relogins    : '' @ dec_int (ftp_relogins c),
         ''files downloaded      : '' @ dec_int (ftp_downloads c),
         ''number of timeouts    : '' @ dec_int (ftp_timeouts c)])"

fun warn_all :: "string list \<Rightarrow> e_st \<Rightarrow> (e_st, unit) run" where
  "warn_all [] s = Done () s"
| "warn_all (l # ls) s = bindR (e_warnx l s) (\<lambda>_ s. warn_all ls s)"

definition print_stats ::
  "(int \<Rightarrow> string) \<Rightarrow> (64 word \<Rightarrow> int \<Rightarrow> string) \<Rightarrow> int \<Rightarrow> int \<Rightarrow> int \<Rightarrow> int \<Rightarrow> ftp_con option \<Rightarrow> e_st \<Rightarrow> (e_st, unit) run" where
  "print_stats ctime rate now start_time dirs deletes con =
     warn_all (stats_lines ctime rate now start_time dirs deletes con)"

text \<open>Each line goes to the log file, in order, as the message it makes with the line end that is set.\<close>

lemma warn_all_written:
  assumes "e_inited s" "clean s" "e_use_f s" "e_fp s = Some f"
    and "\<And>l. l \<in> set ls \<Longrightarrow> no_nul l \<and> e_buf_file s (message (e_pname s) None l) = Ret (out l)"
  shows "warn_all ls s = Done () (s\<lparr>e_written := e_written s @ map (\<lambda>l. (f, out l)) ls\<rparr>)"
  using assms
proof (induction ls arbitrary: s)
  case (Cons l ls)
  let ?t = "s\<lparr>e_written := e_written s @ [(f, out l)]\<rparr>"
  have "e_warnx l s = Done () ?t"
    using Cons.prems
    by (simp add: CHK_INIT_def e_warnx_def e_vwarnx_def e_vwarnx_file_def msg_file_clean sent_file_def)
  moreover have "warn_all ls ?t = Done () (?t\<lparr>e_written := e_written ?t @ map (\<lambda>l. (f, out l)) ls\<rparr>)"
    using Cons.prems by (intro Cons.IH) (auto simp: clean_def e_buf_file_def)
  ultimately show ?case by simp
qed simp

section \<open>The process\<close>

datatype exit_handler = Clean_up_vars | Remove_lock | Print_stats

text \<open>The signals that \<open>setup_signals\<close> names, and one that it does not.\<close>

datatype signal = SIGQUIT | SIGTERM | SIGINT | SIGPIPE | SIGHUP

datatype disposition = SIG_DFL | Signal_handler | SIG_IGN

text \<open>How far \<open>main\<close> is, as far as the end of the program depends on it.\<close>

datatype point = Setup | Signals_set | Cleanup_registered | Lock_created | Lock_registered | Lock_named
  | Stats_registered | Wd_allocated | Wd_known | Connected

datatype mode = Running | Exiting int | Ended int | Killed | Undefined

text \<open>\<open>start_wd\<close>: \<open>NULL\<close>, allocated but not yet written, a path, freed; \<open>connection\<close> in the same way.\<close>

datatype wd = No_wd | Unwritten | Known | Freed_wd

datatype con = No_con | Open_con | Freed_con

record process =
  x_mode :: mode
  x_point :: point
  x_exits :: nat
  x_handlers :: "exit_handler list"
  x_ran :: "exit_handler list"
  x_disp :: "signal \<Rightarrow> disposition"
  x_lock :: bool
  x_lock_file :: bool
  x_wd :: wd
  x_con :: con

text \<open>What the process does not decide: whether a lock file is asked for, and whether \<open>getcwd\<close>,
  \<open>chdir\<close> back and \<open>unlink\<close> work.\<close>

record circumstances =
  with_lock :: bool
  getcwd_ok :: bool
  chdir_ok :: bool
  unlink_ok :: bool

definition process_start :: process where
  "process_start = \<lparr>x_mode = Running, x_point = Setup, x_exits = 0, x_handlers = [], x_ran = [], x_disp = (\<lambda>_. SIG_DFL),
     x_lock = False, x_lock_file = False, x_wd = No_wd, x_con = No_con\<rparr>"

definition setup_signals :: "(signal \<Rightarrow> disposition) \<Rightarrow> signal \<Rightarrow> disposition" where
  "setup_signals d = d(SIGQUIT := Signal_handler, SIGTERM := Signal_handler, SIGINT := Signal_handler, SIGPIPE := SIG_IGN)"

definition atexit :: "exit_handler \<Rightarrow> process \<Rightarrow> process" where
  "atexit h x = x\<lparr>x_handlers := h # x_handlers x\<rparr>"

text \<open>\<open>exit\<close>; a second call, from a signal while handlers run, is undefined.\<close>

definition call_exit :: "int \<Rightarrow> process \<Rightarrow> process" where
  "call_exit n x = x\<lparr>x_exits := x_exits x + 1, x_mode := if x_mode x = Running then Exiting n else Undefined\<rparr>"

definition signal_handler :: "process \<Rightarrow> process" where
  "signal_handler x = call_exit 2 x"

definition clean_up_vars :: "process \<Rightarrow> process" where
  "clean_up_vars x = x\<lparr>x_con := if x_con x = Open_con then Freed_con else x_con x\<rparr>"

definition remove_lock_file :: "circumstances \<Rightarrow> process \<Rightarrow> process" where
  "remove_lock_file e x =
     (if x_wd x = Unwritten \<or> x_wd x = Freed_wd then x\<lparr>x_mode := Undefined\<rparr>
      else let y = (if x_wd x = Known then x\<lparr>x_wd := Freed_wd\<rparr> else x) in
        if x_wd x = Known \<and> \<not> chdir_ok e then y
        else y\<lparr>x_lock := x_lock x \<and> \<not> (x_lock_file x \<and> unlink_ok e)\<rparr>)"

text \<open>Of the statistics only the look at the connection matters here.\<close>

definition run_handler :: "circumstances \<Rightarrow> exit_handler \<Rightarrow> process \<Rightarrow> process" where
  "run_handler e h x =
     (case h of Clean_up_vars \<Rightarrow> clean_up_vars x
      | Remove_lock \<Rightarrow> remove_lock_file e x
      | Print_stats \<Rightarrow> if x_con x = Freed_con then x\<lparr>x_mode := Undefined\<rparr> else x)"

text \<open>The next step of \<open>main\<close>, and the points from which it may end the program by \<open>e_err\<close> or \<open>e_errx\<close>.\<close>

fun advance :: "circumstances \<Rightarrow> point \<Rightarrow> process \<Rightarrow> process" where
  "advance e Setup x = x\<lparr>x_point := Signals_set, x_disp := setup_signals (x_disp x)\<rparr>"
| "advance e Signals_set x = (atexit Clean_up_vars x)\<lparr>x_point := Cleanup_registered\<rparr>"
| "advance e Cleanup_registered x =
     (if with_lock e then x\<lparr>x_point := Lock_created, x_lock := True\<rparr> else x\<lparr>x_point := Lock_named\<rparr>)"
| "advance e Lock_created x = (atexit Remove_lock x)\<lparr>x_point := Lock_registered\<rparr>"
| "advance e Lock_registered x = x\<lparr>x_point := Lock_named, x_lock_file := True\<rparr>"
| "advance e Lock_named x = (atexit Print_stats x)\<lparr>x_point := Stats_registered\<rparr>"
| "advance e Stats_registered x = x\<lparr>x_point := Wd_allocated, x_wd := Unwritten\<rparr>"
| "advance e Wd_allocated x = x\<lparr>x_point := Wd_known, x_wd := if getcwd_ok e then Known else x_wd x\<rparr>"
| "advance e Wd_known x = x\<lparr>x_point := Connected, x_con := Open_con\<rparr>"
| "advance e Connected x = call_exit 0 x"

definition can_fail :: "point \<Rightarrow> bool" where
  "can_fail p \<longleftrightarrow> p \<in> {Signals_set, Cleanup_registered, Stats_registered, Wd_known, Connected}"

inductive process_step :: "circumstances \<Rightarrow> process \<Rightarrow> process \<Rightarrow> bool" for e where
  main_step: "x_mode x = Running \<Longrightarrow> process_step e x (advance e (x_point x) x)"
| main_error: "x_mode x = Running \<Longrightarrow> can_fail (x_point x) \<Longrightarrow> process_step e x (call_exit 1 x)"
| signal_caught: "x_mode x = Running \<or> x_mode x = Exiting n \<Longrightarrow> x_disp x s = Signal_handler \<Longrightarrow> process_step e x (signal_handler x)"
| signal_kills: "x_mode x = Running \<or> x_mode x = Exiting n \<Longrightarrow> x_disp x s = SIG_DFL \<Longrightarrow> process_step e x (x\<lparr>x_mode := Killed\<rparr>)"
| signal_ignored: "x_disp x s = SIG_IGN \<Longrightarrow> process_step e x x"
| handler_step: "x_mode x = Exiting n \<Longrightarrow> x_handlers x = h # hs \<Longrightarrow>
    process_step e x (run_handler e h (x\<lparr>x_handlers := hs, x_ran := x_ran x @ [h]\<rparr>))"
| exit_step: "x_mode x = Exiting n \<Longrightarrow> x_handlers x = [] \<Longrightarrow> process_step e x (x\<lparr>x_mode := Ended n\<rparr>)"

inductive reachable :: "circumstances \<Rightarrow> process \<Rightarrow> bool" for e where
  reach_start: "reachable e process_start"
| reach_step: "reachable e x \<Longrightarrow> process_step e x y \<Longrightarrow> reachable e y"

section \<open>What holds in every reachable state\<close>

text \<open>The handlers that are registered, the lock and the two pointers, at each point of \<open>main\<close>.\<close>

definition past_lock :: "point \<Rightarrow> bool" where
  "past_lock p \<longleftrightarrow> p \<in> {Lock_named, Stats_registered, Wd_allocated, Wd_known, Connected}"

definition registered :: "circumstances \<Rightarrow> point \<Rightarrow> exit_handler list" where
  "registered e p =
     (if p \<in> {Stats_registered, Wd_allocated, Wd_known, Connected} then [Print_stats] else []) @
     (if p = Lock_registered \<or> past_lock p \<and> with_lock e then [Remove_lock] else []) @
     (if p \<in> {Setup, Signals_set} then [] else [Clean_up_vars])"

definition wd_at :: "circumstances \<Rightarrow> point \<Rightarrow> wd" where
  "wd_at e p =
     (if p = Wd_allocated \<or> p \<in> {Wd_known, Connected} \<and> \<not> getcwd_ok e then Unwritten
      else if p \<in> {Wd_known, Connected} then Known else No_wd)"

definition con_at :: "point \<Rightarrow> con" where
  "con_at p = (if p = Connected then Open_con else No_con)"

definition lock_at :: "circumstances \<Rightarrow> point \<Rightarrow> bool" where
  "lock_at e p \<longleftrightarrow> p \<in> {Lock_created, Lock_registered} \<or> past_lock p \<and> with_lock e"

text \<open>The lock goes when \<open>remove_lock\<close> knows its name, gets back to where it was made and may remove it.\<close>

definition lock_goes :: "circumstances \<Rightarrow> point \<Rightarrow> bool" where
  "lock_goes e p \<longleftrightarrow> past_lock p \<and> with_lock e \<and> unlink_ok e \<and> (wd_at e p = Known \<longrightarrow> chdir_ok e)"

lemmas at_defs = past_lock_def registered_def wd_at_def con_at_def lock_at_def lock_goes_def

text \<open>Which exit status can come from which point.\<close>

definition status_ok :: "point \<Rightarrow> int \<Rightarrow> bool" where
  "status_ok p n \<longleftrightarrow> (n = 0 \<and> p = Connected) \<or> (n = 1 \<and> can_fail p) \<or> (n = 2 \<and> p \<noteq> Setup)"

text \<open>What the fields are when the handlers of \<open>ran\<close> have run.\<close>

definition fields_ok :: "circumstances \<Rightarrow> process \<Rightarrow> bool" where
  "fields_ok e x \<longleftrightarrow>
     x_ran x @ x_handlers x = registered e (x_point x) \<and>
     x_lock_file x = (past_lock (x_point x) \<and> with_lock e) \<and>
     x_lock x = (lock_at e (x_point x) \<and> \<not> (Remove_lock \<in> set (x_ran x) \<and> lock_goes e (x_point x))) \<and>
     x_wd x = (if Remove_lock \<in> set (x_ran x) \<and> wd_at e (x_point x) = Known then Freed_wd else wd_at e (x_point x)) \<and>
     x_con x = (if Clean_up_vars \<in> set (x_ran x) \<and> con_at (x_point x) = Open_con then Freed_con else con_at (x_point x))"

definition process_ok :: "circumstances \<Rightarrow> process \<Rightarrow> bool" where
  "process_ok e x \<longleftrightarrow>
     x_disp x = (if x_point x = Setup then (\<lambda>_. SIG_DFL) else setup_signals (\<lambda>_. SIG_DFL)) \<and>
     (x_point x \<in> {Lock_created, Lock_registered} \<longrightarrow> with_lock e) \<and>
     (case x_mode x of
        Running \<Rightarrow> fields_ok e x \<and> x_ran x = [] \<and> x_exits x = 0
      | Exiting n \<Rightarrow> fields_ok e x \<and> x_exits x = 1 \<and> status_ok (x_point x) n
      | Ended n \<Rightarrow> fields_ok e x \<and> x_exits x = 1 \<and> status_ok (x_point x) n \<and> x_handlers x = []
      | Killed \<Rightarrow> True
      | Undefined \<Rightarrow> 2 \<le> x_exits x \<or> wd_at e (x_point x) = Unwritten)"

lemma process_start_ok: "process_ok e process_start"
  by (simp add: process_ok_def process_start_def fields_ok_def at_defs)

lemma advance_ok:
  assumes "process_ok e x" "x_mode x = Running"
  shows "process_ok e (advance e (x_point x) x)"
  using assms
  by (cases "x_point x")
    (auto simp: process_ok_def fields_ok_def at_defs atexit_def call_exit_def status_ok_def)

lemma run_handler_ok:
  assumes "process_ok e x" "x_mode x = Exiting n" "x_handlers x = h # hs"
  shows "process_ok e (run_handler e h (x\<lparr>x_handlers := hs, x_ran := x_ran x @ [h]\<rparr>))"
proof -
  have *: "x_ran x @ h # hs = registered e (x_point x)"
    using assms by (simp add: process_ok_def fields_ok_def)
  have "h \<notin> set (x_ran x)" "h = Print_stats \<Longrightarrow> Clean_up_vars \<notin> set (x_ran x)"
    using * by (auto simp: registered_def append_eq_Cons_conv append_eq_append_conv2 Cons_eq_append_conv split: if_splits)
  then show ?thesis
    using assms
    by (cases h)
      (auto simp: run_handler_def clean_up_vars_def remove_lock_file_def process_ok_def fields_ok_def
        lock_goes_def wd_at_def con_at_def Let_def split: if_splits)
qed

lemma call_exit_ok:
  assumes "process_ok e x" "x_mode x = Running \<and> status_ok (x_point x) n \<or> x_mode x = Exiting m"
  shows "process_ok e (call_exit n x)"
proof (cases "x_mode x = Running")
  case True
  have "fields_ok e (call_exit n x) = fields_ok e x" by (simp add: fields_ok_def call_exit_def)
  then show ?thesis using assms True by (cases "x_point x = Setup") (simp_all add: process_ok_def, simp_all add: call_exit_def)
next
  case False
  then have "x_mode x = Exiting m" using assms(2) by blast
  then show ?thesis using assms(1) by (simp add: process_ok_def call_exit_def)
qed

lemma process_step_ok:
  assumes "process_step e x y" "process_ok e x"
  shows "process_ok e y"
  using assms
proof cases
  case main_error
  then show ?thesis using assms(2) by (simp add: call_exit_ok status_ok_def)
next
  case (signal_caught n s)
  then have "x_point x \<noteq> Setup" using assms(2) by (auto simp: process_ok_def)
  then show ?thesis using signal_caught assms(2)
    by (auto simp: signal_handler_def status_ok_def intro!: call_exit_ok)
next
  case (signal_kills n s)
  then show ?thesis using assms(2) by (auto simp: process_ok_def)
next
  case (exit_step n)
  then show ?thesis using assms(2) by (simp add: process_ok_def fields_ok_def)
qed (simp_all add: advance_ok run_handler_ok)

lemma reachable_ok: "reachable e x \<Longrightarrow> process_ok e x"
  by (induction rule: reachable.induct) (simp_all add: process_start_ok process_step_ok)

section \<open>The lock\<close>


text \<open>A signal between \<open>open\<close> and the next two statements.\<close>

definition lucky :: circumstances where
  "lucky = \<lparr>with_lock = True, getcwd_ok = True, chdir_ok = True, unlink_ok = True\<rparr>"

fun main_steps :: "circumstances \<Rightarrow> nat \<Rightarrow> process \<Rightarrow> process" where
  "main_steps e 0 x = x"
| "main_steps e (Suc n) x = main_steps e n (advance e (x_point x) x)"

lemma advance_running: "x_mode x = Running \<Longrightarrow> x_point x \<noteq> Connected \<Longrightarrow> x_mode (advance e (x_point x) x) = Running"
  by (cases "x_point x") (simp_all add: atexit_def)

text \<open>The points that \<open>main\<close> passes, with a lock file.\<close>

fun point_number :: "point \<Rightarrow> nat" where
  "point_number Setup = 0" | "point_number Signals_set = 1" | "point_number Cleanup_registered = 2"
| "point_number Lock_created = 3" | "point_number Lock_registered = 4" | "point_number Lock_named = 5"
| "point_number Stats_registered = 6" | "point_number Wd_allocated = 7" | "point_number Wd_known = 8"
| "point_number Connected = 9"

lemma advance_number: "x_point x \<noteq> Connected \<Longrightarrow> with_lock e \<Longrightarrow>
    point_number (x_point (advance e (x_point x) x)) = Suc (point_number (x_point x))"
  by (cases "x_point x") (simp_all add: atexit_def)

lemma reachable_main_steps:
  "reachable e x \<Longrightarrow> x_mode x = Running \<Longrightarrow> with_lock e \<Longrightarrow> point_number (x_point x) + n \<le> 9 \<Longrightarrow>
    reachable e (main_steps e n x) \<and> x_mode (main_steps e n x) = Running"
proof (induction n arbitrary: x)
  case (Suc n)
  then have "x_point x \<noteq> Connected" by auto
  then show ?case using Suc
    by (simp add: advance_running advance_number reach_step [OF _ main_step])
qed simp

lemma reachable_lucky: "n \<le> 9 \<Longrightarrow> reachable lucky (main_steps lucky n process_start) \<and> x_mode (main_steps lucky n process_start) = Running"
  by (rule reachable_main_steps) (simp_all add: reach_start, simp_all add: process_start_def lucky_def)

definition killed_at_lock :: process where
  "killed_at_lock = (signal_handler (main_steps lucky 3 process_start))\<lparr>x_mode := Ended 2, x_handlers := [], x_ran := [Clean_up_vars]\<rparr>"

lemma reachable_killed_at_lock: "reachable lucky killed_at_lock"
proof -
  let ?x = "main_steps lucky 3 process_start"
  have s: "process_step lucky ?x (signal_handler ?x)"
    using reachable_lucky [of 3] by (intro signal_caught [of _ 0 SIGTERM])
      (simp_all add: numeral_3_eq_3 process_start_def setup_signals_def atexit_def lucky_def)
  let ?y = "run_handler lucky Clean_up_vars ((signal_handler ?x)\<lparr>x_handlers := [], x_ran := [Clean_up_vars]\<rparr>)"
  have "process_step lucky (signal_handler ?x) ?y"
    using handler_step [of "signal_handler ?x" 2 Clean_up_vars "[]" lucky]
    by (simp add: numeral_3_eq_3 process_start_def signal_handler_def call_exit_def atexit_def lucky_def)
  moreover have "process_step lucky ?y killed_at_lock"
    using exit_step [of ?y 2 lucky]
    by (simp add: numeral_3_eq_3 process_start_def signal_handler_def call_exit_def atexit_def lucky_def
        run_handler_def clean_up_vars_def killed_at_lock_def)
  moreover have "reachable lucky (signal_handler ?x)"
    by (rule reach_step [OF _ s]) (simp add: reachable_lucky)
  ultimately show ?thesis by (meson reach_step)
qed


section \<open>What can go wrong\<close>

text \<open>
  The end of the process is undefined in two ways only: a second call of \<open>exit\<close>, which a signal makes
  while the handlers run, or a signal or error that makes \<open>remove_lock\<close> use \<open>start_wd\<close> before it was written.
\<close>

theorem exit_undefined_causes:
  assumes "reachable e x" "x_mode x = Undefined"
  shows "2 \<le> x_exits x \<or> x_point x = Wd_allocated \<or> (x_point x \<in> {Wd_known, Connected} \<and> \<not> getcwd_ok e)"
  using reachable_ok [OF assms(1)] assms(2) by (auto simp: process_ok_def wd_at_def split: if_splits)

lemma reachable_signal:
  assumes "reachable e x" "x_mode x = Running \<or> x_mode x = Exiting n" "x_point x \<noteq> Setup"
  shows "reachable e (signal_handler x)"
proof -
  have "x_disp x SIGTERM = Signal_handler"
    using reachable_ok [OF assms(1)] assms(3) by (simp add: process_ok_def setup_signals_def)
  then show ?thesis using assms(1,2) by (blast intro: reach_step signal_caught)
qed

definition signalled_twice :: process where
  "signalled_twice = signal_handler (signal_handler (main_steps lucky 1 process_start))"

lemma exit_undefined_causes_witness: "x_mode signalled_twice = Undefined \<and> 2 \<le> x_exits signalled_twice"
proof -
  let ?x = "main_steps lucky 1 process_start"
  have p: "x_point ?x = Signals_set" "x_exits ?x = 0" by (simp_all add: process_start_def)
  have r: "reachable lucky ?x" "x_mode ?x = Running" using reachable_lucky [of 1] by (simp_all del: main_steps.simps)
  have "reachable lucky (signal_handler ?x)" using reachable_signal [of lucky ?x] r p by simp
  then have "reachable lucky signalled_twice"
    unfolding signalled_twice_def using reachable_signal [of lucky "signal_handler ?x" 2] r p
    by (simp add: signal_handler_def call_exit_def)
  moreover have m: "x_mode signalled_twice = Undefined" "x_point signalled_twice = Signals_set"
    using r p by (simp_all add: signalled_twice_def signal_handler_def call_exit_def)
  ultimately show ?thesis using exit_undefined_causes [of lucky signalled_twice] by simp
qed

text \<open>An error between \<open>malloc\<close> and \<open>getcwd\<close> cannot come from \<open>main\<close>; a signal there can.\<close>

lemma signal_before_getcwd:
  "\<exists>x. reachable lucky x \<and> x_mode x = Undefined \<and> x_exits x = 1"
proof -
  let ?x = "main_steps lucky 7 process_start"
  have p: "x_point ?x = Wd_allocated" "x_handlers ?x = [Print_stats, Remove_lock, Clean_up_vars]" "x_wd ?x = Unwritten"
    "x_exits ?x = 0" "x_con ?x = No_con"
    by (simp_all add: process_start_def eval_nat_numeral lucky_def atexit_def)
  have r: "reachable lucky ?x" "x_mode ?x = Running" by (simp_all add: reachable_lucky)
  let ?y = "signal_handler ?x"
  have "reachable lucky ?y" using reachable_signal [of lucky ?x] r p by simp
  moreover have q: "x_mode ?y = Exiting 2" "x_handlers ?y = [Print_stats, Remove_lock, Clean_up_vars]" "x_con ?y = No_con"
    "x_wd ?y = Unwritten" "x_exits ?y = 1"
    using r p by (simp_all add: signal_handler_def call_exit_def)
  let ?z = "run_handler lucky Print_stats (?y\<lparr>x_handlers := [Remove_lock, Clean_up_vars], x_ran := x_ran ?y @ [Print_stats]\<rparr>)"
  have "process_step lucky ?y ?z" by (rule handler_step) (simp_all add: q)
  ultimately have z: "reachable lucky ?z" by (rule reach_step)
  have h: "x_mode ?z = Exiting 2" "x_handlers ?z = [Remove_lock, Clean_up_vars]" "x_wd ?z = Unwritten" "x_exits ?z = 1"
    by (simp_all add: run_handler_def q)
  have "process_step lucky ?z (run_handler lucky Remove_lock (?z\<lparr>x_handlers := [Clean_up_vars], x_ran := x_ran ?z @ [Remove_lock]\<rparr>))"
    by (rule handler_step) (simp_all only: h)
  then have "reachable lucky (run_handler lucky Remove_lock (?z\<lparr>x_handlers := [Clean_up_vars], x_ran := x_ran ?z @ [Remove_lock]\<rparr>))"
    by (rule reach_step [OF z])
  moreover have "x_mode (run_handler lucky Remove_lock (w\<lparr>x_handlers := hs, x_ran := rs\<rparr>)) = Undefined"
    "x_exits (run_handler lucky Remove_lock (w\<lparr>x_handlers := hs, x_ran := rs\<rparr>)) = x_exits w" if "x_wd w = Unwritten" for w hs rs
    using that by (simp_all add: run_handler_def remove_lock_file_def)
  ultimately show ?thesis using h by metis
qed

section \<open>The handlers run to the end\<close>



end
