(* ===== verification/Listing.thy ===== *)
theory Listing
  imports Sync_Plan
begin

text \<open>
  From the text of a listing to the heap the merge works on: what \<open>build_remote_dir\<close> (spegla.c 302-357) makes
  of the output of \<open>ls -l\<close>, and \<open>build_local_dir\<close> of a directory. The rows are read by Parserow and pushed to
  the heap of Heap_List; the result is a \<open>listing\<close> in the sense of Sync_Plan.
\<close>

section \<open>Listings as a server prints them\<close>

text \<open>A row with a year; \<open>ls_group\<close> and \<open>ls_link\<close> may be absent.\<close>

record ls_row =
  ls_type :: sp_ftype
  ls_mode :: "32 word"
  ls_links :: string
  ls_user :: string
  ls_group :: "string option"
  ls_size :: nat
  ls_month :: nat
  ls_day :: nat
  ls_year :: nat
  ls_name :: string
  ls_link :: "string option"

definition ls_line :: "ls_row \<Rightarrow> string" where
  "ls_line r = row_head (ls_type r) (ls_mode r) (ls_links r) (ls_user r) (ls_group r) (ls_size r) (ls_month r) (ls_day r)
     (dec (ls_year r) @ '' '' @ name_field (ls_name r) (ls_link r))"

definition ls_entry :: "clock \<Rightarrow> ls_row \<Rightarrow> sp_file" where
  "ls_entry c r =
     \<lparr>spf_time = mktime c \<lparr>tm_mon = int (ls_month r), tm_mday = int (ls_day r), tm_year = int (ls_year r) - 1900,
        tm_hour = 0, tm_min = 0, tm_sec = 0\<rparr>,
      spf_tgranul = SECSPERDAY, spf_type = ls_type r, spf_opt = 0, spf_size = int (ls_size r), spf_mode = ls_mode r AND mask 12,
      spf_name = ls_name r, spf_symlink = ls_link r, spf_orig_name = None\<rparr>"

text \<open>What a row must be to be read back; a row must fit the buffer of \<open>PATH_MAX\<close> bytes with its line end.\<close>

definition ls_ok :: "ls_row \<Rightarrow> bool" where
  "ls_ok r \<longleftrightarrow> ls_type r \<noteq> UNKNOWN \<and> word_tok (ls_links r) \<and> word_tok (ls_user r) \<and>
     (\<forall>g. ls_group r = Some g \<longrightarrow> word_tok g) \<and> ls_month r < 12 \<and> int (ls_size r) < 2 ^ 63 \<and> int (ls_day r) < 2 ^ 31 \<and>
     1900 \<le> ls_year r \<and> int (ls_year r) < 2 ^ 31 \<and> name_ok (ls_type r) (ls_name r) (ls_link r) \<and>
     CHR 0x0A \<notin> set (ls_line r) \<and> last (ls_line r) \<noteq> CHR 0x0D \<and> length (ls_line r) + 3 < PATH_MAX"

definition line_end :: "bool \<Rightarrow> string" where
  "line_end crlf = (if crlf then [CHR 0x0D, CHR 0x0A] else [CHR 0x0A])"

definition ls_rows :: "bool \<Rightarrow> ls_row list \<Rightarrow> string" where
  "ls_rows crlf rows = concat (map (\<lambda>r. ls_line r @ line_end crlf) rows)"

definition ls_text :: "bool \<Rightarrow> nat option \<Rightarrow> ls_row list \<Rightarrow> string" where
  "ls_text crlf blocks rows = (case blocks of None \<Rightarrow> [] | Some n \<Rightarrow> ''total '' @ dec n @ line_end crlf) @ ls_rows crlf rows"

section \<open>One row\<close>

lemma fgets_row_end:
  assumes "CHR 0x0A \<notin> set t" "length t + 3 < PATH_MAX"
  shows "fgets PATH_MAX (t @ line_end crlf @ f) = Some (t @ line_end crlf, f)"
proof (cases crlf)
  case True
  then show ?thesis using fgets_line [of "t @ [CHR 0x0D]" PATH_MAX f] assms by (simp add: line_end_def)
next
  case False
  then show ?thesis using fgets_line [of t PATH_MAX f] assms by (simp add: line_end_def)
qed

lemma strip_line_end: "t \<noteq> [] \<Longrightarrow> last t \<noteq> CHR 0x0D \<Longrightarrow> strip_eol (t @ line_end crlf) = Ret t"
  by (auto simp: strip_eol_def line_end_def butlast_append Let_def)

lemma parse_ls_line: "ls_ok r \<Longrightarrow> parse_row c True (ls_line r) = Ret (ls_entry c r)"
  unfolding ls_line_def ls_entry_def ls_ok_def by (rule parse_row_dated) simp_all

lemma ls_line_start: "\<exists>rest. ls_line r = mode_string (ls_type r) (ls_mode r) @ '' '' @ rest"
  by (simp add: ls_line_def row_head_def)

lemma ls_line_not_Nil: "ls_line r \<noteq> []"
  using ls_line_start [of r] by (auto simp: mode_string_def)

lemma ls_line_not_total: "take 4 (drop 1 (ls_line r @ f)) \<noteq> ''otal''"
  using ls_line_start [of r] by (auto simp: mode_string_def flag_char_def split: if_splits)

text \<open>What becomes of a row; \<open>flt\<close> is the result of the treat-as-directory and skip lists.\<close>

definition kept :: "(sp_file \<Rightarrow> sp_file option) \<Rightarrow> sp_file \<Rightarrow> sp_file option" where
  "kept flt spf = (if spf_name spf = ''..'' \<or> spf_name spf = ''.'' then None else flt spf)"

lemma remote_entry_row:
  assumes "ls_ok r"
    "ls_name r \<noteq> ''..'' \<Longrightarrow> ls_name r \<noteq> ''.'' \<Longrightarrow> list_filter e s (ls_entry (e_clk e) r) = Ret (flt (ls_entry (e_clk e) r))"
  shows "remote_entry e s (ls_line r @ line_end crlf) = Ret (kept flt (ls_entry (e_clk e) r))"
  using strip_line_end [OF ls_line_not_Nil, of r crlf] parse_ls_line [OF assms(1), of "e_clk e"] assms ls_line_not_Nil [of r]
  by (auto simp: remote_entry_def kept_def ls_ok_def ls_entry_def)

section \<open>The remote listing\<close>

lemma push_all_entries:
  assumes "heap_invar spf_push_comp h" "heap_keys h < 2 ^ 30"
  shows "\<exists>h'. push_entry h x = Ret h' \<and> heap_invar spf_push_comp h' \<and>
    mset (heap_elems h') = mset (case x of None \<Rightarrow> [] | Some f \<Rightarrow> [f]) + mset (heap_elems h) \<and>
    heap_keys h' \<le> Suc (heap_keys h)"
proof (cases x)
  case (Some f)
  obtain h' where h': "heap_push True h f = Ret h'" "heap_invar spf_push_comp h'"
    "mset (heap_elems h') = add_mset f (mset (heap_elems h))"
    using heap_push_ok [OF spf_order.comparator_axioms assms(1), of f] assms(2) by (auto simp: heap_small_def)
  then have "heap_keys h' = Suc (heap_keys h)"
    using assms(1) heap_length_elems by (metis heap_invar_def size_add_mset size_mset)
  then show ?thesis using Some h' by (auto simp: push_entry_def)
qed (use assms in \<open>simp add: push_entry_def\<close>)

lemma ls_rows_Cons: "ls_rows crlf (r # rows) = ls_line r @ line_end crlf @ ls_rows crlf rows"
  by (simp add: ls_rows_def)

lemma length_ls_rows: "length rows \<le> length (ls_rows crlf rows)"
  by (induction rows) (auto simp: ls_rows_def line_end_def)

text \<open>The entries that are left of the rows.\<close>

definition entries :: "clock \<Rightarrow> (sp_file \<Rightarrow> sp_file option) \<Rightarrow> ls_row list \<Rightarrow> sp_file list" where
  "entries c flt rows = List.map_filter (\<lambda>r. kept flt (ls_entry c r)) rows"

lemma entries_Cons: "entries c flt (r # rows) = (case kept flt (ls_entry c r) of None \<Rightarrow> [] | Some f \<Rightarrow> [f]) @ entries c flt rows"
  by (simp add: entries_def map_filter_simps split: option.split)

lemma build_remote_rows:
  assumes "\<forall>r \<in> set (r # rows). ls_ok r"
    "\<forall>r \<in> set (r # rows). ls_name r \<notin> {''.'', ''..''} \<longrightarrow> list_filter e s (ls_entry (e_clk e) r) = Ret (flt (ls_entry (e_clk e) r))"
    "heap_invar spf_push_comp h" "heap_keys h + length (r # rows) \<le> 2 ^ 30" "length rows < n"
  shows "\<exists>h'. build_remote_loop n e s (ls_line r @ line_end crlf) (ls_rows crlf rows) h = Ret h' \<and>
    heap_invar spf_push_comp h' \<and> heap_keys h' \<le> heap_keys h + length (r # rows) \<and>
    mset (heap_elems h') = mset (entries (e_clk e) flt (r # rows)) + mset (heap_elems h)"
  using assms
proof (induction rows arbitrary: r h n)
  case Nil
  obtain m where n: "n = Suc m" using Nil.prems(5) by (cases n) auto
  obtain h' where "push_entry h (kept flt (ls_entry (e_clk e) r)) = Ret h'" "heap_invar spf_push_comp h'"
    "mset (heap_elems h') = mset (case kept flt (ls_entry (e_clk e) r) of None \<Rightarrow> [] | Some f \<Rightarrow> [f]) + mset (heap_elems h)"
    "heap_keys h' \<le> Suc (heap_keys h)"
    using push_all_entries [OF Nil.prems(3)] Nil.prems(4) by fastforce
  then show ?case using remote_entry_row [of r e s flt crlf] Nil.prems(1,2) n
    by (simp add: ls_rows_def entries_Cons) (simp add: entries_def map_filter_simps)
next
  case (Cons r2 rows)
  obtain m where n: "n = Suc m" using Cons.prems(5) by (cases n) auto
  obtain h1 where h1: "push_entry h (kept flt (ls_entry (e_clk e) r)) = Ret h1" "heap_invar spf_push_comp h1"
    "mset (heap_elems h1) = mset (case kept flt (ls_entry (e_clk e) r) of None \<Rightarrow> [] | Some f \<Rightarrow> [f]) + mset (heap_elems h)"
    "heap_keys h1 \<le> Suc (heap_keys h)"
    using push_all_entries [OF Cons.prems(3)] Cons.prems(4) by fastforce
  obtain h' where h': "build_remote_loop m e s (ls_line r2 @ line_end crlf) (ls_rows crlf rows) h1 = Ret h'"
    "heap_invar spf_push_comp h'" "heap_keys h' \<le> heap_keys h1 + length (r2 # rows)"
    "mset (heap_elems h') = mset (entries (e_clk e) flt (r2 # rows)) + mset (heap_elems h1)"
    using Cons.IH [of r2 h1 m] Cons.prems h1 n by fastforce
  have "fgets PATH_MAX (ls_rows crlf (r2 # rows)) = Some (ls_line r2 @ line_end crlf, ls_rows crlf rows)"
    using fgets_row_end [of "ls_line r2" crlf "ls_rows crlf rows"] Cons.prems(1) by (simp add: ls_rows_Cons ls_ok_def)
  then show ?case using remote_entry_row [of r e s flt crlf] Cons.prems(1,2) n h1 h'
    by (simp add: entries_Cons [of _ _ r])
qed

lemma length_dec: "n < 10 ^ Suc k \<Longrightarrow> length (dec n) \<le> Suc k"
proof (induction k arbitrary: n)
  case (Suc k)
  have "length (dec (n div 10)) \<le> Suc k" using Suc by (intro Suc.IH) (simp add: less_mult_imp_div_less)
  then show ?case by (subst dec.simps) simp
qed (simp add: dec.simps)

text \<open>The line with the number of blocks, which most servers print first.\<close>

definition blocks_ok :: "nat option \<Rightarrow> bool" where
  "blocks_ok blocks \<longleftrightarrow> (case blocks of None \<Rightarrow> True | Some n \<Rightarrow> n < 2 ^ 64)"

lemma fgets_blocks:
  assumes "n < 2 ^ 64"
  shows "fgets PATH_MAX (''total '' @ dec n @ line_end crlf @ f) = Some (''total '' @ dec n @ line_end crlf, f)"
proof -
  have "CHR 0x0A \<notin> set (''total '' @ dec n)" using dec_digits [of "CHR 0x0A" n] by (auto simp: isdigit_def)
  moreover have "length (''total '' @ dec n) + 3 < PATH_MAX"
    using length_dec [of n 19] assms by (simp add: PATH_MAX_def)
  ultimately show ?thesis using fgets_row_end [of "''total '' @ dec n" crlf f] by simp
qed

lemma build_remote_first:
  assumes "ls_ok r" "blocks_ok blocks"
  shows "build_remote_dir e s (ls_text crlf blocks (r # rows)) =
    bindO (heap_init True True True spf_push_comp) (\<lambda>h.
      build_remote_loop (Suc (length (ls_rows crlf rows))) e s (ls_line r @ line_end crlf) (ls_rows crlf rows) h)"
proof -
  have row: "fgets PATH_MAX (ls_rows crlf (r # rows)) = Some (ls_line r @ line_end crlf, ls_rows crlf rows)"
    using fgets_row_end [of "ls_line r" crlf "ls_rows crlf rows"] assms(1) by (simp add: ls_rows_Cons ls_ok_def)
  show ?thesis
  proof (cases blocks)
    case None
    then show ?thesis using row ls_line_not_total [of r "line_end crlf"] by (simp add: ls_text_def build_remote_dir_def del: build_remote_loop.simps)
  next
    case (Some n)
    then have "fgets PATH_MAX (ls_text crlf blocks (r # rows)) = Some (''total '' @ dec n @ line_end crlf, ls_rows crlf (r # rows))"
      using fgets_blocks [of n crlf "ls_rows crlf (r # rows)"] assms(2) by (simp add: ls_text_def blocks_ok_def)
    then show ?thesis using row by (simp add: build_remote_dir_def del: build_remote_loop.simps)
  qed
qed


text \<open>The example: a directory with a file and a link, without lists.\<close>

definition ls_sample :: "ls_row list" where
  "ls_sample =
     [\<lparr>ls_type = DIRECTORY, ls_mode = 0x1ED, ls_links = ''2'', ls_user = ''ftp'', ls_group = None, ls_size = 512,
        ls_month = 0, ls_day = 9, ls_year = 1999, ls_name = ''.'', ls_link = None\<rparr>,
      \<lparr>ls_type = PLAINFILE, ls_mode = 0x1A4, ls_links = ''1'', ls_user = ''ftp'', ls_group = Some ''staff'', ls_size = 11,
        ls_month = 5, ls_day = 30, ls_year = 1998, ls_name = ''a b'', ls_link = None\<rparr>,
      \<lparr>ls_type = SYMLINK, ls_mode = 0x1FF, ls_links = ''1'', ls_user = ''ftp'', ls_group = Some ''staff'', ls_size = 3,
        ls_month = 11, ls_day = 1, ls_year = 1999, ls_name = ''c'', ls_link = Some ''a b''\<rparr>]"

lemma ls_sample_ok: "\<forall>r \<in> set ls_sample. ls_ok r"
proof -
  have d: "dec 512 = ''512''" "dec 9 = ''9''" "dec 1999 = ''1999''" "dec 11 = ''11''" "dec 30 = ''30''" "dec 1998 = ''1998''"
    "dec 3 = ''3''" "dec 1 = ''1''" "dec (Suc 0) = ''1''" by code_simp+
  show ?thesis
    by (simp add: ls_sample_def ls_ok_def ls_line_def row_head_def mode_string_def flag_char_def exec_char_def name_field_def
        word_tok_def name_ok_def months_def d PATH_MAX_def)
qed


section \<open>The local listing\<close>

lemma build_local_entries:
  assumes "\<forall>d \<in> set ds. local_entry e s d = Ret (g d)" "heap_invar spf_push_comp h" "heap_keys h + length ds \<le> 2 ^ 30"
  shows "\<exists>h'. build_local_loop e s ds h = Ret h' \<and> heap_invar spf_push_comp h' \<and> heap_keys h' \<le> heap_keys h + length ds \<and>
    mset (heap_elems h') = mset (List.map_filter g ds) + mset (heap_elems h)"
  using assms
proof (induction ds arbitrary: h)
  case (Cons d ds)
  obtain h1 where h1: "push_entry h (g d) = Ret h1" "heap_invar spf_push_comp h1"
    "mset (heap_elems h1) = mset (case g d of None \<Rightarrow> [] | Some f \<Rightarrow> [f]) + mset (heap_elems h)" "heap_keys h1 \<le> Suc (heap_keys h)"
    using push_all_entries [OF Cons.prems(2)] Cons.prems(3) by fastforce
  obtain h' where "build_local_loop e s ds h1 = Ret h'" "heap_invar spf_push_comp h'" "heap_keys h' \<le> heap_keys h1 + length ds"
    "mset (heap_elems h') = mset (List.map_filter g ds) + mset (heap_elems h1)"
    using Cons.IH [OF _ h1(2)] Cons.prems(1,3) h1(4) by auto
  then show ?case using h1 Cons.prems(1) by (cases "g d") (simp_all add: map_filter_simps)
qed (simp add: map_filter_simps)

text \<open>The same for the local directory: \<open>g\<close> is what becomes of a name, and the names of a directory are distinct.\<close>

lemma build_local_dir_listing:
  assumes "os_readdir (e_os e) (world s) (cur_dir s) = Ret ds" "\<forall>d \<in> set ds. local_entry e s d = Ret (g d)" "length ds \<le> 2 ^ 30"
    "distinct (map spf_name (List.map_filter g ds))"
  shows "\<exists>h. build_local_dir e s = Ret h \<and> listing h \<and> mset (heap_elems h) = mset (List.map_filter g ds)"
proof -
  obtain h0 where h0: "heap_init True True True spf_push_comp = Ret h0" by (simp add: heap_init_def)
  then have i: "heap_invar spf_push_comp h0" "heap_elems h0 = []" "heap_keys h0 = 0" using heap_init_ok by blast+
  obtain h where h: "build_local_loop e s ds h0 = Ret h" "heap_invar spf_push_comp h" "heap_keys h \<le> length ds"
    "mset (heap_elems h) = mset (List.map_filter g ds)"
    using build_local_entries [OF assms(2) i(1)] assms(3) i by auto
  have "distinct (map spf_name (heap_elems h))"
    using assms(4) h(4) by (metis distinct_map mset_eq_imp_distinct_iff set_mset_mset mset_map)
  then show ?thesis using h h0 assms(1,3) by (simp add: build_local_dir_def listing_def)
qed

end
