(* ===== verification/Spdi.thy ===== *)
theory Spdi
  imports Parserow Skip_List
begin

text \<open>
  The directory index of spf_util.c (1066-1349), which reads a recursive listing and keeps for each directory
  where its rows are in the file. The program does not use it yet. The functions are translated as they are;
  what \<open>malloc\<close> leaves in the members that are never written is a parameter.
\<close>

section \<open>The file\<close>

text \<open>
  A file is its text and a position; \<open>df_eof\<close> is what \<open>feof\<close> tells. \<open>ftell\<close> and \<open>fseek\<close> succeed and reads fail
  at the end of the file only.
\<close>

record dir_file =
  df_text :: string
  df_pos :: nat
  df_eof :: bool

definition df_gets :: "dir_file \<Rightarrow> string option \<times> dir_file" where
  "df_gets f =
     (case fgets PATH_MAX (drop (df_pos f) (df_text f)) of
        None \<Rightarrow> (None, f\<lparr>df_eof := True\<rparr>)
      | Some (line, rest) \<Rightarrow> (Some line, f\<lparr>df_pos := df_pos f + length line,
          df_eof := df_eof f \<or> last line \<noteq> CHR 0x0A \<and> length line < PATH_MAX - 1\<rparr>))"

definition df_seek :: "nat \<Rightarrow> dir_file \<Rightarrow> dir_file" where
  "df_seek pos f = f\<lparr>df_pos := pos, df_eof := False\<rparr>"

definition df_left :: "dir_file \<Rightarrow> nat" where
  "df_left f = length (df_text f) - df_pos f"

lemma df_gets_left: "df_gets f = (Some line, f') \<Longrightarrow> df_left f' < df_left f"
proof -
  assume "df_gets f = (Some line, f')"
  then obtain rest where r: "fgets PATH_MAX (drop (df_pos f) (df_text f)) = Some (line, rest)"
    and f': "df_pos f' = df_pos f + length line" "df_text f' = df_text f"
    by (auto simp: df_gets_def split: option.splits)
  have "length rest < length (drop (df_pos f) (df_text f))" using fgets_shorter [OF r] by (simp add: PATH_MAX_def)
  moreover have "df_left f = length line + length rest"
    using arg_cong [OF fgets_append [OF r], of length] by (simp add: df_left_def)
  moreover have "df_left f' = df_left f - length line" using f' by (simp add: df_left_def)
  ultimately show ?thesis by (simp add: df_left_def)
qed

section \<open>Lines\<close>

text \<open>\<open>buf[len - 1]\<close>, where \<open>skipped\<close> is what is in front of the string in its buffer.\<close>

definition last_byte :: "string \<Rightarrow> string \<Rightarrow> char outcome" where
  "last_byte skipped str = (if str \<noteq> [] then Ret (last str) else if skipped \<noteq> [] then Ret (last skipped) else Undef)"

definition cut_byte :: "char \<Rightarrow> string \<Rightarrow> string \<Rightarrow> string outcome" where
  "cut_byte c skipped str = bindO (last_byte skipped str) (\<lambda>b. Ret (if b = c then butlast str else str))"

definition dot_or_slash :: "char \<Rightarrow> bool" where
  "dot_or_slash c \<longleftrightarrow> c = CHR ''.'' \<or> c = CHR ''/''"

text \<open>The name in the line above the rows of a directory; \<open>Inl\<close> is \<open>NULL\<close>, with \<open>True\<close> when memory is short.\<close>

definition parse_dir_name :: "bool \<Rightarrow> string \<Rightarrow> (bool + string) outcome" where
  "parse_dir_name ok line =
     (let skipped = takeWhile dot_or_slash line in
      bindO (cut_byte (CHR 0x0A) skipped (dropWhile dot_or_slash line)) (\<lambda>str.
      bindO (cut_byte (CHR 0x0D) skipped str) (\<lambda>str.
      bindO (last_byte skipped str) (\<lambda>b.
        if b \<noteq> CHR '':'' then Ret (Inl False)
        else if ok then Ret (Inr (butlast str)) else Ret (Inl True)))))"

definition is_empty_line :: "string \<Rightarrow> bool" where
  "is_empty_line str \<longleftrightarrow> (\<forall>c \<in> set str. c = CHR '' '' \<or> c = CHR 0x0A \<or> c = CHR 0x0D)"

section \<open>Directories\<close>

text \<open>
  \<open>spd_spdl\<close> is what \<open>malloc\<close> left there: \<open>None\<close> if it must not be read, \<open>Some None\<close> for \<open>NULL\<close>, or a list of
  the numbers of other directories. \<open>spd_name\<close> is \<open>None\<close> until it is written, \<open>spd_full_name\<close> when it is \<open>NULL\<close>.
\<close>

record sp_dir =
  spd_spdl :: "nat skip_list option option"
  spd_full_name :: "string option"
  spd_name :: "string option"
  spd_begin :: nat
  spd_end :: nat

text \<open>What is behind the last slash of a name.\<close>

definition base_name :: "string \<Rightarrow> string" where
  "base_name s = rev (takeWhile (\<lambda>c. c \<noteq> CHR ''/'') (rev s))"

text \<open>The loop over the empty lines in front: the first other line and the position in front of it.\<close>

function first_line :: "dir_file \<Rightarrow> (nat \<times> string) option \<times> dir_file" where
  "first_line f =
     (case df_gets f of
        (None, f') \<Rightarrow> (None, f')
      | (Some line, f') \<Rightarrow> if is_empty_line line then first_line f' else (Some (df_pos f, line), f'))"
  by pat_completeness auto
termination by (relation "measure df_left") (auto dest: df_gets_left [OF sym])

text \<open>The loop to the empty line behind the rows, or to the end of the file.\<close>

function skip_rows :: "dir_file \<Rightarrow> dir_file" where
  "skip_rows f =
     (case df_gets f of
        (None, f') \<Rightarrow> f'
      | (Some line, f') \<Rightarrow> if is_empty_line line then f' else skip_rows f')"
  by pat_completeness auto
termination by (relation "measure df_left") (auto dest: df_gets_left [OF sym])

declare first_line.simps [simp del] skip_rows.simps [simp del]

definition otal :: "string \<Rightarrow> bool" where
  "otal line \<longleftrightarrow> take 4 (drop 1 line) = ''otal''"

text \<open>
  \<open>ok1\<close> and \<open>ok2\<close> say whether \<open>malloc\<close> and \<open>strdup\<close> succeed, \<open>stale\<close> whether \<open>errno\<close> is \<open>ENOMEM\<close> from an earlier
  call when the first line is no name. The result \<open>None\<close> is \<open>NULL\<close>.
\<close>

definition spd_init ::
  "nat skip_list option option \<Rightarrow> bool \<Rightarrow> bool \<Rightarrow> bool \<Rightarrow> dir_file \<Rightarrow> (sp_dir option \<times> dir_file) outcome" where
  "spd_init fresh ok1 ok2 stale f =
     (if \<not> ok1 then Ret (None, f)
      else case first_line f of
        (None, f) \<Rightarrow> Ret (None, f)
      | (Some (pos, line), f) \<Rightarrow>
        bindO (parse_dir_name ok2 line) (\<lambda>name.
        case (case name of
            Inl enomem \<Rightarrow> if enomem \<or> stale then None else Some (None, None, pos, Some line, f)
          | Inr full \<Rightarrow> (let (next, f') = df_gets f in Some (Some full, Some (base_name full), df_pos f, next, f'))) of
          None \<Rightarrow> Ret (None, f)
        | Some (full, name, pos, None, f) \<Rightarrow> Ret (None, f)
        | Some (full, name, pos, Some line, f) \<Rightarrow>
          (let f = skip_rows (if otal line then f else df_seek pos f) in
           Ret (Some \<lparr>spd_spdl = fresh, spd_full_name = full, spd_name = name, spd_begin = pos, spd_end = df_pos f\<rparr>, f))))"

section \<open>The index\<close>

text \<open>
  The key of a name: its last bytes backwards, from the terminator on. The bytes of the word are in the order
  of a little endian machine.
\<close>

definition spd_key :: "string \<Rightarrow> 32 word" where
  "spd_key str =
     (let bytes = take 4 (take (length str) (NUL # rev str)) in
      word_of_int (\<Sum>i < length bytes. int (of_char (bytes ! i)) * 256 ^ i))"

record sp_dir_idx =
  spdi_path :: string
  spdi_file :: dir_file
  spdi_spd :: "nat option"
  spdi_cur_dir :: "nat option"
  spdi_dirs :: "sp_dir list"

text \<open>
  The lookup of a name among the subdirectories of a directory. The walk from a node on takes a node per
  round; its fuel is the number of nodes.
\<close>

fun spd_find_walk :: "nat \<Rightarrow> sp_dir list \<Rightarrow> nat skip_list \<Rightarrow> 32 word \<Rightarrow> string \<Rightarrow> sl_ptr \<Rightarrow> nat option \<Rightarrow> nat outcome" where
  "spd_find_walk 0 dirs sl key str pos p = Undef"
| "spd_find_walk (Suc n) dirs sl key str pos p =
     (case p of None \<Rightarrow> Undef
      | Some d \<Rightarrow> if length dirs \<le> d then Undef
        else case spd_name (dirs ! d) of None \<Rightarrow> Undef
        | Some name \<Rightarrow>
          if name = str then Ret d
          else case sl_walk sl (Some pos) of
            Ret (Some (pos, p)) \<Rightarrow>
              (case p of None \<Rightarrow> Undef
               | Some d \<Rightarrow> if length dirs \<le> d then Undef
                 else case spd_name (dirs ! d) of None \<Rightarrow> Undef
                 | Some name \<Rightarrow> if spd_key name \<noteq> key then Err ENOENT else spd_find_walk n dirs sl key str pos p)
          | Ret None \<Rightarrow> Undef
          | Err _ \<Rightarrow> Err ENOENT
          | Exit k \<Rightarrow> Exit k
          | Undef \<Rightarrow> Undef)"

definition spd_find :: "sp_dir list \<Rightarrow> nat \<Rightarrow> string \<Rightarrow> nat outcome" where
  "spd_find dirs d str =
     (if length dirs \<le> d then Undef
      else case spd_spdl (dirs ! d) of
        Some (Some sl) \<Rightarrow>
          (case sl_find_pos sl (spd_key str) of
             Ret (pos, p) \<Rightarrow> spd_find_walk (length (sl_mem sl)) dirs sl (spd_key str) str pos p
           | Err _ \<Rightarrow> Err ENOENT
           | Exit k \<Rightarrow> Exit k
           | Undef \<Rightarrow> Undef)
      | _ \<Rightarrow> Undef)"

text \<open>\<open>mystrsep\<close>: the next part that is not empty, and what is left of the string, \<open>None\<close> for \<open>NULL\<close>.\<close>

lemma length_tl_dropWhile: "dropWhile P s \<noteq> [] \<Longrightarrow> length (tl (dropWhile P s)) < length s"
  using length_dropWhile_le [of P s] by (cases "dropWhile P s") auto

function mystrsep :: "string option \<Rightarrow> string option \<times> string option" where
  "mystrsep s =
     (case s of None \<Rightarrow> (None, None)
      | Some str \<Rightarrow>
        (let tok = takeWhile (\<lambda>c. c \<noteq> CHR ''/'') str; rest = dropWhile (\<lambda>c. c \<noteq> CHR ''/'') str;
             s = (if rest = [] then None else Some (tl rest)) in
         if tok \<noteq> [] then (Some tok, s) else mystrsep s))"
  by pat_completeness auto
termination
  by (relation "measure (\<lambda>s. case s of None \<Rightarrow> 0 | Some str \<Rightarrow> Suc (length str))")
    (auto simp: length_tl_dropWhile simp del: length_tl split: if_splits)

declare mystrsep.simps [simp del]

text \<open>
  The walk along a path. What it finds is kept in local variables only: the caller's variable, the last
  argument of the function, is never written, so nothing but the success is returned.
\<close>

fun find_path_loop :: "nat \<Rightarrow> sp_dir list \<Rightarrow> nat \<Rightarrow> string \<Rightarrow> string option \<Rightarrow> unit outcome" where
  "find_path_loop 0 dirs d s rest = Undef"
| "find_path_loop (Suc n) dirs d s rest =
     bindO (spd_find dirs d s) (\<lambda>d.
       case mystrsep rest of (None, _) \<Rightarrow> Ret () | (Some s, rest) \<Rightarrow> find_path_loop n dirs d s rest)"

text \<open>A path without a part makes \<open>s\<close> \<open>NULL\<close>, whose length is then taken.\<close>

definition spd_find_path :: "sp_dir_idx \<Rightarrow> string \<Rightarrow> unit outcome" where
  "spd_find_path spdi path =
     (case mystrsep (Some (take (PATH_MAX - 1) path)) of
        (None, _) \<Rightarrow> Undef
      | (Some s, rest) \<Rightarrow>
        (case spdi_spd spdi of None \<Rightarrow> Undef
         | Some d \<Rightarrow> find_path_loop (length path + 1) (spdi_dirs spdi) d s rest))"

text \<open>\<open>rindex\<close> without a slash gives \<open>NULL\<close>, whose length is taken; slashes at the end are cut off one by one.\<close>

function cut_slashes :: "string \<Rightarrow> string outcome" where
  "cut_slashes buf =
     (if CHR ''/'' \<notin> set buf then Undef
      else if last buf \<noteq> CHR ''/'' then Ret buf
      else cut_slashes (butlast buf))"
  by pat_completeness auto
termination by (relation "measure length") (auto dest: length_pos_if_in_set)

declare cut_slashes.simps [simp del]

text \<open>
  The new directory is found by the path that names it itself; then the variable \<open>p\<close>, which the lookup did not
  write, is used. The result of the lookup decides between \<open>-1\<close> and undefined behaviour.
\<close>

definition spdi_insert_spd :: "sp_dir_idx \<Rightarrow> sp_dir \<Rightarrow> sp_dir_idx outcome" where
  "spdi_insert_spd spdi spd =
     (case spd_full_name spd of None \<Rightarrow> Undef
      | Some full \<Rightarrow>
        bindO (cut_slashes (take (PATH_MAX - 1) full)) (\<lambda>buf. bindO (spd_find_path spdi buf) (\<lambda>_. Undef)))"

text \<open>
  The loop that reads the directories behind the first one; \<open>ms\<close> is what the allocations for each of them do and
  leave. The result is \<open>True\<close> at the end of the file and \<open>False\<close> for \<open>-1\<close>.
\<close>

type_synonym alloc = "nat skip_list option option \<times> bool \<times> bool \<times> bool"

fun index_loop :: "alloc list \<Rightarrow> sp_dir_idx \<Rightarrow> (bool \<times> sp_dir_idx) outcome" where
  "index_loop [] spdi = Undef"
| "index_loop ((fresh, ok1, ok2, stale) # ms) spdi =
     bindO (spd_init fresh ok1 ok2 stale (spdi_file spdi)) (\<lambda>(spd, f).
       let spdi = spdi\<lparr>spdi_file := f\<rparr> in
       case spd of None \<Rightarrow> Ret (df_eof f, spdi)
       | Some spd \<Rightarrow>
         (case spdi_insert_spd spdi spd of
            Ret spdi \<Rightarrow> index_loop ms spdi
          | Err _ \<Rightarrow> Ret (False, spdi)
          | Exit n \<Rightarrow> Exit n
          | Undef \<Rightarrow> Undef))"

definition spdi_index_file :: "alloc \<Rightarrow> alloc list \<Rightarrow> sp_dir_idx \<Rightarrow> (bool \<times> sp_dir_idx) outcome" where
  "spdi_index_file a ms spdi =
     (case a of (fresh, ok1, ok2, stale) \<Rightarrow>
        bindO (spd_init fresh ok1 ok2 stale (spdi_file spdi)) (\<lambda>(spd, f).
          let spdi = spdi\<lparr>spdi_file := f\<rparr> in
          case spd of None \<Rightarrow> Ret (False, spdi)
          | Some spd \<Rightarrow> index_loop ms (spdi\<lparr>spdi_spd := Some (length (spdi_dirs spdi)), spdi_dirs := spdi_dirs spdi @ [spd]\<rparr>)))"

text \<open>The lists of subdirectories are freed depth first; the member that was never written decides.\<close>

fun spd_unalloc :: "nat \<Rightarrow> sp_dir list \<Rightarrow> nat \<Rightarrow> unit outcome" where
  "spd_unalloc 0 dirs d = Undef"
| "spd_unalloc (Suc n) dirs d =
     (if length dirs \<le> d then Undef
      else case spd_spdl (dirs ! d) of
        None \<Rightarrow> Undef
      | Some None \<Rightarrow> Ret ()
      | Some (Some sl) \<Rightarrow> bindO (sl_free sl) (\<lambda>(ds, _). foldO (\<lambda>_ d. spd_unalloc n dirs d) () ds))"

text \<open>\<open>opened\<close> is the file, if it can be opened; \<open>ok0\<close> and \<open>ok3\<close> are \<open>calloc\<close> and \<open>strdup\<close>. \<open>None\<close> is \<open>NULL\<close>.\<close>

definition spdi_init ::
  "bool \<Rightarrow> bool \<Rightarrow> alloc \<Rightarrow> alloc list \<Rightarrow> string option \<Rightarrow> string \<Rightarrow> sp_dir_idx option outcome" where
  "spdi_init ok0 ok3 a ms opened path =
     (if \<not> ok0 then Ret None
      else case opened of None \<Rightarrow> Ret None
      | Some txt \<Rightarrow>
        if \<not> ok3 then Ret None
        else bindO (spdi_index_file a ms \<lparr>spdi_path = path, spdi_file = \<lparr>df_text = txt, df_pos = 0, df_eof = False\<rparr>,
            spdi_spd = None, spdi_cur_dir = None, spdi_dirs = []\<rparr>) (\<lambda>(ok, spdi).
          if ok then Ret (Some spdi)
          else bindO (case spdi_spd spdi of None \<Rightarrow> Ret () | Some d \<Rightarrow> spd_unalloc (length (spdi_dirs spdi)) (spdi_dirs spdi) d)
            (\<lambda>_. Ret None)))"

definition spdi_unalloc :: "sp_dir_idx option \<Rightarrow> unit outcome" where
  "spdi_unalloc spdi =
     (case spdi of None \<Rightarrow> Ret ()
      | Some spdi \<Rightarrow>
        (case spdi_spd spdi of None \<Rightarrow> Undef | Some d \<Rightarrow> spd_unalloc (length (spdi_dirs spdi)) (spdi_dirs spdi) d))"

text \<open>The lookup does not write \<open>spdi_cur_dir\<close>, which is used next.\<close>

definition spdi_chdir :: "sp_dir_idx \<Rightarrow> string \<Rightarrow> sp_dir_idx outcome" where
  "spdi_chdir spdi dir =
     bindO (spd_find_path spdi dir) (\<lambda>_.
       case spdi_cur_dir spdi of None \<Rightarrow> Undef
       | Some d \<Rightarrow> if length (spdi_dirs spdi) \<le> d then Undef
         else Ret (spdi\<lparr>spdi_file := df_seek (spd_begin (spdi_dirs spdi ! d)) (spdi_file spdi)\<rparr>))"

text \<open>The next row of the current directory; \<open>None\<close> is \<open>-1\<close>.\<close>

definition spdi_next_file :: "clock \<Rightarrow> bool \<Rightarrow> sp_dir_idx \<Rightarrow> (sp_file option \<times> sp_dir_idx) outcome" where
  "spdi_next_file c ok spdi =
     (case spdi_cur_dir spdi of None \<Rightarrow> Undef
      | Some d \<Rightarrow>
        if length (spdi_dirs spdi) \<le> d then Undef
        else if spd_end (spdi_dirs spdi ! d) < df_pos (spdi_file spdi) then Ret (None, spdi)
        else case df_gets (spdi_file spdi) of
          (None, f) \<Rightarrow> Ret (None, spdi\<lparr>spdi_file := f\<rparr>)
        | (Some row, f) \<Rightarrow>
          (case parse_row c ok row of
             Ret spf \<Rightarrow> Ret (Some spf, spdi\<lparr>spdi_file := f\<rparr>)
           | Err _ \<Rightarrow> Ret (None, spdi\<lparr>spdi_file := f\<rparr>)
           | Exit n \<Rightarrow> Exit n
           | Undef \<Rightarrow> Undef))"

section \<open>Reading one directory\<close>

definition text_row :: "string \<Rightarrow> bool" where
  "text_row t \<longleftrightarrow> CHR 0x0A \<notin> set t \<and> length t + 1 < PATH_MAX"

definition rows_text :: "string list \<Rightarrow> string" where
  "rows_text ts = concat (map (\<lambda>t. t @ [CHR 0x0A]) ts)"

lemma rows_text_simps [simp]: "rows_text [] = []" "rows_text (t # ts) = t @ CHR 0x0A # rows_text ts"
  by (simp_all add: rows_text_def)

text \<open>The file \<open>f\<close> stands in front of \<open>post\<close>.\<close>

definition at_text :: "dir_file \<Rightarrow> string \<Rightarrow> bool" where
  "at_text f post \<longleftrightarrow> (\<exists>pre. df_text f = pre @ post \<and> df_pos f = length pre)"

lemma df_gets_row:
  assumes "at_text f (t @ CHR 0x0A # post)" "text_row t"
  shows "df_gets f = (Some (t @ [CHR 0x0A]), f\<lparr>df_pos := df_pos f + length t + 1\<rparr>) \<and>
    at_text (f\<lparr>df_pos := df_pos f + length t + 1\<rparr>) post"
proof -
  obtain pre where p: "df_text f = pre @ t @ CHR 0x0A # post" "df_pos f = length pre"
    using assms(1) by (auto simp: at_text_def)
  have "at_text (f\<lparr>df_pos := df_pos f + length t + 1\<rparr>) post"
    unfolding at_text_def by (rule exI [of _ "pre @ t @ [CHR 0x0A]"]) (simp add: p)
  then show ?thesis using p fgets_line [of t PATH_MAX post] assms(2) by (simp add: df_gets_def text_row_def)
qed

lemma first_line_row:
  "at_text f (rows_text bs @ t @ CHR 0x0A # post) \<Longrightarrow> \<forall>b \<in> set bs. text_row b \<and> is_empty_line b \<Longrightarrow> text_row t \<Longrightarrow> \<not> is_empty_line t \<Longrightarrow>
   \<exists>p. p = df_pos f + length (rows_text bs) \<and> first_line f = (Some (p, t @ [CHR 0x0A]), f\<lparr>df_pos := p + length t + 1\<rparr>) \<and>
     at_text (f\<lparr>df_pos := p + length t + 1\<rparr>) post"
proof (induction bs arbitrary: f)
  case Nil
  then show ?case using df_gets_row [of f t post] by (subst first_line.simps) (auto simp: is_empty_line_def)
next
  case (Cons b bs)
  let ?f = "f\<lparr>df_pos := df_pos f + length b + 1\<rparr>"
  have g: "df_gets f = (Some (b @ [CHR 0x0A]), ?f)" "at_text ?f (rows_text bs @ t @ CHR 0x0A # post)"
    using df_gets_row [of f b "rows_text bs @ t @ CHR 0x0A # post"] Cons.prems by simp_all
  have "is_empty_line (b @ [CHR 0x0A])" using Cons.prems(2) by (simp add: is_empty_line_def)
  then have "first_line f = first_line ?f" using g(1) by (subst first_line.simps) simp
  then show ?case using Cons.IH [OF g(2)] Cons.prems by (simp add: algebra_simps)
qed

lemma skip_rows_end:
  "at_text f (rows_text rs @ b @ CHR 0x0A # post) \<Longrightarrow> \<forall>r \<in> set rs. text_row r \<and> \<not> is_empty_line r \<Longrightarrow> text_row b \<Longrightarrow> is_empty_line b \<Longrightarrow>
   skip_rows f = f\<lparr>df_pos := df_pos f + length (rows_text rs) + length b + 1\<rparr>"
proof (induction rs arbitrary: f)
  case Nil
  then show ?case using df_gets_row [of f b post] by (subst skip_rows.simps) (auto simp: is_empty_line_def)
next
  case (Cons r rs)
  let ?f = "f\<lparr>df_pos := df_pos f + length r + 1\<rparr>"
  have g: "df_gets f = (Some (r @ [CHR 0x0A]), ?f)" "at_text ?f (rows_text rs @ b @ CHR 0x0A # post)"
    using df_gets_row [of f r "rows_text rs @ b @ CHR 0x0A # post"] Cons.prems by simp_all
  have "\<not> is_empty_line (r @ [CHR 0x0A])" using Cons.prems(2) by (simp add: is_empty_line_def)
  then have "skip_rows f = skip_rows ?f" using g(1) by (subst skip_rows.simps) simp
  then show ?case using Cons.IH [OF g(2)] Cons.prems by (simp add: algebra_simps)
qed

text \<open>The line above the rows of a directory, with the dots and slashes in front that are taken off.\<close>

definition dir_line :: "string \<Rightarrow> string \<Rightarrow> bool \<Rightarrow> string" where
  "dir_line dots full cr = dots @ full @ '':'' @ (if cr then [CHR 0x0D] else [])"

lemma parse_dir_line:
  assumes "\<forall>c \<in> set dots. dot_or_slash c" "full = [] \<or> \<not> dot_or_slash (hd full)"
  shows "parse_dir_name True (dir_line dots full cr @ [CHR 0x0A]) = Ret (Inr full)"
proof -
  let ?t = "full @ '':'' @ (if cr then [CHR 0x0D] else []) @ [CHR 0x0A]"
  have "takeWhile dot_or_slash ?t = []" "dropWhile dot_or_slash ?t = ?t"
    using assms(2) by (cases full; auto simp: dot_or_slash_def)+
  then have "takeWhile dot_or_slash (dir_line dots full cr @ [CHR 0x0A]) = dots" "dropWhile dot_or_slash (dir_line dots full cr @ [CHR 0x0A]) = ?t"
    using assms(1) by (simp_all add: dir_line_def)
  then show ?thesis
    by (simp add: parse_dir_name_def cut_byte_def last_byte_def butlast_append)
qed

lemma at_text_seek: "at_text f post \<Longrightarrow> at_text (df_seek (df_pos f) f) post"
  by (auto simp: at_text_def df_seek_def)

text \<open>
  \<open>spd_init\<close> on a listing that stands in front of a directory, behind any number of empty lines: it takes
  the name from the line above the rows, without the dots and slashes in front and with either line end, and the
  directory begins behind that line and ends behind the next empty line, where the file then stands.
\<close>

theorem spd_init_directory:
  assumes "at_text f (rows_text bs @ dir_line dots full cr @ CHR 0x0A # rows_text rs @ b @ CHR 0x0A # post)"
    "\<forall>t \<in> set bs. text_row t \<and> is_empty_line t" "text_row (dir_line dots full cr)"
    "\<forall>t \<in> set rs. text_row t \<and> \<not> is_empty_line t" "text_row b" "is_empty_line b"
    "\<forall>c \<in> set dots. dot_or_slash c" "full = [] \<or> \<not> dot_or_slash (hd full)" "\<not> df_eof f"
  shows "let begin = df_pos f + length (rows_text bs) + length (dir_line dots full cr) + 1;
      end = begin + length (rows_text rs) + length b + 1 in
    spd_init fresh True True stale f =
      Ret (Some \<lparr>spd_spdl = fresh, spd_full_name = Some full, spd_name = Some (base_name full), spd_begin = begin, spd_end = end\<rparr>,
        f\<lparr>df_pos := end\<rparr>)"
proof -
  let ?d = "dir_line dots full cr"
  define pos where "pos = df_pos f + length (rows_text bs) + length ?d + 1"
  define tail where "tail = rows_text rs @ b @ CHR 0x0A # post"
  let ?f = "f\<lparr>df_pos := pos\<rparr>"
  have "\<not> is_empty_line ?d" by (auto simp: is_empty_line_def dir_line_def)
  then have fl: "\<exists>p. first_line f = (Some (p, ?d @ [CHR 0x0A]), ?f)" and at: "at_text ?f tail"
    using first_line_row [OF assms(1,2,3)] by (simp_all add: pos_def tail_def)
  define r where "r = hd (rs @ [b])"
  define ts where "ts = tl (rs @ [b])"
  have rs: "rs @ [b] = r # ts" by (simp add: r_def ts_def)
  have tail: "tail = r @ CHR 0x0A # rows_text ts @ post"
    using arg_cong [OF rs, of rows_text] by (simp add: tail_def rows_text_def)
  have r: "text_row r" using rs assms(4,5) by (cases rs) auto
  let ?g = "f\<lparr>df_pos := pos + length r + 1\<rparr>"
  have g: "df_gets ?f = (Some (r @ [CHR 0x0A]), ?g)" "at_text ?g (rows_text ts @ post)"
    using df_gets_row [OF at [unfolded tail] r] by simp_all
  have skip: "skip_rows (if otal (r @ [CHR 0x0A]) then ?g else df_seek pos ?g) =
      f\<lparr>df_pos := pos + length (rows_text rs) + length b + 1\<rparr>"
  proof (cases "otal (r @ [CHR 0x0A])")
    case True
    have "\<not> otal (b @ [CHR 0x0A])"
    proof
      assume "otal (b @ [CHR 0x0A])"
      then have "CHR ''o'' \<in> set (take 4 (drop 1 (b @ [CHR 0x0A])))" by (simp only: otal_def) simp
      then have "CHR ''o'' \<in> set (b @ [CHR 0x0A])" by (blast dest: in_set_takeD in_set_dropD)
      then show False using assms(6) by (auto simp: is_empty_line_def)
    qed
    then have "rs \<noteq> []" using rs True by (cases rs) auto
    then obtain us where us: "rs = r # us" "ts = us @ [b]" using rs by (cases rs) auto
    then have "at_text ?g (rows_text us @ b @ CHR 0x0A # post)" using g(2) by (simp add: rows_text_def)
    from skip_rows_end [OF this] show ?thesis using True us assms(4,5,6) by (simp add: algebra_simps)
  next
    case False
    have e: "df_seek pos ?g = ?f" using assms(9) by (simp add: df_seek_def)
    show ?thesis using False skip_rows_end [OF at [unfolded tail_def]] assms(4,5,6) unfolding e by simp
  qed
  show ?thesis
    using fl g(1) parse_dir_line [OF assms(7,8), of cr] skip
    by (auto simp: spd_init_def Let_def pos_def)
qed

lemma spd_init_directory_witness:
  "spd_init None True True False \<lparr>df_text = ''./a/b:'' @ [CHR 0x0D, CHR 0x0A] @ ''row'' @ [CHR 0x0A, CHR 0x0A] @ ''./c:'', df_pos = 0, df_eof = False\<rparr> =
    Ret (Some \<lparr>spd_spdl = None, spd_full_name = Some ''a/b'', spd_name = Some ''b'', spd_begin = 8, spd_end = 13\<rparr>,
      \<lparr>df_text = ''./a/b:'' @ [CHR 0x0D, CHR 0x0A] @ ''row'' @ [CHR 0x0A, CHR 0x0A] @ ''./c:'', df_pos = 13, df_eof = False\<rparr>)"
proof -
  let ?f = "\<lparr>df_text = ''./a/b:'' @ [CHR 0x0D, CHR 0x0A] @ ''row'' @ [CHR 0x0A, CHR 0x0A] @ ''./c:'', df_pos = 0, df_eof = False\<rparr>"
  have d: "dir_line ''./'' ''a/b'' True = ''./a/b:'' @ [CHR 0x0D]" by (simp add: dir_line_def)
  have "at_text ?f (rows_text [] @ dir_line ''./'' ''a/b'' True @ CHR 0x0A # rows_text [''row''] @ [] @ CHR 0x0A # ''./c:'')"
    unfolding at_text_def d by (rule exI [of _ "[]"]) simp
  from spd_init_directory [OF this, of None False] show ?thesis
    by (simp add: text_row_def PATH_MAX_def is_empty_line_def dot_or_slash_def d base_name_def)
qed

section \<open>What the index can hold\<close>

lemma insert_never_returns: "spdi_insert_spd spdi spd \<noteq> Ret x"
  by (simp add: spdi_insert_spd_def split: option.split)

lemma index_loop_keeps:
  assumes "index_loop ms spdi = Ret (r, spdi')"
  shows "\<exists>f. spdi' = spdi\<lparr>spdi_file := f\<rparr>"
proof -
  obtain fresh ok1 ok2 stale ms' where ms: "ms = (fresh, ok1, ok2, stale) # ms'"
    using assms by (cases ms) auto
  obtain spd f where i: "spd_init fresh ok1 ok2 stale (spdi_file spdi) = Ret (spd, f)"
    using assms by (auto simp: ms)
  show ?thesis
  proof (cases spd)
    case None
    then have "spdi' = spdi\<lparr>spdi_file := f\<rparr>" using assms i by (simp add: ms)
    then show ?thesis by blast
  next
    case (Some sp)
    have "index_loop ms spdi = (case spdi_insert_spd (spdi\<lparr>spdi_file := f\<rparr>) sp of
        Ret spdi \<Rightarrow> index_loop ms' spdi | Err _ \<Rightarrow> Ret (False, spdi\<lparr>spdi_file := f\<rparr>) | Exit n \<Rightarrow> Exit n | Undef \<Rightarrow> Undef)"
      by (simp add: ms i Some Let_def)
    then have "spdi' = spdi\<lparr>spdi_file := f\<rparr>"
      using assms by (cases "spdi_insert_spd (spdi\<lparr>spdi_file := f\<rparr>) sp") (simp_all add: insert_never_returns)
    then show ?thesis by blast
  qed
qed

text \<open>
  An index that is made holds one directory, the first of the file, and none can be entered: the lookup of a path
  does not give its result to the caller.
\<close>

theorem spdi_holds_one_directory:
  assumes "spdi_init ok0 ok3 a ms opened path = Ret (Some spdi)"
  shows "length (spdi_dirs spdi) = 1 \<and> spdi_cur_dir spdi = None \<and> spdi_chdir spdi dir \<noteq> Ret x"
proof -
  obtain fresh ok1 ok2 stale where a: "a = (fresh, ok1, ok2, stale)" by (cases a)
  have *: "length (spdi_dirs s') = 1 \<and> spdi_cur_dir s' = None"
    if "spdi_index_file a ms \<lparr>spdi_path = path, spdi_file = f, spdi_spd = None, spdi_cur_dir = None, spdi_dirs = []\<rparr> = Ret (True, s')" for f s'
    using that by (auto simp: spdi_index_file_def a Let_def split: option.splits dest!: index_loop_keeps)
  have "length (spdi_dirs spdi) = 1 \<and> spdi_cur_dir spdi = None"
    using assms by (auto simp: spdi_init_def split: if_splits option.splits dest!: *)
  then show ?thesis by (simp add: spdi_chdir_def)
qed

text \<open>
  With memory from \<open>malloc\<close> that must not be read, freeing an index is undefined too, and so is making one of a file
  with a second directory whose name has no slash.
\<close>

lemma spdi_unalloc_undefined:
  "spdi_spd spdi = Some d \<Longrightarrow> spd_spdl (spdi_dirs spdi ! d) = None \<Longrightarrow> spdi_unalloc (Some spdi) = Undef"
proof -
  assume "spd_spdl (spdi_dirs spdi ! d) = None" "spdi_spd spdi = Some d"
  moreover have "spd_unalloc n dirs d = Undef" if "spd_spdl (dirs ! d) = None" for n dirs
    using that by (cases n) simp_all
  ultimately show ?thesis by (simp only: spdi_unalloc_def option.case)
qed

lemma insert_top_level:
  "spd_full_name spd = Some full \<Longrightarrow> CHR ''/'' \<notin> set full \<Longrightarrow> spdi_insert_spd spdi spd = Undef"
proof -
  assume "spd_full_name spd = Some full" "CHR ''/'' \<notin> set full"
  moreover from this have "cut_slashes (take (PATH_MAX - 1) full) = Undef"
    by (subst cut_slashes.simps) (auto dest: in_set_takeD)
  ultimately show ?thesis by (simp add: spdi_insert_spd_def)
qed

section \<open>Reading the rows of a directory\<close>

text \<open>
  \<open>spdi_next_file\<close> hands out the rows of the current directory one by one. At its end the position is not
  beyond \<open>spd_end\<close>, so it goes on to the line behind the directory.
\<close>

lemma spdi_next_file_row:
  assumes "spdi_cur_dir spdi = Some d" "d < length (spdi_dirs spdi)" "df_pos (spdi_file spdi) \<le> spd_end (spdi_dirs spdi ! d)"
    "at_text (spdi_file spdi) (t @ CHR 0x0A # post)" "text_row t" "parse_row c True (t @ [CHR 0x0A]) = Ret spf"
  shows "spdi_next_file c True spdi =
    Ret (Some spf, spdi\<lparr>spdi_file := (spdi_file spdi)\<lparr>df_pos := df_pos (spdi_file spdi) + length t + 1\<rparr>\<rparr>)"
  using assms df_gets_row [OF assms(4,5)] by (simp add: spdi_next_file_def)

lemma spdi_next_file_at_end:
  assumes "spdi_cur_dir spdi = Some d" "d < length (spdi_dirs spdi)" "df_pos (spdi_file spdi) = spd_end (spdi_dirs spdi ! d)"
    "at_text (spdi_file spdi) (t @ CHR 0x0A # post)" "text_row t" "parse_row c True (t @ [CHR 0x0A]) = Ret spf"
  shows "\<exists>spdi'. spdi_next_file c True spdi = Ret (Some spf, spdi')"
  using spdi_next_file_row [OF assms(1,2) _ assms(4-6)] assms(3) by simp

end
