(* ===== verification/Reg_Err.thy ===== *)
theory Reg_Err
  imports Spegla_Prelude
begin

text \<open>
  The error messages of regular expressions (spf_util.c 951-972 and 997-1018): the buffer of a skip or
  treat-as-directory entry, which grows to the size that \<open>regerror\<close> asks for. The two functions are the same but
  for the type of the entry, and one model stands for both. The messages are a parameter.
\<close>

record reg_buf =
  rb_buf :: "char arr option"
  rb_size :: nat

text \<open>The entry as \<open>calloc\<close> makes it.\<close>

definition reg_buf_new :: reg_buf where
  "reg_buf_new = \<lparr>rb_buf = None, rb_size = 0\<rparr>"

text \<open>
  \<open>regerror\<close> gives the room that the message takes and writes as much of it as the size allows, with its
  terminator. A size of 0 writes nothing.
\<close>

definition regerror :: "string \<Rightarrow> char arr option \<Rightarrow> nat \<Rightarrow> (nat \<times> char arr option) outcome" where
  "regerror msg buf n =
     (if n = 0 then Ret (length msg + 1, buf)
      else case buf of None \<Rightarrow> Undef
      | Some b \<Rightarrow>
        (let src = map Some (take (n - 1) msg @ [NUL]) in
         bindO (arr_copy b 0 src 0 (length src)) (\<lambda>b. Ret (length msg + 1, Some b))))"

text \<open>The result is whether the pointer that is returned is not \<open>NULL\<close>.\<close>

definition reg_strerror :: "string \<Rightarrow> bool \<Rightarrow> reg_buf \<Rightarrow> (bool \<times> reg_buf) outcome" where
  "reg_strerror msg ok rb =
     bindO (regerror msg None 0) (\<lambda>(buf_size, _).
     let grown = (if rb_size rb < buf_size
           then if ok then Inr \<lparr>rb_buf = Some (arr_alloc buf_size), rb_size = buf_size\<rparr> else Inl \<lparr>rb_buf = None, rb_size = 0\<rparr>
           else Inr rb) in
     case grown of Inl rb \<Rightarrow> Ret (False, rb)
     | Inr rb \<Rightarrow> bindO (regerror msg (rb_buf rb) (rb_size rb)) (\<lambda>(_, buf). Ret (buf \<noteq> None, rb\<lparr>rb_buf := buf\<rparr>)))"

section \<open>The buffer\<close>

text \<open>The size is that of the memory.\<close>

definition reg_buf_ok :: "reg_buf \<Rightarrow> bool" where
  "reg_buf_ok rb \<longleftrightarrow> (case rb_buf rb of None \<Rightarrow> rb_size rb = 0 | Some b \<Rightarrow> length b = rb_size rb)"

lemma reg_buf_new_ok: "reg_buf_ok reg_buf_new"
  by (simp add: reg_buf_ok_def reg_buf_new_def)

text \<open>
  With a well kept buffer of any size, the whole message is returned and nothing is written behind the memory; when
  memory is short the entry is left with no buffer, from which the next call starts again.
\<close>

lemma reg_strerror_whole:
  assumes "reg_buf_ok rb" "NUL \<notin> set msg"
  shows "\<exists>r rb'. reg_strerror msg ok rb = Ret (r, rb') \<and> reg_buf_ok rb' \<and>
    (r \<longleftrightarrow> ok \<or> length msg < rb_size rb) \<and> (r \<longrightarrow> rb_size rb \<le> rb_size rb' \<and> (\<exists>b. rb_buf rb' = Some b \<and> arr_cstr b = Ret msg))"
proof -
  have copy: "regerror msg (Some b) n = Ret (length msg + 1, Some (map Some (msg @ [NUL]) @ drop (length msg + 1) b))"
    if "length msg < n" "length b = n" for b n
    using that by (simp add: regerror_def arr_copy_def)
  consider "rb_size rb \<le> length msg" "\<not> ok" | "rb_size rb \<le> length msg" "ok" | b where "length msg < rb_size rb" "rb_buf rb = Some b" "length b = rb_size rb"
    using assms(1) by (cases "rb_buf rb"; cases "rb_size rb \<le> length msg"; cases ok) (auto simp: reg_buf_ok_def not_le)
  then show ?thesis
  proof cases
    case 1
    then show ?thesis by (intro exI [of _ False]) (simp add: reg_strerror_def regerror_def reg_buf_ok_def)
  next
    case 2
    then show ?thesis using copy [of "Suc (length msg)" "arr_alloc (Suc (length msg))"] arr_cstr_front [OF assms(2)]
      by (intro exI [of _ True]) (simp add: reg_strerror_def regerror_def [of msg None 0] reg_buf_ok_def arr_alloc_def)
  next
    case 3
    then show ?thesis using copy [OF 3(1,3)] arr_cstr_front [OF assms(2)]
      by (intro exI [of _ True]) (simp add: reg_strerror_def regerror_def [of msg None 0] reg_buf_ok_def)
  qed
qed

end
