(* ===== verification/Fnmatch.thy ===== *)
theory Fnmatch
  imports Spf_File "HOL-Library.Word"
begin

unbundle bit_operations_syntax

text \<open>
  The replacement of \<open>fnmatch\<close>, missing/fnmatch.c, for systems without one. Pattern and string are lists of the bytes
  in front of the terminator; the byte in front of the rest of the string is kept, as the code looks at it.
\<close>

section \<open>Flags\<close>

definition FNM_NOESCAPE :: "32 word" where "FNM_NOESCAPE = 0x01"
definition FNM_PATHNAME :: "32 word" where "FNM_PATHNAME = 0x02"
definition FNM_PERIOD :: "32 word" where "FNM_PERIOD = 0x04"

definition fnm_flag :: "32 word \<Rightarrow> 32 word \<Rightarrow> bool" where
  "fnm_flag flags f \<longleftrightarrow> flags AND f \<noteq> 0"

definition without_period :: "32 word \<Rightarrow> 32 word" where
  "without_period flags = flags AND NOT FNM_PERIOD"

lemma without_period_flags [simp]:
  "fnm_flag (without_period flags) FNM_PATHNAME = fnm_flag flags FNM_PATHNAME"
  "fnm_flag (without_period flags) FNM_NOESCAPE = fnm_flag flags FNM_NOESCAPE"
  "\<not> fnm_flag (without_period flags) FNM_PERIOD"
  by (simp_all add: fnm_flag_def without_period_def FNM_PATHNAME_def FNM_NOESCAPE_def FNM_PERIOD_def and.assoc)

section \<open>The code\<close>

text \<open>A byte of a bracket expression, or the one behind a backslash; \<open>None\<close> at the end of the pattern.\<close>

definition unquote :: "32 word \<Rightarrow> char \<Rightarrow> string \<Rightarrow> (char \<times> string) option" where
  "unquote flags c p =
     (if c = CHR 0x5C \<and> \<not> fnm_flag flags FNM_NOESCAPE then case p of [] \<Rightarrow> None | d # p \<Rightarrow> Some (d, p)
      else Some (c, p))"

lemma unquote_shorter: "unquote flags c p = Some (d, p') \<Longrightarrow> length p' \<le> length p"
  by (auto simp: unquote_def split: if_splits list.splits)

text \<open>The end of a range that starts in front of the pattern, with what is behind it.\<close>

fun range_end :: "string \<Rightarrow> (char \<times> string) option" where
  "range_end (d # c2 # p) = (if d = CHR ''-'' \<and> c2 \<noteq> CHR '']'' then Some (c2, p) else None)"
| "range_end _ = None"

lemma range_end_shorter: "range_end p = Some (c2, p') \<Longrightarrow> length p' < length p"
  by (induction p rule: range_end.induct) (auto split: if_splits)

function range_loop :: "32 word \<Rightarrow> bool \<Rightarrow> char \<Rightarrow> bool \<Rightarrow> string \<Rightarrow> string option" where
  "range_loop flags negate test ok p =
     (case p of [] \<Rightarrow> None
      | c # p \<Rightarrow>
        if c = CHR '']'' then (if ok = negate then None else Some p)
        else (case unquote flags c p of None \<Rightarrow> None
        | Some (c, p) \<Rightarrow>
          (case range_end p of
             None \<Rightarrow> range_loop flags negate test (ok \<or> c = test) p
           | Some (c2, p) \<Rightarrow>
             (case unquote flags c2 p of None \<Rightarrow> None
              | Some (c2, p) \<Rightarrow> range_loop flags negate test (ok \<or> schar c \<le> schar test \<and> schar test \<le> schar c2) p))))"
  by pat_completeness auto
termination
  by (relation "measure (\<lambda>(_, _, _, _, p). length p)")
    (auto dest!: unquote_shorter range_end_shorter)

declare range_loop.simps [simp del]

definition rangematch :: "32 word \<Rightarrow> char \<Rightarrow> string \<Rightarrow> string option" where
  "rangematch flags test p =
     (case p of c # p' \<Rightarrow> if c = CHR ''!'' \<or> c = CHR ''^'' then range_loop flags True test False p' else range_loop flags False test False p
      | [] \<Rightarrow> range_loop flags False test False p)"

text \<open>The rests of the string that the loop behind a star tries.\<close>

fun star_tries :: "bool \<Rightarrow> string \<Rightarrow> string list" where
  "star_tries pathname [] = []"
| "star_tries pathname (c # s) = (c # s) # (if c = CHR ''/'' \<and> pathname then [] else star_tries pathname s)"

text \<open>A period that only a period of the pattern may match; \<open>prev\<close> is the byte in front, \<open>None\<close> at the start.\<close>

definition period_here :: "32 word \<Rightarrow> char option \<Rightarrow> string \<Rightarrow> bool" where
  "period_here flags prev s \<longleftrightarrow> fnm_flag flags FNM_PERIOD \<and> s \<noteq> [] \<and> hd s = CHR ''.'' \<and>
     (prev = None \<or> fnm_flag flags FNM_PATHNAME \<and> prev = Some (CHR ''/''))"

lemma range_loop_shorter: "range_loop flags negate test ok p = Some p' \<Longrightarrow> length p' \<le> length p"
proof (induction flags negate test ok p rule: range_loop.induct)
  case (1 flags negate test ok p)
  note r = "1.prems" [unfolded range_loop.simps [of flags negate test ok p]]
  show ?case
  proof (cases p)
    case (Cons c q)
    show ?thesis
    proof (cases "c = CHR '']''")
      case False
      obtain c' q' where u: "unquote flags c q = Some (c', q')"
        using r False Cons by (auto split: option.splits)
      show ?thesis
      proof (cases "range_end q'")
        case None
        then have "length p' \<le> length q'" using "1.IH"(1) [OF Cons False u refl None] r u False Cons by simp
        then show ?thesis using unquote_shorter [OF u] Cons by simp
      next
        case (Some x)
        obtain c2 q2 where x: "x = (c2, q2)" by (cases x)
        obtain c3 q3 where v: "unquote flags c2 q2 = Some (c3, q3)"
          using r u Some x False Cons by (auto split: option.splits)
        then have "length p' \<le> length q3" using "1.IH"(2) [OF Cons False u refl Some x [symmetric] v refl] r u Some x False Cons by simp
        then show ?thesis using unquote_shorter [OF u] unquote_shorter [OF v] range_end_shorter [OF Some [unfolded x]] Cons by simp
      qed
    qed (use r Cons in \<open>simp split: if_splits\<close>)
  qed (use r in simp)
qed

lemma rangematch_shorter: "rangematch flags test p = Some p' \<Longrightarrow> length p' \<le> length p"
  by (auto simp: rangematch_def split: list.splits if_splits dest: range_loop_shorter)

text \<open>The function from any place in its loop on; the result is whether 0 is returned, which is a match.\<close>

function fnm :: "32 word \<Rightarrow> char option \<Rightarrow> string \<Rightarrow> string \<Rightarrow> bool" where
  "fnm flags prev p s =
     (case p of [] \<Rightarrow> s = []
      | c # p \<Rightarrow>
        if c = CHR ''?'' then
          (case s of [] \<Rightarrow> False
           | t # s' \<Rightarrow>
             if t = CHR ''/'' \<and> fnm_flag flags FNM_PATHNAME then False
             else if period_here flags prev s then False
             else fnm flags (Some t) p s')
        else if c = CHR ''*'' then
          (let p' = dropWhile (\<lambda>c. c = CHR ''*'') p in
           if period_here flags prev s then False
           else if p' = [] then \<not> fnm_flag flags FNM_PATHNAME \<or> CHR ''/'' \<notin> set s
           else if hd p' = CHR ''/'' \<and> fnm_flag flags FNM_PATHNAME then
             (let skipped = takeWhile (\<lambda>t. t \<noteq> CHR ''/'') s; s' = dropWhile (\<lambda>t. t \<noteq> CHR ''/'') s in
              if s' = [] then False else fnm flags (if skipped = [] then prev else Some (last skipped)) p' s')
           else list_ex (\<lambda>s. fnm (without_period flags) None p' s) (star_tries (fnm_flag flags FNM_PATHNAME) s))
        else if c = CHR ''['' then
          (case s of [] \<Rightarrow> False
           | t # s' \<Rightarrow>
             if t = CHR ''/'' \<and> fnm_flag flags FNM_PATHNAME then False
             else (case rangematch flags t p of None \<Rightarrow> False | Some p' \<Rightarrow> fnm flags (Some t) p' s'))
        else
          (let (c, p') = (case unquote flags c p of None \<Rightarrow> (c, p) | Some x \<Rightarrow> x) in
           case s of [] \<Rightarrow> False | t # s' \<Rightarrow> if c \<noteq> t then False else fnm flags (Some t) p' s'))"
  by pat_completeness auto
termination
  by (relation "measure (\<lambda>(_, _, p, _). length p)")
    (auto simp: less_Suc_eq_le length_dropWhile_le dest!: rangematch_shorter unquote_shorter split: option.splits)

declare fnm.simps [simp del]

definition FNM_NOMATCH :: int where "FNM_NOMATCH = 1"

definition fnmatch :: "string \<Rightarrow> string \<Rightarrow> 32 word \<Rightarrow> int" where
  "fnmatch pattern str flags = (if fnm flags None pattern str then 0 else FNM_NOMATCH)"

section \<open>Patterns as lists of tokens\<close>

text \<open>What a pattern says, told without the loops of the code.\<close>

datatype fnm_item = One char | Range char char

datatype fnm_token = TLit char | TAny | TStar | TSet bool "fnm_item list" | TBad

fun item_has :: "char \<Rightarrow> fnm_item \<Rightarrow> bool" where
  "item_has t (One c) \<longleftrightarrow> c = t"
| "item_has t (Range a b) \<longleftrightarrow> schar a \<le> schar t \<and> schar t \<le> schar b"

function items :: "32 word \<Rightarrow> string \<Rightarrow> (fnm_item list \<times> string) option" where
  "items flags p =
     (case p of [] \<Rightarrow> None
      | c # p \<Rightarrow>
        if c = CHR '']'' then Some ([], p)
        else (case unquote flags c p of None \<Rightarrow> None
        | Some (c, p) \<Rightarrow>
          (case range_end p of
             None \<Rightarrow> map_option (apfst (Cons (One c))) (items flags p)
           | Some (c2, p) \<Rightarrow>
             (case unquote flags c2 p of None \<Rightarrow> None
              | Some (c2, p) \<Rightarrow> map_option (apfst (Cons (Range c c2))) (items flags p)))))"
  by pat_completeness auto
termination
  by (relation "measure (\<lambda>(_, p). length p)") (auto dest!: unquote_shorter range_end_shorter)

declare items.simps [simp del]

definition bracket :: "32 word \<Rightarrow> string \<Rightarrow> (bool \<times> fnm_item list \<times> string) option" where
  "bracket flags p =
     (let negate = (p \<noteq> [] \<and> (hd p = CHR ''!'' \<or> hd p = CHR ''^'')) in
      map_option (Pair negate) (items flags (if negate then tl p else p)))"

lemma range_loop_items:
  "range_loop flags negate test ok p =
     (case items flags p of None \<Rightarrow> None
      | Some (is, p') \<Rightarrow> if (ok \<or> list_ex (item_has test) is) = negate then None else Some p')"
proof (induction flags negate test ok p rule: range_loop.induct)
  case (1 flags negate test ok p)
  show ?case
  proof (cases p)
    case (Cons c q)
    show ?thesis
    proof (cases "c = CHR '']'' \<or> unquote flags c q = None")
      case False
      then obtain c' q' where u: "unquote flags c q = Some (c', q')" and c: "c \<noteq> CHR '']''" by auto
      show ?thesis
      proof (cases "range_end q'")
        case None
        then show ?thesis using "1.IH"(1) [OF Cons c u refl None] u c Cons
          by (subst range_loop.simps, subst items.simps) (auto split: option.splits)
      next
        case (Some x)
        obtain c2 q2 where x: "x = (c2, q2)" by (cases x)
        show ?thesis
        proof (cases "unquote flags c2 q2")
          case None
          then show ?thesis using Some u c Cons x by (subst range_loop.simps, subst items.simps) simp
        next
          case v: (Some y)
          obtain c3 q3 where y: "y = (c3, q3)" by (cases y)
          show ?thesis using "1.IH"(2) [OF Cons c u refl Some x [symmetric] v y [symmetric]] v y Some u c Cons x
            by (subst range_loop.simps, subst items.simps) (auto split: option.splits)
        qed
      qed
    qed (use Cons in \<open>subst range_loop.simps, subst items.simps, auto\<close>)
  qed (subst range_loop.simps, subst items.simps, simp)
qed

lemma rangematch_bracket:
  "rangematch flags t p =
     (case bracket flags p of None \<Rightarrow> None
      | Some (negate, is, p') \<Rightarrow> if list_ex (item_has t) is = negate then None else Some p')"
  by (cases p) (auto simp: rangematch_def bracket_def range_loop_items split: option.splits)

lemma items_shorter: "items flags p = Some (is, p') \<Longrightarrow> length p' \<le> length p"
  by (rule range_loop_shorter [of flags "\<not> list_ex (item_has NUL) is" NUL False]) (simp add: range_loop_items)

lemma bracket_shorter: "bracket flags p = Some (negate, is, p') \<Longrightarrow> length p' \<le> length p"
  by (cases p) (auto simp: bracket_def Let_def split: if_splits dest: items_shorter)

function tokens :: "32 word \<Rightarrow> string \<Rightarrow> fnm_token list" where
  "tokens flags p =
     (case p of [] \<Rightarrow> []
      | c # p \<Rightarrow>
        if c = CHR ''?'' then TAny # tokens flags p
        else if c = CHR ''*'' then TStar # tokens flags p
        else if c = CHR ''['' then
          (case bracket flags p of None \<Rightarrow> [TBad] | Some (negate, is, p) \<Rightarrow> TSet negate is # tokens flags p)
        else (case unquote flags c p of None \<Rightarrow> [TLit c] | Some (c, p) \<Rightarrow> TLit c # tokens flags p))"
  by pat_completeness auto
termination
  by (relation "measure (\<lambda>(_, p). length p)") (auto simp: less_Suc_eq_le dest!: unquote_shorter bracket_shorter)

declare tokens.simps [simp del]

text \<open>One byte against one token. With \<open>FNM_PATHNAME\<close> only a slash of the pattern is a slash.\<close>

fun token_has :: "bool \<Rightarrow> char \<Rightarrow> fnm_token \<Rightarrow> bool" where
  "token_has pathname t (TLit c) \<longleftrightarrow> c = t"
| "token_has pathname t TAny \<longleftrightarrow> \<not> (pathname \<and> t = CHR ''/'')"
| "token_has pathname t (TSet negate is) \<longleftrightarrow> \<not> (pathname \<and> t = CHR ''/'') \<and> list_ex (item_has t) is \<noteq> negate"
| "token_has pathname t _ \<longleftrightarrow> False"

text \<open>A star stands for any string, with \<open>FNM_PATHNAME\<close> for one without a slash.\<close>

fun token_match :: "bool \<Rightarrow> fnm_token list \<Rightarrow> string \<Rightarrow> bool" where
  "token_match pathname [] s \<longleftrightarrow> s = []"
| "token_match pathname (t # ts) s \<longleftrightarrow>
     (if t = TStar then \<exists>n \<le> length s. (pathname \<longrightarrow> CHR ''/'' \<notin> set (take n s)) \<and> token_match pathname ts (drop n s)
      else s \<noteq> [] \<and> token_has pathname (hd s) t \<and> token_match pathname ts (tl s))"

definition wildcard_first :: "fnm_token list \<Rightarrow> bool" where
  "wildcard_first ts \<longleftrightarrow> ts \<noteq> [] \<and> (hd ts = TAny \<or> hd ts = TStar)"

section \<open>Stars\<close>

lemma match_star_Nil: "token_match pn (TStar # ts) [] \<longleftrightarrow> token_match pn ts []"
  by simp

lemma match_star_Cons:
  "token_match pn (TStar # ts) (c # s) \<longleftrightarrow>
     token_match pn ts (c # s) \<or> \<not> (pn \<and> c = CHR ''/'') \<and> token_match pn (TStar # ts) s"
proof -
  have e: "(\<exists>n \<le> Suc m. P n) \<longleftrightarrow> P 0 \<or> (\<exists>n \<le> m. P (Suc n))" for m and P :: "nat \<Rightarrow> bool"
    by (metis Suc_le_mono not0_implies_Suc zero_le)
  show ?thesis by (auto simp: e)
qed

lemmas match_star = match_star_Nil match_star_Cons

lemma match_star_star: "token_match pn (TStar # TStar # ts) s \<longleftrightarrow> token_match pn (TStar # ts) s"
  by (induction s) (auto simp only: match_star)

lemma match_star_last: "token_match pn [TStar] s \<longleftrightarrow> \<not> pn \<or> CHR ''/'' \<notin> set s"
  by (induction s) (simp_all only: match_star, auto)

lemma match_star_tries:
  "\<not> token_match pn ts [] \<Longrightarrow> token_match pn (TStar # ts) s \<longleftrightarrow> list_ex (token_match pn ts) (star_tries pn s)"
  by (induction s) (simp_all only: match_star, auto)

lemma match_star_slash:
  "token_match True (TStar # TLit (CHR ''/'') # ts) s \<longleftrightarrow>
     (let s' = dropWhile (\<lambda>t. t \<noteq> CHR ''/'') s in s' \<noteq> [] \<and> token_match True (TLit (CHR ''/'') # ts) s')"
  by (induction s) (simp_all only: match_star, auto)

lemma tokens_stars:
  "token_match pn (TStar # tokens flags (dropWhile (\<lambda>c. c = CHR ''*'') p)) s \<longleftrightarrow> token_match pn (TStar # tokens flags p) s"
proof (induction p)
  case (Cons c p)
  have "tokens flags (CHR ''*'' # p) = TStar # tokens flags p" by (subst tokens.simps) simp
  then show ?case using Cons match_star_star [of pn "tokens flags p" s] by (auto simp del: token_match.simps)
qed simp

lemma tokens_Nil [simp]: "tokens flags [] = []"
  by (subst tokens.simps) simp

lemma tokens_first:
  "p \<noteq> [] \<Longrightarrow> hd p \<noteq> CHR ''*'' \<Longrightarrow> \<exists>t ts. tokens flags p = t # ts \<and> t \<noteq> TStar"
  by (subst tokens.simps) (auto split: list.split option.split)

lemma tokens_slash: "p \<noteq> [] \<Longrightarrow> hd p = CHR ''/'' \<Longrightarrow> tokens flags p = TLit (CHR ''/'') # tokens flags (tl p)"
  by (subst tokens.simps) (auto simp: unquote_def split: list.split)

lemma tokens_flags [simp]: "tokens (without_period flags) p = tokens flags p"
proof -
  have u: "unquote (without_period flags) = unquote flags" by (simp add: unquote_def fun_eq_iff)
  have i: "items (without_period flags) p = items flags p" for p
  proof (induction "without_period flags" p rule: items.induct)
    case (1 p)
    then show ?case unfolding items.simps [of "without_period flags" p] items.simps [of flags p] u
      by (simp split: list.split option.split)
  qed
  show ?thesis
  proof (induction "without_period flags" p rule: tokens.induct)
    case (1 p)
    then show ?case unfolding tokens.simps [of "without_period flags" p] tokens.simps [of flags p] u bracket_def i
      by (simp add: Let_def split: list.split option.split)
  qed
qed

section \<open>The code and the tokens\<close>

lemma period_here_simps [simp]:
  "\<not> period_here flags prev []" "\<not> period_here (without_period flags) prev s"
  "\<not> (fnm_flag flags FNM_PERIOD \<and> fnm_flag flags FNM_PATHNAME) \<Longrightarrow> \<not> period_here flags (Some t) s"
  by (auto simp: period_here_def)

lemma wildcard_first_simps [simp]:
  "\<not> wildcard_first []" "wildcard_first (t # ts) \<longleftrightarrow> t = TAny \<or> t = TStar"
  by (auto simp: wildcard_first_def)

lemma fnm_star:
  "fnm flags prev (CHR ''*'' # p) s \<longleftrightarrow>
     (let p' = dropWhile (\<lambda>c. c = CHR ''*'') p in
      if period_here flags prev s then False
      else if p' = [] then \<not> fnm_flag flags FNM_PATHNAME \<or> CHR ''/'' \<notin> set s
      else if hd p' = CHR ''/'' \<and> fnm_flag flags FNM_PATHNAME then
        (let skipped = takeWhile (\<lambda>t. t \<noteq> CHR ''/'') s; s' = dropWhile (\<lambda>t. t \<noteq> CHR ''/'') s in
         if s' = [] then False else fnm flags (if skipped = [] then prev else Some (last skipped)) p' s')
      else list_ex (\<lambda>s. fnm (without_period flags) None p' s) (star_tries (fnm_flag flags FNM_PATHNAME) s))"
  by (subst fnm.simps) (simp only: list.case char.inject if_True if_False simp_thms)

lemma fnm_tokens:
  assumes "\<not> (fnm_flag flags FNM_PERIOD \<and> fnm_flag flags FNM_PATHNAME)"
  shows "fnm flags prev p s \<longleftrightarrow>
    token_match (fnm_flag flags FNM_PATHNAME) (tokens flags p) s \<and> \<not> (period_here flags prev s \<and> wildcard_first (tokens flags p))"
  using assms
proof (induction flags prev p s rule: fnm.induct)
  case (1 flags prev p s)
  let ?pn = "fnm_flag flags FNM_PATHNAME"
  show ?case
  proof (cases p)
    case Nil
    then show ?thesis by (subst fnm.simps, subst (1 2) tokens.simps) simp
  next
    case (Cons c q)
    consider "c = CHR ''?''" | "c = CHR ''*''" | "c = CHR ''[''" | "c \<notin> {CHR ''?'', CHR ''*'', CHR ''[''}" by blast
    then show ?thesis
    proof cases
      case 1
      have t: "tokens flags p = TAny # tokens flags q" using 1 Cons by (subst tokens.simps) simp
      show ?thesis unfolding t using "1.IH"(1) [OF Cons 1] "1.prems" 1 Cons
        by (subst fnm.simps) (auto split: list.split)
    next
      case 2
      define q' where "q' = dropWhile (\<lambda>c. c = CHR ''*'') q"
      have t: "tokens flags p = TStar # tokens flags q" using 2 Cons by (subst tokens.simps) simp
      have m: "token_match ?pn (tokens flags p) s \<longleftrightarrow> token_match ?pn (TStar # tokens flags q') s"
        unfolding t q'_def by (rule tokens_stars [symmetric])
      have w: "wildcard_first (tokens flags p)" unfolding t by simp
      have c: "c \<noteq> CHR ''?''" "c = CHR ''*''" using 2 by simp_all
      note star = fnm_star [of flags prev q s, folded 2 Cons q'_def, unfolded Let_def]
      consider "period_here flags prev s" | "\<not> period_here flags prev s" "q' = []"
        | "\<not> period_here flags prev s" "q' \<noteq> []" "hd q' = CHR ''/''" ?pn
        | "\<not> period_here flags prev s" "q' \<noteq> []" "\<not> (hd q' = CHR ''/'' \<and> ?pn)" by blast
      then show ?thesis
      proof cases
        case 1
        then show ?thesis using w unfolding star by simp
      next
        case 2
        have "token_match ?pn (TStar # tokens flags q') s \<longleftrightarrow> \<not> ?pn \<or> CHR ''/'' \<notin> set s"
          using 2(2) match_star_last by (simp del: token_match.simps)
        then show ?thesis using 2 unfolding star m by simp
      next
        case 3
        let ?s' = "dropWhile (\<lambda>t. t \<noteq> CHR ''/'') s"
        have f: "tokens flags q' = TLit (CHR ''/'') # tokens flags (tl q')" by (rule tokens_slash [OF 3(2,3)])
        have p: "\<not> fnm_flag flags FNM_PERIOD" "?pn = True" using "1.prems" 3(4) by simp_all
        have "fnm flags prev p s \<longleftrightarrow> ?s' \<noteq> [] \<and> token_match True (tokens flags q') ?s'"
          using "1.IH"(2) [OF Cons c q'_def 3(1,2) _ refl refl] "1.prems" 3 f unfolding star period_here_def p
          by (cases "?s' = []") (simp_all del: token_match.simps dropWhile_eq_Nil_conv)
        then show ?thesis using match_star_slash [of "tokens flags (tl q')" s] 3(1)
          unfolding p m [unfolded p f] f Let_def by (simp del: token_match.simps)
      next
        case 4
        have "hd q' \<noteq> CHR ''*''" using hd_dropWhile [of "\<lambda>c. c = CHR ''*''" q] 4(2) by (simp add: q'_def)
        then have n: "\<not> token_match ?pn (tokens flags q') []" using tokens_first [OF 4(2), of flags] by auto
        have "fnm flags prev p s \<longleftrightarrow> list_ex (\<lambda>s. fnm (without_period flags) None q' s) (star_tries ?pn s)"
          unfolding star by (simp only: 4 if_False)
        also have "\<dots> \<longleftrightarrow> list_ex (token_match ?pn (tokens flags q')) (star_tries ?pn s)"
          using "1.IH"(3) [OF Cons c q'_def 4] by (simp add: list_ex_iff)
        finally show ?thesis using match_star_tries [OF n] 4(1) unfolding m by simp
      qed
    next
      case 3
      show ?thesis
      proof (cases "bracket flags q")
        case None
        have t: "tokens flags p = [TBad]" using 3 None Cons by (subst tokens.simps) simp
        show ?thesis unfolding t using 3 None Cons
          by (subst fnm.simps) (simp add: rangematch_bracket split: list.split)
      next
        case (Some x)
        obtain neg "is" r where x: "x = (neg, is, r)" by (cases x)
        have t: "tokens flags p = TSet neg is # tokens flags r" using 3 Some x Cons by (subst tokens.simps) simp
        show ?thesis unfolding t using "1.IH"(4) [OF Cons _ _ 3] "1.prems" 3 Some x Cons
          by (subst fnm.simps) (auto simp: rangematch_bracket split: list.split)
      qed
    next
      case 4
      obtain d r where u: "(case unquote flags c q of None \<Rightarrow> (c, q) | Some x \<Rightarrow> x) = (d, r)" by force
      have t: "tokens flags p = TLit d # tokens flags r"
        using 4 Cons u by (subst tokens.simps) (auto simp: unquote_def split: if_splits list.splits)
      show ?thesis unfolding t using "1.IH"(5) [OF Cons _ _ _ u [symmetric] refl] "1.prems" 4 Cons u
        by (subst fnm.simps) (auto split: list.split)
    qed
  qed
qed

section \<open>What \<open>fnmatch\<close> returns\<close>

text \<open>
  C37. The meaning of \<open>fnmatch\<close>: it returns 0 exactly when the tokens of the pattern match the string, where with
  \<open>FNM_PATHNAME\<close> only a slash of the pattern matches a slash, and with \<open>FNM_PERIOD\<close> no wildcard at the start matches a
  period there; else it returns \<open>FNM_NOMATCH\<close>. The two flags together are excepted.
\<close>

theorem fnmatch_matches:
  assumes "\<not> (fnm_flag flags FNM_PERIOD \<and> fnm_flag flags FNM_PATHNAME)"
  shows "fnmatch pattern str flags =
    (if token_match (fnm_flag flags FNM_PATHNAME) (tokens flags pattern) str \<and>
        \<not> (fnm_flag flags FNM_PERIOD \<and> str \<noteq> [] \<and> hd str = CHR ''.'' \<and> wildcard_first (tokens flags pattern))
     then 0 else FNM_NOMATCH)"
  using fnm_tokens [OF assms, of None pattern str] by (simp add: fnmatch_def period_here_def)

lemma fnmatch_matches_witness:
  "fnmatch ''*.[ch]'' ''a.c'' FNM_PATHNAME = 0 \<and> fnmatch ''*.[ch]'' ''a/.c'' FNM_PATHNAME = FNM_NOMATCH"
proof -
  have f: "\<not> (fnm_flag FNM_PATHNAME FNM_PERIOD \<and> fnm_flag FNM_PATHNAME FNM_PATHNAME)"
    "fnm_flag FNM_PATHNAME FNM_PATHNAME = True" "fnm_flag FNM_PATHNAME FNM_PERIOD = False"
    by (simp_all add: fnm_flag_def FNM_PATHNAME_def FNM_PERIOD_def)
  have "tokens FNM_PATHNAME ''*.[ch]'' = [TStar, TLit (CHR ''.''), TSet False [One (CHR ''c''), One (CHR ''h'')]]"
    by code_simp
  then show ?thesis
    unfolding fnmatch_matches [OF f(1)] f by (simp only: match_star) simp
qed

text \<open>A pattern with no special byte matches itself and nothing else, whatever the flags.\<close>

lemma fnmatch_literal:
  assumes "\<forall>c \<in> set pattern. c \<notin> {CHR ''?'', CHR ''*'', CHR ''['', CHR 0x5C}"
  shows "fnmatch pattern str flags = (if str = pattern then 0 else FNM_NOMATCH)"
proof -
  have "fnm flags prev pattern str \<longleftrightarrow> str = pattern" for prev
    using assms
  proof (induction pattern arbitrary: str prev)
    case Nil
    then show ?case by (subst fnm.simps) simp
  next
    case (Cons c p)
    then show ?case by (subst fnm.simps) (auto simp: unquote_def split: list.split)
  qed
  then show ?thesis by (simp add: fnmatch_def)
qed

text \<open>
  What the flags together miss: the recursion for a star takes \<open>FNM_PERIOD\<close> away from the whole rest, so a period behind
  a later slash is matched by a wildcard. A bracket expression matches a leading period in any case. The standard, which
  the code names, forbids both, and has a bracket first in a bracket expression stand for itself.
\<close>

lemma fnmatch_period_lost:
  "fnmatch ''a*b/?c'' ''ab/.c'' (FNM_PATHNAME OR FNM_PERIOD) = 0" "fnmatch ''ab/?c'' ''ab/.c'' (FNM_PATHNAME OR FNM_PERIOD) = FNM_NOMATCH"
  "fnmatch ''[.]c'' ''.c'' FNM_PERIOD = 0" "fnmatch ''[]]'' '']'' 0 = FNM_NOMATCH"
  by code_simp+

end
