(* ===== verification/Missing.thy ===== *)
theory Missing
  imports Parserow
begin

text \<open>
  Replacements for functions that a system may lack: \<open>mkstemp\<close>, \<open>strdup\<close>, \<open>strerror\<close> and \<open>snprintf\<close> in the directory
  missing; \<open>fnmatch\<close> is in Fnmatch. A path is the list of the bytes in front of its terminator; the system calls and
  the process number are parameters.
\<close>

section \<open>Temporary files: the code\<close>

text \<open>The bytes \<open>xtra[0]\<close> and \<open>xtra[1]\<close>, which are kept from call to call, and their update.\<close>

type_synonym xtra = "char \<times> char"

definition char_inc :: "char \<Rightarrow> char" where
  "char_inc c = char_of (of_char c + (1 :: nat))"

definition next_xtra :: "xtra \<Rightarrow> xtra" where
  "next_xtra x =
     (if fst x \<noteq> CHR ''z'' then (char_inc (fst x), snd x)
      else (CHR ''a'', if snd x \<noteq> CHR ''z'' then char_inc (snd x) else CHR ''a''))"

text \<open>The first loop counts the bytes \<open>X\<close> at the end.\<close>

definition count_x :: "string \<Rightarrow> nat" where
  "count_x path = foldl (\<lambda>n c. if c = CHR ''X'' then Suc n else 0) 0 path"

text \<open>\<open>*(trv - 1)\<close>; in front of the path nothing may be read.\<close>

definition char_before :: "string \<Rightarrow> nat \<Rightarrow> char outcome" where
  "char_before path trv = (if trv = 0 then Undef else Ret (path ! (trv - 1)))"

definition put_back :: "char \<Rightarrow> nat \<times> string \<Rightarrow> nat \<times> string" where
  "put_back c = (\<lambda>(trv, path). (trv - 1, path[trv - 1 := c]))"

fun pid_loop :: "nat \<Rightarrow> nat \<Rightarrow> string \<Rightarrow> (nat \<times> string) outcome" where
  "pid_loop pid 0 path = Undef"
| "pid_loop pid (Suc trv) path =
     (if path ! trv = CHR ''X'' then pid_loop (pid div 10) trv (path[trv := char_of (48 + pid mod 10)]) else Ret (trv, path))"

definition fill_name :: "nat \<Rightarrow> xtra \<Rightarrow> string \<Rightarrow> (nat \<times> string) outcome" where
  "fill_name pid x path =
     bindO (char_before path (length path)) (\<lambda>c.
     let (trv, path') = (if c = CHR ''X'' then put_back (fst x) (length path, path) else (length path, path)) in
     if 6 < count_x path
     then bindO (char_before path' trv) (\<lambda>c.
       let (trv, path') = (if c = CHR ''X'' then put_back (snd x) (trv, path') else (trv, path')) in
       pid_loop pid trv path')
     else pid_loop pid trv path')"

text \<open>
  The check of the directory: \<open>stat\<close> says whether something is there and is a directory. The slash is put back only
  when the check succeeds, so else the path is left cut off.
\<close>

fun dir_check :: "(string \<Rightarrow> bool) \<Rightarrow> nat \<Rightarrow> string \<Rightarrow> bool \<times> string" where
  "dir_check is_dir 0 path = (True, path)"
| "dir_check is_dir (Suc trv) path =
     (if path ! Suc trv = CHR ''/'' then if is_dir (take (Suc trv) path) then (True, path) else (False, take (Suc trv) path)
      else dir_check is_dir trv path)"

text \<open>The next name; \<open>False\<close> when the terminator is reached.\<close>

fun bump :: "string \<Rightarrow> bool \<times> string" where
  "bump [] = (False, [])"
| "bump (c # s) =
     (if c = CHR ''z'' then apsnd (Cons (CHR ''a'')) (bump s)
      else (True, (if isdigit c then CHR ''a'' else char_inc c) # s))"

text \<open>
  One round of the loop on the names: \<open>None\<close> to go on, else the result, with the descriptor. Without \<open>doopen\<close> the
  function only looks whether the name is free.
\<close>

definition try_name :: "(string \<Rightarrow> errno + nat) option \<Rightarrow> (string \<Rightarrow> errno + unit) \<Rightarrow> string \<Rightarrow> nat option option" where
  "try_name doopen lstat path =
     (case doopen of
        Some open \<Rightarrow> (case open path of Inr fd \<Rightarrow> Some (Some fd) | Inl e \<Rightarrow> if e \<noteq> EEXIST then Some None else None)
      | None \<Rightarrow> (case lstat path of Inl e \<Rightarrow> Some (if e = ENOENT then Some 0 else None) | Inr _ \<Rightarrow> None))"

text \<open>The fuel is the number of words over the digits, taken as one, and the letters.\<close>

fun name_loop :: "nat \<Rightarrow> (string \<Rightarrow> nat option option) \<Rightarrow> nat \<Rightarrow> string \<Rightarrow> (nat option \<times> string) outcome" where
  "name_loop 0 attempt start path = Undef"
| "name_loop (Suc n) attempt start path =
     (case attempt path of Some r \<Rightarrow> Ret (r, path)
      | None \<Rightarrow>
        (let (ok, name) = bump (drop start path); path = take start path @ name in
         if ok then name_loop n attempt start path else Ret (None, path)))"

definition gettemp ::
  "(string \<Rightarrow> errno + nat) option \<Rightarrow> (string \<Rightarrow> errno + unit) \<Rightarrow> (string \<Rightarrow> bool) \<Rightarrow> nat \<Rightarrow> xtra \<Rightarrow> string \<Rightarrow>
   (nat option \<times> string \<times> xtra) outcome" where
  "gettemp doopen lstat is_dir pid x path =
     bindO (fill_name pid x path) (\<lambda>(trv, path).
     let (ok, path) = dir_check is_dir trv path; start = trv + 1 in
     if \<not> ok then Ret (None, path, next_xtra x)
     else bindO (name_loop (27 ^ (length path - start)) (try_name doopen lstat) start path) (\<lambda>(r, path). Ret (r, path, next_xtra x)))"

definition mkstemp ::
  "(string \<Rightarrow> errno + nat) \<Rightarrow> (string \<Rightarrow> errno + unit) \<Rightarrow> (string \<Rightarrow> bool) \<Rightarrow> nat \<Rightarrow> xtra \<Rightarrow> string \<Rightarrow> (int \<times> string \<times> xtra) outcome" where
  "mkstemp open lstat is_dir pid x path =
     bindO (gettemp (Some open) lstat is_dir pid x path) (\<lambda>(r, path, x).
       Ret (case r of Some fd \<Rightarrow> int fd | None \<Rightarrow> - 1, path, x))"

section \<open>The names\<close>

definition lower :: "char \<Rightarrow> bool" where
  "lower c \<longleftrightarrow> 97 \<le> (of_char c :: nat) \<and> (of_char c :: nat) \<le> 122"

abbreviation name_char :: "char \<Rightarrow> bool" where
  "name_char c \<equiv> isdigit c \<or> lower c"

definition rank :: "char \<Rightarrow> nat" where
  "rank c = (if isdigit c then 0 else of_char c - 96)"

fun name_val :: "string \<Rightarrow> nat" where
  "name_val [] = 0"
| "name_val (c # s) = rank c + 27 * name_val s"

lemma rank_bound: "name_char c \<Longrightarrow> rank c < 27"
  by (auto simp: rank_def lower_def)

lemma name_val_bound: "\<forall>c \<in> set t. name_char c \<Longrightarrow> name_val t < 27 ^ length t"
proof (induction t)
  case (Cons c t)
  then show ?case using rank_bound [of c] by fastforce
qed simp

lemma char_inc_lower: "lower c \<Longrightarrow> c \<noteq> CHR ''z'' \<Longrightarrow> lower (char_inc c) \<and> of_char (char_inc c) = Suc (of_char c)"
proof -
  assume l: "lower c" and z: "c \<noteq> CHR ''z''"
  have "(of_char c :: nat) \<noteq> of_char (CHR ''z'')" using z by (metis char_of_char)
  then have b: "(of_char c :: nat) < 122" using l by (simp add: lower_def)
  then have "(of_char (char_inc c) :: nat) = Suc (of_char c)"
    by (simp add: char_inc_def)
  then show ?thesis using l b by (simp add: lower_def)
qed

lemma lower_not_digit: "lower c \<Longrightarrow> \<not> isdigit c"
  by (simp add: lower_def isdigit_def)

lemma lower_letters [simp]: "lower (CHR ''a'')" "lower (CHR ''z'')"
  by (simp_all add: lower_def)

lemma bump_length [simp]: "length (snd (bump t)) = length t"
  by (induction t rule: bump.induct) auto

lemma bump_name:
  "\<forall>c \<in> set t. name_char c \<Longrightarrow> (\<forall>c \<in> set (snd (bump t)). name_char c) \<and> (fst (bump t) \<longrightarrow> name_val t < name_val (snd (bump t)))"
proof (induction t rule: bump.induct)
  case (2 c s)
  have "rank (CHR ''z'') = 26" "rank (CHR ''a'') = 1" by (simp_all add: rank_def isdigit_def)
  moreover have "isdigit c \<Longrightarrow> rank c = 0" by (simp add: rank_def)
  moreover have "lower c \<Longrightarrow> c \<noteq> CHR ''z'' \<Longrightarrow> rank (char_inc c) = Suc (rank c) \<and> lower (char_inc c)"
    using char_inc_lower [of c] lower_not_digit by (auto simp: rank_def lower_def)
  ultimately show ?case using 2 lower_not_digit [of c] by auto
qed simp

text \<open>The last name is \<open>z\<close> throughout, and what is left behind it is \<open>a\<close> throughout.\<close>

lemma bump_last: "\<not> fst (bump t) \<Longrightarrow> t = replicate (length t) (CHR ''z'') \<and> snd (bump t) = replicate (length t) (CHR ''a'')"
  by (induction t rule: bump.induct) (auto split: if_splits)

section \<open>The first name\<close>

fun pid_digits :: "nat \<Rightarrow> nat \<Rightarrow> string" where
  "pid_digits pid 0 = []"
| "pid_digits pid (Suc k) = pid_digits (pid div 10) k @ [char_of (48 + pid mod 10)]"

definition first_name :: "nat \<Rightarrow> xtra \<Rightarrow> nat \<Rightarrow> string" where
  "first_name pid x n =
     (if n = 0 then [] else if n \<le> 6 then pid_digits pid (n - 1) @ [fst x] else pid_digits pid (n - 2) @ [snd x, fst x])"

lemma pid_digits_length [simp]: "length (pid_digits pid k) = k"
  by (induction pid k rule: pid_digits.induct) auto

lemma pid_digits_name: "c \<in> set (pid_digits pid k) \<Longrightarrow> name_char c"
  by (induction pid k rule: pid_digits.induct) (auto simp: isdigit_digit)

lemma first_name_length [simp]: "length (first_name pid x n) = n"
  by (auto simp: first_name_def)

lemma first_name_chars: "lower (fst x) \<Longrightarrow> lower (snd x) \<Longrightarrow> c \<in> set (first_name pid x n) \<Longrightarrow> name_char c"
  by (auto simp: first_name_def dest: pid_digits_name split: if_splits)

lemma count_replicate: "foldl (\<lambda>n c. if c = CHR ''X'' then Suc n else 0) m (replicate n (CHR ''X'')) = m + n"
  by (induction n arbitrary: m) auto

lemma count_x_template: "pre \<noteq> [] \<Longrightarrow> last pre \<noteq> CHR ''X'' \<Longrightarrow> count_x (pre @ replicate n (CHR ''X'')) = n"
proof -
  assume "pre \<noteq> []" "last pre \<noteq> CHR ''X''"
  then have "foldl (\<lambda>n c. if c = CHR ''X'' then Suc n else 0) 0 pre = 0"
    by (cases pre rule: rev_cases) auto
  then show ?thesis by (simp add: count_x_def count_replicate)
qed

lemma pid_loop_digits:
  "pre \<noteq> [] \<Longrightarrow> last pre \<noteq> CHR ''X'' \<Longrightarrow>
   pid_loop pid (length pre + k) (pre @ replicate k (CHR ''X'') @ post) = Ret (length pre - 1, pre @ pid_digits pid k @ post)"
proof (induction pid k arbitrary: post rule: pid_digits.induct)
  case (1 pid)
  then show ?case by (cases pre rule: rev_cases) (simp_all add: nth_append)
next
  case (2 pid k)
  have "replicate (Suc k) (CHR ''X'') = replicate k (CHR ''X'') @ [CHR ''X'']" by (simp add: replicate_append_same)
  then show ?case using 2 by (simp add: nth_append list_update_append)
qed

lemma fill_name_first:
  assumes "pre \<noteq> []" "last pre \<noteq> CHR ''X''"
  shows "fill_name pid x (pre @ replicate n (CHR ''X'')) = Ret (length pre - 1, pre @ first_name pid x n)"
proof -
  consider "n = 0" | k where "n = Suc k" "n \<le> 6" | k where "n = Suc (Suc k)" "6 < n"
    using that(2) [of "n - 1"] that(3) [of "n - 2"] that(1) by linarith
  then show ?thesis
  proof cases
    case 1
    then show ?thesis using assms pid_loop_digits [of pre pid 0 "[]"] count_x_template [OF assms, of 0]
      by (simp add: fill_name_def char_before_def first_name_def last_conv_nth)
  next
    case 2
    have "replicate n (CHR ''X'') = replicate k (CHR ''X'') @ [CHR ''X'']" using 2 by (simp add: replicate_append_same)
    then show ?thesis using 2 assms pid_loop_digits [of pre pid k "[fst x]"] count_x_template [OF assms, of n]
      by (simp add: fill_name_def char_before_def put_back_def first_name_def nth_append list_update_append Let_def)
  next
    case 3
    have "replicate n (CHR ''X'') = replicate k (CHR ''X'') @ [CHR ''X'', CHR ''X'']"
      using 3 by (simp add: replicate_append_same) (metis append_Cons append_Nil replicate_append_same append_assoc)
    then show ?thesis using 3 assms pid_loop_digits [of pre pid k "[snd x, fst x]"] count_x_template [OF assms, of n]
      by (simp add: fill_name_def char_before_def put_back_def first_name_def nth_append list_update_append Let_def)
  qed
qed

section \<open>The loop\<close>

abbreviation nth_name :: "string \<Rightarrow> nat \<Rightarrow> string" where
  "nth_name t k \<equiv> ((\<lambda>t. snd (bump t)) ^^ k) t"

lemma name_loop_ends:
  "\<forall>c \<in> set t. name_char c \<Longrightarrow> 27 ^ length t - name_val t \<le> fuel \<Longrightarrow>
   \<exists>k r. name_loop fuel attempt (length pre) (pre @ t) = Ret (r, pre @ nth_name t k) \<and>
     (\<forall>j < k. attempt (pre @ nth_name t j) = None) \<and>
     (attempt (pre @ nth_name t k) = Some r \<or> r = None \<and> nth_name t k = replicate (length t) (CHR ''a'') \<and> 0 < k)"
proof (induction fuel arbitrary: t)
  case 0
  then show ?case using name_val_bound [of t] by simp
next
  case (Suc fuel)
  show ?case
  proof (cases "attempt (pre @ t)")
    case (Some r)
    then show ?thesis by (intro exI [of _ 0] exI [of _ r]) simp
  next
    case None
    let ?t = "snd (bump t)"
    note b = bump_name [OF Suc.prems(1)]
    show ?thesis
    proof (cases "fst (bump t)")
      case True
      then have "27 ^ length ?t - name_val ?t \<le> fuel" using b Suc.prems(2) name_val_bound [of ?t] by (simp; arith)
      then obtain k r where k: "name_loop fuel attempt (length pre) (pre @ ?t) = Ret (r, pre @ nth_name ?t k)"
        "\<forall>j < k. attempt (pre @ nth_name ?t j) = None"
        "attempt (pre @ nth_name ?t k) = Some r \<or> r = None \<and> nth_name ?t k = replicate (length t) (CHR ''a'') \<and> 0 < k"
        using Suc.IH [of ?t] b by auto
      have s: "nth_name t (Suc j) = nth_name ?t j" for j
        using funpow_swap1 [of "\<lambda>t. snd (bump t)" j t] by simp
      have "\<forall>j < Suc k. attempt (pre @ nth_name t j) = None"
        using k(2) None by (metis s less_Suc_eq_0_disj funpow_0)
      then show ?thesis using None True k(1,3)
        by (intro exI [of _ "Suc k"] exI [of _ r]) (auto simp: s split_beta Let_def simp del: funpow.simps)
    next
      case False
      then show ?thesis using None bump_last [OF False]
        by (intro exI [of _ 1] exI [of _ None]) (simp add: split_beta Let_def)
    qed
  qed
qed

section \<open>\<open>mkstemp\<close>\<close>

lemma bump_iter_chars: "\<forall>c \<in> set t. name_char c \<Longrightarrow> \<forall>c \<in> set (nth_name t k). name_char c"
  by (induction k) (use bump_name in auto)

lemma dir_check_path:
  assumes "dir_check is_dir trv path = (ok, path')" "trv < length path"
  shows "if ok then path' = path
    else \<exists>i. 0 < i \<and> i \<le> trv \<and> path ! i = CHR ''/'' \<and> \<not> is_dir (take i path) \<and> path' = take i path"
  using assms by (induction is_dir trv path rule: dir_check.induct) (auto split: if_splits intro: le_SucI)

text \<open>
  C38. What \<open>mkstemp\<close> does with a path that ends in \<open>n\<close> bytes \<open>X\<close> behind another byte: it always returns. It
  takes the names from the process number and \<open>xtra\<close> on in a fixed order, all of \<open>n\<close> digits and small letters, up to
  the first one for which \<open>open\<close> does not say \<open>EEXIST\<close>, and returns its descriptor with the path of that name, or
  \<open>-1\<close> if the error was another one, if there is no further name, or if the directory is none; then no file was made.
\<close>

theorem mkstemp_result:
  assumes "pre \<noteq> []" "last pre \<noteq> CHR ''X''" "lower (fst x)" "lower (snd x)"
  shows "\<exists>r path. mkstemp open lstat is_dir pid x (pre @ replicate n (CHR ''X'')) = Ret (r, path, next_xtra x) \<and>
    (r = - 1 \<and> (\<exists>i. 0 < i \<and> i < length pre \<and> pre ! i = CHR ''/'' \<and> \<not> is_dir (take i pre) \<and> path = take i pre) \<or>
     (\<exists>k. let name = nth_name (first_name pid x n) k in
        path = pre @ name \<and> length name = n \<and> (\<forall>c \<in> set name. name_char c) \<and>
        (\<forall>j < k. open (pre @ nth_name (first_name pid x n) j) = Inl EEXIST) \<and>
        (open path = Inr (nat r) \<and> 0 \<le> r \<or>
         r = - 1 \<and> ((\<exists>e. open path = Inl e \<and> e \<noteq> EEXIST) \<or> 0 < k \<and> name = replicate n (CHR ''a'')))))"
proof -
  let ?t = "first_name pid x n" and ?attempt = "try_name (Some open) lstat"
  have tr: "?attempt p = None \<longleftrightarrow> open p = Inl EEXIST" "?attempt p = Some (Some fd) \<longleftrightarrow> open p = Inr fd"
    "?attempt p = Some None \<longleftrightarrow> (\<exists>e. open p = Inl e \<and> e \<noteq> EEXIST)" for p fd
    by (auto simp: try_name_def split: sum.split)
  have chars: "\<forall>c \<in> set ?t. name_char c" using first_name_chars [OF assms(3,4)] by blast
  have len: "length (nth_name ?t k) = n" for k by (induction k) simp_all
  obtain ok path where d: "dir_check is_dir (length pre - 1) (pre @ ?t) = (ok, path)" by force
  show ?thesis
  proof (cases ok)
    case False
    have l: "length pre - 1 < length (pre @ ?t)" using assms(1) by (cases pre) auto
    from dir_check_path [OF d l] False
    obtain i where "0 < i" "i \<le> length pre - 1" "(pre @ ?t) ! i = CHR ''/''" "\<not> is_dir (take i (pre @ ?t))" "path = take i (pre @ ?t)"
      by (simp only: if_False) blast
    moreover from this have "i < length pre" using assms(1) by (cases pre) auto
    ultimately show ?thesis
      using d False fill_name_first [OF assms(1,2)] by (auto simp: mkstemp_def gettemp_def nth_append)
  next
    case True
    obtain k r where k: "name_loop (27 ^ n) ?attempt (length pre) (pre @ ?t) = Ret (r, pre @ nth_name ?t k)"
      "\<forall>j < k. ?attempt (pre @ nth_name ?t j) = None"
      "?attempt (pre @ nth_name ?t k) = Some r \<or> r = None \<and> nth_name ?t k = replicate n (CHR ''a'') \<and> 0 < k"
      using name_loop_ends [OF chars, of "27 ^ n" ?attempt pre] by auto
    have "length pre - 1 < length (pre @ ?t)" using assms(1) by (cases pre) auto
    then have "path = pre @ ?t" using dir_check_path [OF d] True by (simp only: if_True)
    then have "mkstemp open lstat is_dir pid x (pre @ replicate n (CHR ''X'')) =
        Ret (case r of Some fd \<Rightarrow> int fd | None \<Rightarrow> - 1, pre @ nth_name ?t k, next_xtra x)"
      using d True k(1) assms(1) fill_name_first [OF assms(1,2), of pid x n] by (simp add: mkstemp_def gettemp_def)
    then show ?thesis using k(2,3) bump_iter_chars [OF chars, of k] len [of k]
      by (cases r) (auto simp: tr Let_def simp del: funpow.simps)
  qed
qed

lemma mkstemp_result_witness:
  "mkstemp (\<lambda>p. Inr 5) (\<lambda>p. Inl ENOENT) (\<lambda>p. True) 1042 (CHR ''a'', CHR ''a'') ''t/fXXX'' = Ret (5, ''t/f42a'', CHR ''b'', CHR ''a'')"
proof -
  let ?x = "(CHR ''a'', CHR ''a'')" and ?open = "\<lambda>p :: string. Inr 5 :: errno + nat"
  have x: "''t/f'' @ replicate 3 (CHR ''X'') = ''t/fXXX''" by (simp add: numeral_3_eq_3)
  have n: "first_name 1042 ?x 3 = ''42a''" "next_xtra ?x = (CHR ''b'', CHR ''a'')" by code_simp+
  have p: "''t/f'' \<noteq> []" "last ''t/f'' \<noteq> CHR ''X''" "lower (fst ?x)" "lower (snd ?x)" by simp_all
  show ?thesis
    using mkstemp_result [OF p, of ?open "\<lambda>p. Inl ENOENT" "\<lambda>p. True" 1042 3] unfolding x n Let_def
    by (elim exE conjE disjE) (simp_all del: funpow.simps, auto dest: spec [of _ 0])
qed

text \<open>A path of nothing but \<open>X\<close>, and an empty one, make it look at the byte in front.\<close>

lemma pid_loop_reads_before: "pid_loop pid k (replicate k (CHR ''X'') @ post) = Undef"
proof (induction k arbitrary: pid post)
  case (Suc k)
  have "replicate (Suc k) (CHR ''X'') = replicate k (CHR ''X'') @ [CHR ''X'']" by (simp add: replicate_append_same)
  then show ?case using Suc by (simp add: nth_append list_update_append)
qed simp

lemma mkstemp_reads_before: "mkstemp open lstat is_dir pid x (replicate n (CHR ''X'')) = Undef"
proof -
  have c: "replicate (Suc k) (CHR ''X'') = replicate k (CHR ''X'') @ [CHR ''X'']" for k by (simp add: replicate_append_same)
  have n: "count_x (replicate n (CHR ''X'')) = n" by (simp add: count_x_def count_replicate)
  consider "n = 0" | k where "n = Suc k" "n \<le> 6" | k where "n = Suc (Suc k)" "6 < n"
    using that(2) [of "n - 1"] that(3) [of "n - 2"] that(1) by linarith
  then have "fill_name pid x (replicate n (CHR ''X'')) = Undef"
  proof cases
    case 2
    show ?thesis using 2(2) n pid_loop_reads_before [of pid k "[fst x]"] unfolding 2(1) c
      by (simp add: fill_name_def char_before_def put_back_def nth_append list_update_append)
  next
    case 3
    show ?thesis using 3(2) n pid_loop_reads_before [of pid k "[snd x, fst x]"] unfolding 3(1) c
      by (simp add: fill_name_def char_before_def put_back_def nth_append list_update_append)
  qed (simp add: fill_name_def char_before_def)
  then show ?thesis by (simp add: mkstemp_def gettemp_def)
qed

section \<open>Strings\<close>

text \<open>\<open>strdup\<close> on a buffer; \<open>ok\<close> says whether there is memory.\<close>

definition strdup :: "bool \<Rightarrow> char arr \<Rightarrow> char arr option outcome" where
  "strdup ok str =
     bindO (arr_cstr str) (\<lambda>s.
     if \<not> ok then Ret None
     else bindO (arr_copy (arr_alloc (length s + 1)) 0 str 0 (length s + 1)) (\<lambda>copy. Ret (Some copy)))"

text \<open>The table of the system has \<open>sys_nerr\<close> entries; \<open>None\<close> is \<open>NULL\<close>.\<close>

definition strerror :: "string list \<Rightarrow> int \<Rightarrow> string option" where
  "strerror sys_errlist num =
     (if 0 < num \<and> num < int (length sys_errlist) then Some (sys_errlist ! nat num) else None)"

text \<open>\<open>vsnprintf\<close> passes its arguments to \<open>vsprintf\<close> without the size; \<open>text\<close> is what the format makes of them.\<close>

definition vsnprintf :: "char arr \<Rightarrow> nat \<Rightarrow> string \<Rightarrow> (nat \<times> char arr) outcome" where
  "vsnprintf str n text =
     (let src = map Some (text @ [NUL]) in
      bindO (arr_copy str 0 src 0 (length src)) (\<lambda>str. Ret (length text, str)))"

lemma arr_cstr_RetD: "arr_cstr str = Ret s \<Longrightarrow> NUL \<notin> set s \<and> (\<exists>rest. str = map Some s @ Some NUL # rest)"
proof (induction str arbitrary: s)
  case (Cons b str)
  then show ?case
  proof (cases "b = Some NUL \<or> b = None")
    case False
    then obtain c where c: "b = Some c" "c \<noteq> NUL" by auto
    then obtain t where "arr_cstr str = Ret t" "s = c # t" using Cons.prems by (auto simp: arr_cstr_def Let_def split: if_splits)
    then show ?thesis using Cons.IH [of t] c by auto
  qed (auto simp: arr_cstr_def)
qed (simp add: arr_cstr_def)

text \<open>The copy has the room it needs and holds the string.\<close>

lemma strdup_copies:
  assumes "arr_cstr str = Ret s"
  shows "strdup True str = Ret (Some (map Some (s @ [NUL])))"
proof -
  obtain rest where "str = map Some s @ Some NUL # rest" using arr_cstr_RetD [OF assms] by blast
  then show ?thesis using assms by (simp add: strdup_def arr_copy_def arr_alloc_def)
qed

lemma vsnprintf_overruns: "vsnprintf str n text = Undef \<longleftrightarrow> length str \<le> length text"
  by (simp add: vsnprintf_def arr_copy_def Let_def not_le)

end
