(* ===== verification/Jftp_Misc.thy ===== *)
theory Jftp_Misc
  imports Jftp
begin

text \<open>
  What is left of jftp.c: the hint on the size of the socket buffers, the memory of a connection, and the recursive
  listing that is compiled out. Jftp leaves the hint out, as its result is not looked at.
\<close>

section \<open>Socket options\<close>

text \<open>
  \<open>failed\<close> is the static variable, \<open>setsockopt\<close> says whether the call succeeds on a descriptor. The result has the
  return value, the variable, and whether the system was called.
\<close>

definition ftp_set_sock_opts :: "(int \<Rightarrow> bool) \<Rightarrow> bool \<Rightarrow> int \<Rightarrow> int \<times> bool \<times> bool" where
  "ftp_set_sock_opts setsockopt failed fd =
     (if failed then (- 1, failed, False)
      else if \<not> setsockopt fd then (- 1, True, True)
      else (0, failed, True))"

text \<open>Whatever the descriptors, the system refuses at most once.\<close>

fun refused :: "(int \<Rightarrow> bool) \<Rightarrow> bool \<Rightarrow> int list \<Rightarrow> nat" where
  "refused setsockopt failed [] = 0"
| "refused setsockopt failed (fd # fds) =
     (let (res, failed, called) = ftp_set_sock_opts setsockopt failed fd in
      (if called \<and> res < 0 then 1 else 0) + refused setsockopt failed fds)"

lemma refused_failed: "refused setsockopt True fds = 0"
  by (induction fds) (simp_all add: ftp_set_sock_opts_def)

lemma refused_at_most_once: "refused setsockopt failed fds \<le> 1"
  by (induction fds arbitrary: failed) (simp_all add: ftp_set_sock_opts_def refused_failed)

section \<open>The memory of a connection\<close>

text \<open>The addresses of the connection and of its strings, \<open>None\<close> for \<open>NULL\<close>.\<close>

record con_mem =
  cm_con :: nat
  cm_remote_host :: "nat option"
  cm_user_name :: "nat option"
  cm_password :: "nat option"
  cm_tempdir :: "nat option"
  cm_remote_dir :: "nat option"

text \<open>What is passed to \<open>free\<close>, in this order.\<close>

definition ftp_unalloc :: "con_mem option \<Rightarrow> nat list" where
  "ftp_unalloc c =
     (case c of None \<Rightarrow> []
      | Some c \<Rightarrow> List.map_filter id [cm_remote_host c, cm_user_name c, cm_password c, cm_tempdir c] @ [cm_con c])"

text \<open>The remote directory is kept; the rest is freed.\<close>

definition con_blocks :: "con_mem \<Rightarrow> nat list" where
  "con_blocks c = List.map_filter id
     [cm_remote_host c, cm_user_name c, cm_password c, cm_tempdir c, Some (cm_con c), cm_remote_dir c]"

lemma ftp_unalloc_leaks:
  "distinct (con_blocks c) \<Longrightarrow> distinct (ftp_unalloc (Some c)) \<and>
   set (con_blocks c) = set (ftp_unalloc (Some c)) \<union> set_option (cm_remote_dir c) \<and>
   set (ftp_unalloc (Some c)) \<inter> set_option (cm_remote_dir c) = {}"
  by (auto simp: con_blocks_def ftp_unalloc_def map_filter_simps split: option.splits)

section \<open>Recursive listings\<close>

text \<open>The argument that is called \<open>tempfile\<close> is where \<open>ftp_dir2\<close> takes the directory.\<close>

definition ftp_dir_recurs ::
  "nat \<Rightarrow> 'w net_ops \<Rightarrow> bool \<Rightarrow> ftp_con \<Rightarrow> string \<Rightarrow> 'w \<Rightarrow> (string option \<times> ftp_con \<times> 'w) option" where
  "ftp_dir_recurs n nt ok c tempfile w = ftp_dir2 n nt ok c ''-lagR'' tempfile w"

end
