(* ===== verification/Spec2Isabelle.thy ===== *)
theory Spec2Isabelle
  imports Patricia Jftp6 Hash_Buf Cl_Que Skip_List Strl E_Err Tgetopt_Err Spegla_Main Spegla_Exit
    Listing Spdi Reg_Err Fnmatch Missing Jftp_Misc
begin

text \<open>
  \<^bold>\<open>spegla\<close> mirrors a directory tree of an FTP server into a local one. This development models
  its program logic and proves what the parts promise each other.

  \<^bold>\<open>The program.\<close> spegla.c lists a local and a remote directory into two heaps ordered by file
  name (container.c), merges them, and for each name fetches the remote file, removes the local
  one, or compares the two; directories go into a queue and are visited after the merge, by
  recursion. The file entries and the operations on them are in spf_util.c, the rows of a remote
  listing are parsed by parserow.c, and jftp.c speaks the protocol. The options come from the
  command line and from configuration files, which tgetopt.c reads; \<open>main\<close> turns them into
  parameters, takes a lock, logs in and starts the mirroring at the top.

  \<^bold>\<open>Theories.\<close>

    \<^item> Spegla_Prelude: results of C functions (\<open>Ret\<close>, \<open>Err errno\<close>, \<open>Exit\<close>, \<open>Undef\<close>), arrays whose
      accesses are checked, unsigned arithmetic modulo \<open>2 ^ 32\<close>, and two interfaces:
      \<open>comparator\<close> (what a comparison function must satisfy) and \<open>phase_container\<close> (a container
      that is filled and then drained).

    \<^item> Heap_List, Fifo, Stack, Hash_Buf: containers of container.c on arrays and chains. The heap
      is a priority queue for every \<open>comparator\<close>; fifo and stack are phase containers.

    \<^item> Cl_Que: the circular lists of container.c on an explicit store of linked cells. They are
      double ended queues (\<open>deque\<close>), \<open>cl_sort\<close> is a stable sort for every \<open>comparator\<close>, and
      searching, removing, counting and freeing do what they do on the list of the data.

    \<^item> Skip_List: the skip lists of container.c on a store of nodes with a pointer per level. They keep
      the contract \<open>ordered_map\<close>: insertion, search and removal do what they do on the sorted list of
      the entries. The levels are drawn from \<open>random\<close>, a parameter.

    \<^item> Patricia: the patricia tree of container.c, on a memory of nodes whose fields may be unwritten. Up to two
      keys it is a map; from the second key on a search depends on what was never written.

    \<^item> Strl: strlcpy.c and strlcat.c on buffers of bytes.

    \<^item> Fnmatch, Missing: the replacements in the directory missing. \<open>fnmatch\<close> means what the tokens of its pattern
      say; \<open>mkstemp\<close> ends and takes the first free name in its order.

    \<^item> E_Err: the messages and fatal errors of e_err.c: how a message is built in its buffer, where it
      goes, and which functions end the process.

    \<^item> Paths: the path functions of spf_util.c (92-396) on buffers of \<open>PATH_MAX\<close> bytes.

    \<^item> Spf_State: the data of spegla.h, the globals of spf_util.c as a state record, the system
      calls as a record of parameters, and runs, which return, end the process, or go wrong.

    \<^item> Spf_File: the operations on file entries of spf_util.c (188-1062).

    \<^item> Reg_Err: the error messages of regular expressions (spf_util.c 951-1018) and the buffer they grow into.

    \<^item> Spdi: the directory index of spf_util.c (1066-1349), on a file with a position. The program does not use
      it: \<open>spd_init\<close> leaves the list of subdirectories unwritten, and every lookup starts from it.

    \<^item> Parserow: parserow.c.

    \<^item> Jftp: jftp.c, with the sockets as a record of parameters. Jftp6: its \<open>INET6\<close> configuration, which on
      \<open>IPv4\<close> addresses does the same. Jftp_Misc: socket options and memory.

    \<^item> Sync: the mirroring engine, spegla.c 271-706.

    \<^item> Sync_Plan: the merge as a plan of actions, and \<open>sp_sync_dir\<close> as that plan followed by the
      visit of its directories.

    \<^item> Listing: from the text of a remote listing, through the parser and the lists, to the heap of the merge.

    \<^item> Sync_Limit: the limit on deletes through a whole run.

    \<^item> Tgetopt: the option parser tgetopt.c, on its line buffer with what older lines left in it;
      what a call may return, and that reading a command line gives back what was written.

    \<^item> Tgetopt_File: configuration files made of rows, and what the parser reads from them.

    \<^item> Tgetopt_Err: the messages of the option parser, built in the buffer of its state.

    \<^item> Config: the parameters of \<open>main\<close> (spegla.c 91-158, 753-1057, 1123-1350) and the loop that
      reads them from the command line and from files, as a meaning of command lines; urls; the
      expansion of file names; what an accepted configuration has.

    \<^item> Spegla_Main: the rest of \<open>main\<close>: free space, log and lock files, login, mirroring, exit.

    \<^item> Spegla_Exit: how the program ends: exit handlers and signals as a step relation on processes, with
      the invariant of its reachable states; the statistics.

  \<^bold>\<open>Conventions.\<close> A \<open>NULL\<close> pointer is \<open>None\<close>. An allocation that may fail is a flag of the
  operation. Accesses outside an array, dereferences of \<open>NULL\<close> and reads of what was never
  written are \<open>Undef\<close> or \<open>Wrong\<close>, never a value. Outside E_Err the calls that log are left out, as
  they change no state but that of e_err.c; of a fatal message only the exit is kept.
  Functions of the system and of the network are parameters; the sample file system and the
  sample server of Spf_State and Jftp show that what is assumed of them can hold.

  \<^bold>\<open>Bounds and fuel.\<close> The heap doubles its array in 32 bits, so the theorems ask for at most \<open>2 ^ 30\<close>
  elements, the fifo for fewer than \<open>2 ^ 31 - 1\<close>. The recursion of \<open>rm_rf\<close> makes paths longer and the
  system refuses long ones, so a depth of \<open>PATH_MAX\<close> is enough. The merge loop pops a file in every
  round; its fuel is the number of files plus one. A download restarts at most once per retry and
  once for a full file system (\<open>get_fuel\<close>). A reply of the server takes one round per byte. The
  depth of the recursion of \<open>sp_sync_dir\<close> is a parameter. The loops over a circular list take one
  round per element; the option loop one per option and one per file; the login loop of \<open>main\<close> at
  most \<open>retries + 2\<close>. A search in a skip list takes one round per cell of the store on each level; the
  draw of a level ends when \<open>random\<close> gives a pair of zero bits, and if any \<open>B\<close> of its values in a row
  contain one, \<open>15 * (B + 1)\<close> rounds are enough. The names of \<open>mkstemp\<close> grow as numbers to the base 27, which bounds
  the rounds of its loop.

  \<^bold>\<open>Not modelled.\<close> The vendored regular expression library: matching and its messages are parameters. The \<open>INET6\<close>
  branch of the family option. Signals that come while the program logs in or mirrors are in Spegla_Exit only, as ends
  of the process, not as interruptions of the calls in Sync and Jftp.
\<close>

section \<open>Components together\<close>

text \<open>
  The copies that the expansion of file names makes in its buffer are those of \<open>strlcpy\<close> at that
  place with the room that is left, which returns the whole length of the argument.
\<close>

theorem strlcpy_at_is_strlcpy:
  assumes "NUL \<notin> set str" "length buf = MAX_LINE" "i < MAX_LINE"
  shows "strlcpy buf i (map Some str @ [Some NUL]) (MAX_LINE - i) = bindO (strlcpy_at buf i str) (\<lambda>buf. Ret (length str, buf))"
proof -
  have "cstr_at (map Some str @ [Some NUL]) 0 str" using assms(1) by (simp add: cstr_at_def)
  then have "strlcpy buf i (map Some str @ [Some NUL]) (MAX_LINE - i) =
      Ret (length str, put_at buf i (take (MAX_LINE - i - 1) str @ [NUL]))"
    using strlcpy_exact [of "map Some str @ [Some NUL]" str i "MAX_LINE - i" buf] assms(2,3) by simp
  moreover have "strlcpy_at buf i str = Ret (put_at buf i (take (MAX_LINE - i - 1) str @ [NUL]))"
    using assms(2,3) by (auto simp: strlcpy_at_def arr_copy_def put_at_def Let_def)
  ultimately show ?thesis by simp
qed

lemma strlcpy_at_is_strlcpy_witness:
  "strlcpy (replicate MAX_LINE None) 3 (map Some ''ab'' @ [Some NUL]) (MAX_LINE - 3) =
    bindO (strlcpy_at (replicate MAX_LINE None) 3 ''ab'') (\<lambda>buf. Ret (2, buf))"
  using strlcpy_at_is_strlcpy [of "''ab''" "replicate MAX_LINE None" 3] by (simp add: NUL_def MAX_LINE_def numeral_2_eq_2)

end
